(* ===== verification/Ngx_Prelude.thy ===== *)
theory Ngx_Prelude
  imports Main "HOL-Library.Word" "HOL-Library.Multiset"
begin

text \<open>
  Shared vocabulary of the development: the machine types of the C sources, the return codes
  of \<open>src/core/ngx_core.h\<close>, the bytes the parsers name, slices of a buffer, and the driver of
  the byte-at-a-time state machines (\<open>for (p = b->pos; p < b->last; p++) switch (state)\<close>) that
  the HTTP parsers share, with the contract of such a machine as two locales.
\<close>

unbundle bit_operations_syntax

section \<open>Machine types and return codes\<close>

type_synonym byte = "8 word"
type_synonym u16 = "16 word"
type_synonym u32 = "32 word"
type_synonym u64 = "64 word"

abbreviation (input) NGX_OK :: int where "NGX_OK \<equiv> 0"
abbreviation (input) NGX_ERROR :: int where "NGX_ERROR \<equiv> - 1"
abbreviation (input) NGX_AGAIN :: int where "NGX_AGAIN \<equiv> - 2"
abbreviation (input) NGX_BUSY :: int where "NGX_BUSY \<equiv> - 3"
abbreviation (input) NGX_DONE :: int where "NGX_DONE \<equiv> - 4"
abbreviation (input) NGX_DECLINED :: int where "NGX_DECLINED \<equiv> - 5"

text \<open>
  \<open>ngx_int_t\<close>, \<open>off_t\<close> and \<open>ssize_t\<close> are 64-bit signed integers on the supported platforms.
  A signed overflow is undefined in C, so signed values are \<^typ>\<open>int\<close> and the theorems show
  that they stay within these bounds.
\<close>

abbreviation (input) NGX_MAX_INT_T_VALUE :: int where "NGX_MAX_INT_T_VALUE \<equiv> 9223372036854775807"
abbreviation (input) NGX_MAX_OFF_T_VALUE :: int where "NGX_MAX_OFF_T_VALUE \<equiv> 9223372036854775807"
abbreviation (input) NGX_MAX_SIZE_T_VALUE :: int where "NGX_MAX_SIZE_T_VALUE \<equiv> 9223372036854775807"

section \<open>Bytes\<close>

abbreviation (input) NUL :: byte where "NUL \<equiv> 0"
abbreviation (input) TAB :: byte where "TAB \<equiv> 9"
abbreviation (input) LF :: byte where "LF \<equiv> 10"
abbreviation (input) CR :: byte where "CR \<equiv> 13"
abbreviation (input) SP :: byte where "SP \<equiv> 32"
abbreviation (input) b_excl :: byte where "b_excl \<equiv> 33"
abbreviation (input) b_hash :: byte where "b_hash \<equiv> 35"
abbreviation (input) b_dollar :: byte where "b_dollar \<equiv> 36"
abbreviation (input) b_pct :: byte where "b_pct \<equiv> 37"
abbreviation (input) b_amp :: byte where "b_amp \<equiv> 38"
abbreviation (input) b_apos :: byte where "b_apos \<equiv> 39"
abbreviation (input) b_lpar :: byte where "b_lpar \<equiv> 40"
abbreviation (input) b_rpar :: byte where "b_rpar \<equiv> 41"
abbreviation (input) b_star :: byte where "b_star \<equiv> 42"
abbreviation (input) b_plus :: byte where "b_plus \<equiv> 43"
abbreviation (input) b_comma :: byte where "b_comma \<equiv> 44"
abbreviation (input) b_minus :: byte where "b_minus \<equiv> 45"
abbreviation (input) b_dot :: byte where "b_dot \<equiv> 46"
abbreviation (input) b_slash :: byte where "b_slash \<equiv> 47"
abbreviation (input) b_0 :: byte where "b_0 \<equiv> 48"
abbreviation (input) b_1 :: byte where "b_1 \<equiv> 49"
abbreviation (input) b_9 :: byte where "b_9 \<equiv> 57"
abbreviation (input) b_colon :: byte where "b_colon \<equiv> 58"
abbreviation (input) b_semi :: byte where "b_semi \<equiv> 59"
abbreviation (input) b_eq :: byte where "b_eq \<equiv> 61"
abbreviation (input) b_qm :: byte where "b_qm \<equiv> 63"
abbreviation (input) b_A :: byte where "b_A \<equiv> 65"
abbreviation (input) b_H :: byte where "b_H \<equiv> 72"
abbreviation (input) b_P :: byte where "b_P \<equiv> 80"
abbreviation (input) b_T :: byte where "b_T \<equiv> 84"
abbreviation (input) b_Z :: byte where "b_Z \<equiv> 90"
abbreviation (input) b_lbrack :: byte where "b_lbrack \<equiv> 91"
abbreviation (input) b_rbrack :: byte where "b_rbrack \<equiv> 93"
abbreviation (input) b_under :: byte where "b_under \<equiv> 95"
abbreviation (input) b_a :: byte where "b_a \<equiv> 97"
abbreviation (input) b_f :: byte where "b_f \<equiv> 102"
abbreviation (input) b_z :: byte where "b_z \<equiv> 122"
abbreviation (input) b_tilde :: byte where "b_tilde \<equiv> 126"
abbreviation (input) DEL :: byte where "DEL \<equiv> 127"

text \<open>The two range tests the parsers repeat: a decimal digit, and a letter after
  \<open>c = (u_char) (ch | 0x20)\<close>.\<close>

definition is_digit :: "byte \<Rightarrow> bool" where
  "is_digit ch \<longleftrightarrow> b_0 \<le> ch \<and> ch \<le> b_9"

definition is_alpha :: "byte \<Rightarrow> bool" where
  "is_alpha ch \<longleftrightarrow> (let c = ch OR 0x20 in b_a \<le> c \<and> c \<le> b_z)"

text \<open>A hexadecimal letter, \<open>c = (u_char) (ch | 0x20); c >= 'a' && c <= 'f'\<close>.\<close>

definition is_hex_alpha :: "byte \<Rightarrow> bool" where
  "is_hex_alpha ch \<longleftrightarrow> (let c = ch OR 0x20 in b_a \<le> c \<and> c \<le> b_f)"

text \<open>The digit value \<open>ch - '0'\<close>.\<close>

definition digit_val :: "byte \<Rightarrow> nat" where
  "digit_val ch = unat (ch - b_0)"

lemma unat_byte_less: "unat (c :: byte) < 256"
proof -
  have "unat c < 2 ^ LENGTH(8)" by (rule unsigned_less)
  then show ?thesis by simp
qed

lemma digit_val_eq: "is_digit ch \<Longrightarrow> digit_val ch = unat ch - 48"
  by (simp add: is_digit_def digit_val_def unat_sub_if' word_le_nat_alt)

lemma digit_val_le: "is_digit ch \<Longrightarrow> digit_val ch \<le> 9"
  using digit_val_eq [of ch] by (auto simp: is_digit_def word_le_nat_alt)

text \<open>The value of a hexadecimal digit, as the parsers compute it.\<close>

definition hex_digit :: "byte \<Rightarrow> nat option" where
  "hex_digit ch =
     (if is_digit ch then Some (digit_val ch)
      else if is_hex_alpha ch then Some (unat ((ch OR 0x20) - b_a) + 10)
      else None)"

lemma hex_digit_le: "hex_digit ch = Some d \<Longrightarrow> d \<le> 15"
proof -
  have "unat ((ch OR 0x20) - b_a) \<le> 5" if "is_hex_alpha ch"
  proof -
    have "b_a \<le> ch OR 0x20" "unat (ch OR 0x20) \<le> 102"
      using that by (auto simp: is_hex_alpha_def Let_def word_le_nat_alt)
    then show ?thesis by (simp add: unat_sub)
  qed
  moreover have "is_digit ch \<Longrightarrow> digit_val ch \<le> 9" by (rule digit_val_le)
  moreover assume "hex_digit ch = Some d"
  ultimately show ?thesis by (force simp: hex_digit_def split: if_splits)
qed

text \<open>Strings of hexadecimal digits and the number they denote, after a prefix of value \<open>v\<close>.\<close>

definition hex_string :: "byte list \<Rightarrow> bool" where
  "hex_string h \<longleftrightarrow> (\<forall>c \<in> set h. hex_digit c \<noteq> None)"

definition hex_val_from :: "nat \<Rightarrow> byte list \<Rightarrow> nat" where
  "hex_val_from v h = foldl (\<lambda>v c. v * 16 + the (hex_digit c)) v h"

lemma hex_string_simps [simp]:
  "hex_string []" "hex_string (c # h) \<longleftrightarrow> hex_digit c \<noteq> None \<and> hex_string h"
  by (auto simp: hex_string_def)

lemma hex_val_from_simps [simp]:
  "hex_val_from v [] = v"
  "hex_val_from v (c # h) = hex_val_from (v * 16 + the (hex_digit c)) h"
  by (simp_all add: hex_val_from_def)

lemma hex_val_from_ge: "v \<le> hex_val_from v h"
proof (induction h arbitrary: v)
  case (Cons c h)
  have "v \<le> v * 16 + the (hex_digit c)" by simp
  also have "\<dots> \<le> hex_val_from (v * 16 + the (hex_digit c)) h" by (rule Cons.IH)
  finally show ?case by simp
qed simp

section \<open>Machine words and numbers\<close>

lemma word_div_nat:
  assumes "Y < 2 ^ 64"
  shows "(of_nat Y :: u64) div w = of_nat (Y div unat w)"
proof -
  have "Y div unat w < 2 ^ 64" using assms by (rule le_less_trans [OF div_le_dividend])
  then show ?thesis using assms by (simp add: word_unat_eq_iff unat_div unat_of_nat)
qed

lemma sint_small: "- (2 ^ 63) \<le> x \<Longrightarrow> x < 2 ^ 63 \<Longrightarrow> sint (of_int x :: u64) = x"
  by (simp add: signed_of_int signed_take_bit_int_eq_self)

text \<open>A sum over processes, named by their pids, after one of them has moved.\<close>

lemma sum_upd:
  fixes P :: "u64 set"
  assumes "p \<in> P"
  shows "(\<Sum>q\<in>P. f ((g(p := x)) q)) = (\<Sum>q\<in>P. f (g q)) - f (g p) + (f x :: int)"
proof -
  have "(\<Sum>q\<in>P. f ((g(p := x)) q)) = f x + (\<Sum>q\<in>P - {p}. f (g q))"
    using assms by (simp add: sum.remove [of P p])
  moreover have "(\<Sum>q\<in>P. f (g q)) = f (g p) + (\<Sum>q\<in>P - {p}. f (g q))"
    using assms by (simp add: sum.remove [of P p])
  ultimately show ?thesis by simp
qed

section \<open>Slices of a buffer\<close>

text \<open>The bytes from offset \<open>u\<close> up to, not including, offset \<open>e\<close>.\<close>

definition slice :: "nat \<Rightarrow> nat \<Rightarrow> 'a list \<Rightarrow> 'a list" where
  "slice u e xs = take (e - u) (drop u xs)"

lemma slice_empty [simp]: "e \<le> u \<Longrightarrow> slice u e xs = []"
  by (simp add: slice_def)

lemma slice_Suc: "u \<le> e \<Longrightarrow> e < length xs \<Longrightarrow> slice u (Suc e) xs = slice u e xs @ [xs ! e]"
  by (simp add: slice_def Suc_diff_le take_Suc_conv_app_nth)

lemma slice_append_left: "e \<le> length xs \<Longrightarrow> slice u e (xs @ ys) = slice u e xs"
  by (cases "u \<le> length xs") (simp_all add: slice_def)

lemma length_slice: "e \<le> length xs \<Longrightarrow> length (slice u e xs) = e - u"
  by (simp add: slice_def)

lemma slice_single: "u < length xs \<Longrightarrow> slice u (Suc u) xs = [xs ! u]"
  by (simp add: slice_Suc)

lemma slice_split: "u \<le> m \<Longrightarrow> m \<le> e \<Longrightarrow> slice u e xs = slice u m xs @ slice m e xs"
proof -
  assume "u \<le> m" "m \<le> e"
  then have "e - u = (m - u) + (e - m)" by simp
  then have "take (e - u) (drop u xs)
      = take (m - u) (drop u xs) @ take (e - m) (drop (m - u) (drop u xs))"
    by (metis take_add)
  with \<open>u \<le> m\<close> show ?thesis by (simp add: slice_def)
qed

lemma slice_Cons: "u < e \<Longrightarrow> u < length xs \<Longrightarrow> slice u e xs = xs ! u # slice (Suc u) e xs"
  using slice_split [of u "Suc u" e xs] by (simp add: slice_single)

lemma nth_slice: "i < e - u \<Longrightarrow> e \<le> length xs \<Longrightarrow> slice u e xs ! i = xs ! (u + i)"
  by (simp add: slice_def)

lemma set_slice_nth: "set (slice u e xs) \<subseteq> set xs"
  by (auto simp: slice_def dest: in_set_takeD in_set_dropD)

lemma drop_appendD: "drop p xs = w @ ys \<Longrightarrow> drop (p + length w) xs = ys"
  by (metis add.commute append_eq_conv_conj drop_drop)

lemma drop_ConsD:
  "drop p xs = x # w \<Longrightarrow> p < length xs \<and> xs ! p = x \<and> drop (Suc p) xs = w"
  by (metis drop_eq_Nil leI list.distinct(1) list.sel(3) nth_via_drop tl_drop drop_Suc)

section \<open>Byte-at-a-time state machines\<close>

text \<open>
  One iteration of \<open>for (p = b->pos; p < b->last; p++) { ch = *p; switch (state) ... }\<close>: either
  the \<open>switch\<close> breaks and the loop goes on with the new locals, or it leaves the loop by a
  \<open>return\<close> or a \<open>goto\<close>.
\<close>

datatype ('s, 'r) step_res = Next 's | Stop 'r 's

function run_bytes :: "(byte list \<Rightarrow> nat \<Rightarrow> byte \<Rightarrow> 's \<Rightarrow> ('s, 'r) step_res) \<Rightarrow> byte list
    \<Rightarrow> nat \<Rightarrow> 's \<Rightarrow> 'r option \<times> nat \<times> 's" where
  "run_bytes step buf p s =
     (if p < length buf
      then (case step buf p (buf ! p) s of
              Next s' \<Rightarrow> run_bytes step buf (Suc p) s'
            | Stop r s' \<Rightarrow> (Some r, p, s'))
      else (None, p, s))"
  by pat_completeness auto
termination
  by (relation "measure (\<lambda>(step, buf, p, s). length buf - p)") auto

declare run_bytes.simps [simp del]

lemma run_bytes_end [simp]: "length buf \<le> p \<Longrightarrow> run_bytes step buf p s = (None, p, s)"
  by (simp add: run_bytes.simps)

lemma run_bytes_Next:
  "p < length buf \<Longrightarrow> step buf p (buf ! p) s = Next s'
     \<Longrightarrow> run_bytes step buf p s = run_bytes step buf (Suc p) s'"
  by (simp add: run_bytes.simps [of step buf p s])

lemma run_bytes_Stop:
  "p < length buf \<Longrightarrow> step buf p (buf ! p) s = Stop r s'
     \<Longrightarrow> run_bytes step buf p s = (Some r, p, s')"
  by (simp add: run_bytes.simps [of step buf p s])

lemma run_bytes_Some:
  "run_bytes step buf p s = (Some r, q, s')
     \<Longrightarrow> \<exists>t. p \<le> q \<and> q < length buf \<and> step buf q (buf ! q) t = Stop r s'"
proof (induction "length buf - p" arbitrary: p s)
  case 0
  then show ?case by simp
next
  case (Suc n)
  then have p: "p < length buf" by simp
  show ?case
  proof (cases "step buf p (buf ! p) s")
    case (Next t)
    with Suc.hyps(2) Suc.prems p have "\<exists>t. Suc p \<le> q \<and> q < length buf
        \<and> step buf q (buf ! q) t = Stop r s'"
      by (intro Suc.hyps(1) [of "Suc p" t]) (auto simp: run_bytes_Next)
    then show ?thesis using Suc_leD by blast
  next
    case (Stop r' t)
    with Suc p show ?thesis by (auto simp: run_bytes_Stop)
  qed
qed

text \<open>A change of the state that no step notices goes through the whole run.\<close>

lemma run_bytes_map:
  assumes step: "\<And>p s. step buf p (buf ! p) (f s) =
      (case step buf p (buf ! p) s of Next s' \<Rightarrow> Next (f s') | Stop r s' \<Rightarrow> Stop r (f s'))"
  shows "run_bytes step buf p (f s) = (case run_bytes step buf p s of (e, q, s') \<Rightarrow> (e, q, f s'))"
proof (induction "length buf - p" arbitrary: p s)
  case 0
  then show ?case by simp
next
  case (Suc n)
  then have p: "p < length buf" by simp
  show ?case
  proof (cases "step buf p (buf ! p) s")
    case (Next t)
    with step [of p s] have "step buf p (buf ! p) (f s) = Next (f t)" by simp
    with Next p Suc.hyps show ?thesis by (simp add: run_bytes_Next)
  next
    case (Stop r t)
    with step [of p s] have "step buf p (buf ! p) (f s) = Stop r (f t)" by simp
    with Stop p show ?thesis by (simp add: run_bytes_Stop)
  qed
qed

text \<open>The interface of a resumable machine: a step at offset \<open>p\<close> reads nothing after \<open>p\<close>, so
  bytes that arrive later cannot change what it has done.\<close>

locale byte_machine =
  fixes step :: "byte list \<Rightarrow> nat \<Rightarrow> byte \<Rightarrow> 's \<Rightarrow> ('s, 'r) step_res"
  assumes step_local: "p < length xs \<Longrightarrow> step (xs @ ys) p c s = step xs p c s"
begin

lemma run_append:
  "run_bytes step (xs @ ys) p s =
     (case run_bytes step xs p s of
        (None, q, s') \<Rightarrow> run_bytes step (xs @ ys) q s'
      | (Some r, q, s') \<Rightarrow> (Some r, q, s'))"
proof (induction "length xs - p" arbitrary: p s)
  case 0
  then show ?case by simp
next
  case (Suc n)
  then have p: "p < length xs" by simp
  have same: "step (xs @ ys) p ((xs @ ys) ! p) s = step xs p (xs ! p) s"
    using p by (simp add: step_local nth_append)
  show ?case
  proof (cases "step xs p (xs ! p) s")
    case (Next s')
    with same p Suc.hyps show ?thesis
      by (simp add: run_bytes_Next [of p xs] run_bytes_Next [of p "xs @ ys"])
  next
    case (Stop r s')
    with same p show ?thesis
      by (simp add: run_bytes_Stop [of p xs] run_bytes_Stop [of p "xs @ ys"])
  qed
qed

lemma run_resume:
  "run_bytes step xs p s = (None, q, s')
     \<Longrightarrow> run_bytes step (xs @ ys) p s = run_bytes step (xs @ ys) q s'"
  by (simp add: run_append)

lemma run_prefix_stop:
  "run_bytes step xs p s = (Some r, q, s') \<Longrightarrow> run_bytes step (xs @ ys) p s = (Some r, q, s')"
  by (simp add: run_append)

end

text \<open>A machine with a loop invariant, stated of the offset of the next byte.\<close>

locale byte_machine_inv =
  fixes step :: "byte list \<Rightarrow> nat \<Rightarrow> byte \<Rightarrow> 's \<Rightarrow> ('s, 'r) step_res"
    and inv :: "byte list \<Rightarrow> nat \<Rightarrow> 's \<Rightarrow> bool"
  assumes step_inv: "inv buf p s \<Longrightarrow> p < length buf \<Longrightarrow> step buf p (buf ! p) s = Next s'
      \<Longrightarrow> inv buf (Suc p) s'"
begin

lemma run_again:
  "run_bytes step buf p s = (None, q, s') \<Longrightarrow> inv buf p s \<Longrightarrow> p \<le> length buf
     \<Longrightarrow> q = length buf \<and> inv buf q s'"
proof (induction "length buf - p" arbitrary: p s)
  case 0
  then show ?case by simp
next
  case (Suc n)
  then have p: "p < length buf" by simp
  show ?case
  proof (cases "step buf p (buf ! p) s")
    case (Next t)
    with Suc.hyps Suc.prems p show ?thesis
      by (intro Suc.hyps(1) [of "Suc p" t]) (auto simp: run_bytes_Next dest: step_inv)
  next
    case (Stop r t)
    with Suc p show ?thesis by (simp add: run_bytes_Stop)
  qed
qed

lemma run_stop:
  "run_bytes step buf p s = (Some r, q, s') \<Longrightarrow> inv buf p s
     \<Longrightarrow> \<exists>t. p \<le> q \<and> q < length buf \<and> inv buf q t \<and> step buf q (buf ! q) t = Stop r s'"
proof (induction "length buf - p" arbitrary: p s)
  case 0
  then show ?case by simp
next
  case (Suc n)
  then have p: "p < length buf" by simp
  show ?case
  proof (cases "step buf p (buf ! p) s")
    case (Next t)
    with Suc.hyps Suc.prems p have "\<exists>t. Suc p \<le> q \<and> q < length buf \<and> inv buf q t
        \<and> step buf q (buf ! q) t = Stop r s'"
      by (intro Suc.hyps(1) [of "Suc p" t]) (auto simp: run_bytes_Next dest: step_inv)
    then show ?thesis using Suc_leD by blast
  next
    case (Stop r' t)
    with Suc p show ?thesis by (auto simp: run_bytes_Stop)
  qed
qed

end

end
