(* ===== verification/Http_Request.thy ===== *)
theory Http_Request
  imports Ngx_Prelude
begin

text \<open>
  The part of \<open>struct ngx_http_request_s\<close> (\<open>src/http/ngx_http_request.h\<close>) and of
  \<open>ngx_buf_t\<close> that the parsers of \<open>src/http/ngx_http_parse.c\<close> read and write. Pointers into
  the header buffer are offsets from its start, \<open>NULL\<close> is \<open>None\<close>; bit fields of width one are
  booleans. The parser's error codes and the \<open>usual\<close> bitmap are here too, as every URI parser
  shares them.
\<close>

section \<open>Buffers and request state\<close>

record ngx_buf =
  b_data :: "byte list"
  b_pos :: nat

datatype rl_state =
    sw_start | sw_method
  | sw_spaces_before_connect_host | sw_connect_host_start | sw_connect_host
  | sw_connect_host_end | sw_connect_host_ip_literal | sw_connect_port
  | sw_spaces_before_uri | sw_schema | sw_schema_slash | sw_schema_slash_slash
  | sw_spaces_before_host | sw_host_start | sw_host | sw_host_end | sw_host_ip_literal
  | sw_port_start | sw_port
  | sw_after_slash_in_uri | sw_check_uri | sw_uri
  | sw_http_09 | sw_http_H | sw_http_HT | sw_http_HTT | sw_http_HTTP
  | sw_first_major_digit | sw_major_digit | sw_first_minor_digit | sw_minor_digit
  | sw_spaces_after_digit | sw_almost_done

abbreviation (input) NGX_HTTP_UNKNOWN :: nat where "NGX_HTTP_UNKNOWN \<equiv> 0x00000001"
abbreviation (input) NGX_HTTP_GET :: nat where "NGX_HTTP_GET \<equiv> 0x00000002"
abbreviation (input) NGX_HTTP_HEAD :: nat where "NGX_HTTP_HEAD \<equiv> 0x00000004"
abbreviation (input) NGX_HTTP_POST :: nat where "NGX_HTTP_POST \<equiv> 0x00000008"
abbreviation (input) NGX_HTTP_PUT :: nat where "NGX_HTTP_PUT \<equiv> 0x00000010"
abbreviation (input) NGX_HTTP_DELETE :: nat where "NGX_HTTP_DELETE \<equiv> 0x00000020"
abbreviation (input) NGX_HTTP_MKCOL :: nat where "NGX_HTTP_MKCOL \<equiv> 0x00000040"
abbreviation (input) NGX_HTTP_COPY :: nat where "NGX_HTTP_COPY \<equiv> 0x00000080"
abbreviation (input) NGX_HTTP_MOVE :: nat where "NGX_HTTP_MOVE \<equiv> 0x00000100"
abbreviation (input) NGX_HTTP_OPTIONS :: nat where "NGX_HTTP_OPTIONS \<equiv> 0x00000200"
abbreviation (input) NGX_HTTP_PROPFIND :: nat where "NGX_HTTP_PROPFIND \<equiv> 0x00000400"
abbreviation (input) NGX_HTTP_PROPPATCH :: nat where "NGX_HTTP_PROPPATCH \<equiv> 0x00000800"
abbreviation (input) NGX_HTTP_LOCK :: nat where "NGX_HTTP_LOCK \<equiv> 0x00001000"
abbreviation (input) NGX_HTTP_UNLOCK :: nat where "NGX_HTTP_UNLOCK \<equiv> 0x00002000"
abbreviation (input) NGX_HTTP_PATCH :: nat where "NGX_HTTP_PATCH \<equiv> 0x00004000"
abbreviation (input) NGX_HTTP_TRACE :: nat where "NGX_HTTP_TRACE \<equiv> 0x00008000"
abbreviation (input) NGX_HTTP_CONNECT :: nat where "NGX_HTTP_CONNECT \<equiv> 0x00010000"

abbreviation (input) NGX_HTTP_PARSE_HEADER_DONE :: int where "NGX_HTTP_PARSE_HEADER_DONE \<equiv> 1"
abbreviation (input) NGX_HTTP_PARSE_INVALID_METHOD :: int where "NGX_HTTP_PARSE_INVALID_METHOD \<equiv> 10"
abbreviation (input) NGX_HTTP_PARSE_INVALID_REQUEST :: int where "NGX_HTTP_PARSE_INVALID_REQUEST \<equiv> 11"
abbreviation (input) NGX_HTTP_PARSE_INVALID_VERSION :: int where "NGX_HTTP_PARSE_INVALID_VERSION \<equiv> 12"
abbreviation (input) NGX_HTTP_PARSE_INVALID_09_METHOD :: int where "NGX_HTTP_PARSE_INVALID_09_METHOD \<equiv> 13"
abbreviation (input) NGX_HTTP_PARSE_INVALID_HEADER :: int where "NGX_HTTP_PARSE_INVALID_HEADER \<equiv> 14"

text \<open>
  \<open>r_state\<close> is \<open>r->state\<close> while the request line is parsed. The URI string \<open>r->uri\<close>, which
  \<open>ngx_http_parse_complex_uri\<close> writes into its own allocation, is \<open>r_uri\<close>; \<open>r_exten\<close> and
  \<open>r_args\<close> are the bytes of \<open>r->exten\<close> and \<open>r->args\<close>.
\<close>

record http_request =
  r_state :: rl_state
  r_method :: nat
  r_http_version :: nat
  r_http_major :: nat
  r_http_minor :: nat
  r_request_start :: "nat option"
  r_request_end :: "nat option"
  r_method_end :: "nat option"
  r_schema_start :: "nat option"
  r_schema_end :: "nat option"
  r_host_start :: "nat option"
  r_host_end :: "nat option"
  r_connect_host_start :: "nat option"
  r_connect_host_end :: "nat option"
  r_connect_port_end :: "nat option"
  r_uri_start :: "nat option"
  r_uri_end :: "nat option"
  r_uri_ext :: "nat option"
  r_args_start :: "nat option"
  r_http_protocol :: "nat option"
  r_complex_uri :: bool
  r_quoted_uri :: bool
  r_plus_in_uri :: bool
  r_empty_path_in_uri :: bool
  r_uri :: "byte list"
  r_raw_uri :: "byte list"
  r_unparsed_uri :: "byte list"
  r_valid_unparsed_uri :: bool
  r_exten :: "byte list"
  r_args :: "byte list"

text \<open>A fresh request, zeroed by \<open>ngx_pcalloc\<close> with \<open>r->method = NGX_HTTP_UNKNOWN\<close>
  (\<open>ngx_http_alloc_request\<close>).\<close>

definition fresh_request :: http_request where
  "fresh_request = \<lparr>r_state = sw_start, r_method = NGX_HTTP_UNKNOWN, r_http_version = 0,
     r_http_major = 0, r_http_minor = 0, r_request_start = None, r_request_end = None,
     r_method_end = None, r_schema_start = None, r_schema_end = None, r_host_start = None,
     r_host_end = None, r_connect_host_start = None, r_connect_host_end = None,
     r_connect_port_end = None, r_uri_start = None, r_uri_end = None, r_uri_ext = None,
     r_args_start = None, r_http_protocol = None, r_complex_uri = False, r_quoted_uri = False,
     r_plus_in_uri = False, r_empty_path_in_uri = False, r_uri = [],
     r_raw_uri = [], r_unparsed_uri = [], r_valid_unparsed_uri = False, r_exten = [], r_args = []\<rparr>"

section \<open>The bitmap of usual URI characters\<close>

definition usual :: "u32 list" where
  "usual = [0x00000000, 0x7fff37d6, 0xffffffff, 0x7fffffff,
            0xffffffff, 0xffffffff, 0xffffffff, 0xffffffff]"

text \<open>\<open>usual[ch >> 5] & (1U << (ch & 0x1f))\<close>\<close>

definition usual_ch :: "byte \<Rightarrow> bool" where
  "usual_ch ch \<longleftrightarrow> (usual ! unat (drop_bit 5 ch)) AND push_bit (unat (ch AND 0x1f)) 1 \<noteq> 0"

lemma usual_ch_special:
  "\<not> usual_ch SP" "\<not> usual_ch b_hash" "\<not> usual_ch b_pct" "\<not> usual_ch b_plus" "\<not> usual_ch b_dot"
  "\<not> usual_ch b_slash" "\<not> usual_ch b_qm" "\<not> usual_ch DEL"
  by (simp_all add: usual_ch_def usual_def)

lemma usual_ch_neq:
  assumes "usual_ch ch"
  shows "ch \<noteq> SP" "ch \<noteq> b_hash" "ch \<noteq> b_pct" "ch \<noteq> b_plus" "ch \<noteq> b_dot" "ch \<noteq> b_slash"
    "ch \<noteq> b_qm" "ch \<noteq> DEL"
  using assms usual_ch_special by auto

lemma usual_ch_not_control:
  assumes "usual_ch ch"
  shows "0x20 \<le> ch"
proof (rule ccontr)
  assume "\<not> 0x20 \<le> ch"
  then have "unat ch < 32" by (simp add: word_le_nat_alt)
  then have "unat (drop_bit 5 ch) = 0"
    by (simp add: drop_bit_eq_div unat_div)
  then have "\<not> usual_ch ch" by (simp add: usual_ch_def usual_def)
  with assms show False by simp
qed

end
