(* ===== verification/Http_Request_Line.thy ===== *)
theory Http_Request_Line
  imports Http_Request
begin

text \<open>
  \<open>ngx_http_parse_request_line\<close> of \<open>src/http/ngx_http_parse.c\<close>: the state machine that splits
  \<open>METHOD SP URI [SP HTTP/x.y] CRLF\<close> into offsets of the header buffer. Each \<open>case\<close> of the
  source's \<open>switch\<close>, or group of cases joined by a fall through, is one definition. The flag
  \<open>pc\<close> is the build option \<open>NGX_HTTP_PROXY_CONNECT\<close>.
\<close>

section \<open>The machine\<close>

text \<open>How the loop is left: \<open>goto done\<close>, or \<open>return rc\<close>.\<close>

datatype rl_exit = RL_done | RL_return int

type_synonym rl_conf = "rl_state \<times> http_request"
type_synonym rl_res = "(rl_conf, rl_exit) step_res"

definition rl_invalid :: "http_request \<Rightarrow> rl_state \<Rightarrow> rl_res" where
  "rl_invalid r st = Stop (RL_return NGX_HTTP_PARSE_INVALID_REQUEST) (st, r)"

definition method_ch :: "byte \<Rightarrow> bool" where
  "method_ch ch \<longleftrightarrow> \<not> ((ch < b_A \<or> ch > b_Z) \<and> ch \<noteq> b_under \<and> ch \<noteq> b_minus)"

definition rl_start :: "nat \<Rightarrow> byte \<Rightarrow> http_request \<Rightarrow> rl_res" where
  "rl_start p ch r0 =
     (let r = r0\<lparr>r_request_start := Some p\<rparr> in
      if ch = CR \<or> ch = LF then Next (sw_start, r)
      else if \<not> method_ch ch then Stop (RL_return NGX_HTTP_PARSE_INVALID_METHOD) (sw_start, r)
      else Next (sw_method, r))"

text \<open>
  The \<open>switch (p - m)\<close> over the method name. \<open>m\<close> is the name, the bytes from
  \<open>r->request_start\<close> to \<open>p\<close>; the comparison macros compare it byte by byte, and
  \<open>ngx_str3Ocmp\<close> skips the second byte, which the caller has compared with \<open>'O'\<close>. A name of no
  known method leaves \<open>r->method\<close> unchanged.
\<close>

definition ngx_str3Ocmp :: "byte list \<Rightarrow> byte \<Rightarrow> byte \<Rightarrow> byte \<Rightarrow> byte \<Rightarrow> bool" where
  "ngx_str3Ocmp m c0 c1 c2 c3 \<longleftrightarrow> m ! 0 = c0 \<and> m ! 2 = c2 \<and> m ! 3 = c3"

definition rl_method_code :: "byte list \<Rightarrow> nat \<Rightarrow> nat" where
  "rl_method_code m old =
     (if length m = 3 then
        (if m = [71, 69, 84] then NGX_HTTP_GET
         else if m = [80, 85, 84] then NGX_HTTP_PUT
         else old)
      else if length m = 4 then
        (if m ! 1 = 79 then
           (if ngx_str3Ocmp m 80 79 83 84 then NGX_HTTP_POST
            else if ngx_str3Ocmp m 67 79 80 89 then NGX_HTTP_COPY
            else if ngx_str3Ocmp m 77 79 86 69 then NGX_HTTP_MOVE
            else if ngx_str3Ocmp m 76 79 67 75 then NGX_HTTP_LOCK
            else old)
         else if m = [72, 69, 65, 68] then NGX_HTTP_HEAD
         else old)
      else if length m = 5 then
        (if m = [77, 75, 67, 79, 76] then NGX_HTTP_MKCOL
         else if m = [80, 65, 84, 67, 72] then NGX_HTTP_PATCH
         else if m = [84, 82, 65, 67, 69] then NGX_HTTP_TRACE
         else old)
      else if length m = 6 then
        (if m = [68, 69, 76, 69, 84, 69] then NGX_HTTP_DELETE
         else if m = [85, 78, 76, 79, 67, 75] then NGX_HTTP_UNLOCK
         else old)
      else if length m = 7 then
        (if m = [79, 80, 84, 73, 79, 78, 83] then NGX_HTTP_OPTIONS
         else if m = [67, 79, 78, 78, 69, 67, 84] then NGX_HTTP_CONNECT
         else old)
      else if length m = 8 then
        (if m = [80, 82, 79, 80, 70, 73, 78, 68] then NGX_HTTP_PROPFIND else old)
      else if length m = 9 then
        (if m = [80, 82, 79, 80, 80, 65, 84, 67, 72] then NGX_HTTP_PROPPATCH else old)
      else old)"

definition CONNECT_name :: "byte list" where
  "CONNECT_name = [67, 79, 78, 78, 69, 67, 84]"

definition rl_method :: "bool \<Rightarrow> byte list \<Rightarrow> nat \<Rightarrow> byte \<Rightarrow> http_request \<Rightarrow> rl_res" where
  "rl_method pc buf p ch r =
     (if ch = SP then
        (let m = slice (the (r_request_start r)) p buf;
             r1 = r\<lparr>r_method_end := Some (p - 1), r_method := rl_method_code m (r_method r)\<rparr>;
             st = (if m = CONNECT_name then sw_spaces_before_host else sw_spaces_before_uri);
             st' = (if pc \<and> r_method r1 = NGX_HTTP_CONNECT then sw_spaces_before_connect_host
                    else st)
         in Next (st', r1))
      else if \<not> method_ch ch then Stop (RL_return NGX_HTTP_PARSE_INVALID_METHOD) (sw_method, r)
      else Next (sw_method, r))"

text \<open>\<open>CONNECT host:port\<close> under \<open>NGX_HTTP_PROXY_CONNECT\<close>; the first four states fall
  through into each other.\<close>

definition rl_connect_host_end :: "nat \<Rightarrow> byte \<Rightarrow> rl_state \<Rightarrow> http_request \<Rightarrow> rl_res" where
  "rl_connect_host_end p ch st r0 =
     (let r = r0\<lparr>r_connect_host_end := Some p\<rparr> in
      if ch = b_colon then Next (sw_connect_port, r) else rl_invalid r st)"

definition host_ch :: "byte \<Rightarrow> bool" where
  "host_ch ch \<longleftrightarrow> is_alpha ch \<or> is_digit ch \<or> ch = b_dot \<or> ch = b_minus"

definition rl_connect_host :: "nat \<Rightarrow> byte \<Rightarrow> http_request \<Rightarrow> rl_res" where
  "rl_connect_host p ch r =
     (if host_ch ch then Next (sw_connect_host, r)
      else rl_connect_host_end p ch sw_connect_host r)"

definition rl_connect_host_start :: "nat \<Rightarrow> byte \<Rightarrow> http_request \<Rightarrow> rl_res" where
  "rl_connect_host_start p ch r0 =
     (let r = r0\<lparr>r_connect_host_start := Some p\<rparr> in
      if ch = b_lbrack then Next (sw_connect_host_ip_literal, r) else rl_connect_host p ch r)"

definition rl_spaces_before_connect_host :: "nat \<Rightarrow> byte \<Rightarrow> http_request \<Rightarrow> rl_res" where
  "rl_spaces_before_connect_host p ch r =
     (if ch = SP then Next (sw_spaces_before_connect_host, r) else rl_connect_host_start p ch r)"

text \<open>The characters of an IP literal that are neither letters nor digits: unreserved, sub-delims
  and the colon.\<close>

definition ip_literal_ch :: "byte \<Rightarrow> bool" where
  "ip_literal_ch ch \<longleftrightarrow> is_digit ch \<or> is_alpha ch \<or> ch = b_colon
     \<or> ch \<in> {b_minus, b_dot, b_under, b_tilde}
     \<or> ch \<in> {b_excl, b_dollar, b_amp, b_apos, b_lpar, b_rpar, b_star, b_plus, b_comma, b_semi, b_eq}"

definition rl_connect_host_ip_literal :: "byte \<Rightarrow> http_request \<Rightarrow> rl_res" where
  "rl_connect_host_ip_literal ch r =
     (if ip_literal_ch ch then Next (sw_connect_host_ip_literal, r)
      else if ch = b_rbrack then Next (sw_connect_host_end, r)
      else rl_invalid r sw_connect_host_ip_literal)"

definition rl_connect_port :: "nat \<Rightarrow> byte \<Rightarrow> http_request \<Rightarrow> rl_res" where
  "rl_connect_port p ch r =
     (if is_digit ch then Next (sw_connect_port, r)
      else if ch = SP then Next (sw_http_09, r\<lparr>r_connect_port_end := Some p\<rparr>)
      else rl_invalid r sw_connect_port)"

section \<open>Absolute URIs: schema, host and port\<close>

definition rl_spaces_before_uri :: "nat \<Rightarrow> byte \<Rightarrow> http_request \<Rightarrow> rl_res" where
  "rl_spaces_before_uri p ch r =
     (if ch = b_slash then Next (sw_after_slash_in_uri, r\<lparr>r_uri_start := Some p\<rparr>)
      else if is_alpha ch then Next (sw_schema, r\<lparr>r_schema_start := Some p\<rparr>)
      else if ch = SP then Next (sw_spaces_before_uri, r)
      else rl_invalid r sw_spaces_before_uri)"

definition rl_schema :: "nat \<Rightarrow> byte \<Rightarrow> http_request \<Rightarrow> rl_res" where
  "rl_schema p ch r =
     (if is_alpha ch then Next (sw_schema, r)
      else if is_digit ch \<or> ch = b_plus \<or> ch = b_minus \<or> ch = b_dot then Next (sw_schema, r)
      else if ch = b_colon then Next (sw_schema_slash, r\<lparr>r_schema_end := Some p\<rparr>)
      else rl_invalid r sw_schema)"

definition rl_schema_slash :: "byte \<Rightarrow> http_request \<Rightarrow> rl_res" where
  "rl_schema_slash ch r =
     (if ch = b_slash then Next (sw_schema_slash_slash, r) else rl_invalid r sw_schema_slash)"

definition rl_schema_slash_slash :: "byte \<Rightarrow> http_request \<Rightarrow> rl_res" where
  "rl_schema_slash_slash ch r =
     (if ch = b_slash then Next (sw_host_start, r) else rl_invalid r sw_schema_slash_slash)"

text \<open>The \<open>switch (ch)\<close> that ends the host and the port alike.\<close>

definition rl_host_term :: "nat \<Rightarrow> byte \<Rightarrow> rl_state \<Rightarrow> http_request \<Rightarrow> rl_res" where
  "rl_host_term p ch st r =
     (if ch = b_slash then Next (sw_after_slash_in_uri, r\<lparr>r_uri_start := Some p\<rparr>)
      else if ch = b_qm then
        Next (sw_uri, r\<lparr>r_uri_start := Some p, r_args_start := Some (p + 1),
                        r_empty_path_in_uri := True\<rparr>)
      else if ch = SP then
        Next (sw_http_09, r\<lparr>r_uri_start := map_option (\<lambda>e. e + 1) (r_schema_end r),
                            r_uri_end := map_option (\<lambda>e. e + 2) (r_schema_end r)\<rparr>)
      else rl_invalid r st)"

definition rl_host_end :: "nat \<Rightarrow> byte \<Rightarrow> rl_state \<Rightarrow> http_request \<Rightarrow> rl_res" where
  "rl_host_end p ch st r0 =
     (if ch = b_colon then Next (sw_port_start, r0)
      else (let r = r0\<lparr>r_host_end := Some p\<rparr> in
            if r_method r = NGX_HTTP_CONNECT then rl_invalid r st else rl_host_term p ch st r))"

definition rl_host :: "nat \<Rightarrow> byte \<Rightarrow> http_request \<Rightarrow> rl_res" where
  "rl_host p ch r =
     (if host_ch ch then Next (sw_host, r) else rl_host_end p ch sw_host r)"

definition rl_host_start :: "nat \<Rightarrow> byte \<Rightarrow> http_request \<Rightarrow> rl_res" where
  "rl_host_start p ch r0 =
     (let r = r0\<lparr>r_host_start := Some p\<rparr> in
      if ch = b_lbrack then Next (sw_host_ip_literal, r) else rl_host p ch r)"

definition rl_spaces_before_host :: "nat \<Rightarrow> byte \<Rightarrow> http_request \<Rightarrow> rl_res" where
  "rl_spaces_before_host p ch r =
     (if ch = SP then Next (sw_spaces_before_host, r) else rl_host_start p ch r)"

definition rl_host_ip_literal :: "byte \<Rightarrow> http_request \<Rightarrow> rl_res" where
  "rl_host_ip_literal ch r =
     (if ip_literal_ch ch then Next (sw_host_ip_literal, r)
      else if ch = b_rbrack then Next (sw_host_end, r)
      else rl_invalid r sw_host_ip_literal)"

definition rl_port :: "nat \<Rightarrow> byte \<Rightarrow> http_request \<Rightarrow> rl_res" where
  "rl_port p ch r0 =
     (if is_digit ch then Next (sw_port, r0)
      else (let r = r0\<lparr>r_host_end := Some p\<rparr> in
            if r_method r = NGX_HTTP_CONNECT then
              (if ch = SP then Next (sw_http_09, r) else rl_invalid r sw_port)
            else rl_host_term p ch sw_port r))"

definition rl_port_start :: "nat \<Rightarrow> byte \<Rightarrow> http_request \<Rightarrow> rl_res" where
  "rl_port_start p ch r =
     (if is_digit ch then Next (sw_port, r)
      else if r_method r = NGX_HTTP_CONNECT then rl_invalid r sw_port
      else rl_port p ch r)"

section \<open>The URI\<close>

text \<open>\<open>ch < 0x20 || ch == 0x7f\<close>\<close>

definition control_ch :: "byte \<Rightarrow> bool" where
  "control_ch ch \<longleftrightarrow> ch < 0x20 \<or> ch = DEL"

definition rl_after_slash_in_uri :: "nat \<Rightarrow> byte \<Rightarrow> http_request \<Rightarrow> rl_res" where
  "rl_after_slash_in_uri p ch r =
     (if usual_ch ch then Next (sw_check_uri, r)
      else if ch = SP then Next (sw_http_09, r\<lparr>r_uri_end := Some p\<rparr>)
      else if ch = CR then Next (sw_almost_done, r\<lparr>r_uri_end := Some p, r_http_minor := 9\<rparr>)
      else if ch = LF then
        Stop RL_done (sw_after_slash_in_uri, r\<lparr>r_uri_end := Some p, r_http_minor := 9\<rparr>)
      else if ch = b_dot then Next (sw_uri, r\<lparr>r_complex_uri := True\<rparr>)
      else if ch = b_pct then Next (sw_uri, r\<lparr>r_quoted_uri := True\<rparr>)
      else if ch = b_slash then Next (sw_uri, r\<lparr>r_complex_uri := True\<rparr>)
      else if ch = b_qm then Next (sw_uri, r\<lparr>r_args_start := Some (p + 1)\<rparr>)
      else if ch = b_hash then Next (sw_uri, r\<lparr>r_complex_uri := True\<rparr>)
      else if ch = b_plus then Next (sw_after_slash_in_uri, r\<lparr>r_plus_in_uri := True\<rparr>)
      else if control_ch ch then rl_invalid r sw_after_slash_in_uri
      else Next (sw_check_uri, r))"

definition rl_check_uri :: "nat \<Rightarrow> byte \<Rightarrow> http_request \<Rightarrow> rl_res" where
  "rl_check_uri p ch r =
     (if usual_ch ch then Next (sw_check_uri, r)
      else if ch = b_slash then Next (sw_after_slash_in_uri, r\<lparr>r_uri_ext := None\<rparr>)
      else if ch = b_dot then Next (sw_check_uri, r\<lparr>r_uri_ext := Some (p + 1)\<rparr>)
      else if ch = SP then Next (sw_http_09, r\<lparr>r_uri_end := Some p\<rparr>)
      else if ch = CR then Next (sw_almost_done, r\<lparr>r_uri_end := Some p, r_http_minor := 9\<rparr>)
      else if ch = LF then
        Stop RL_done (sw_check_uri, r\<lparr>r_uri_end := Some p, r_http_minor := 9\<rparr>)
      else if ch = b_pct then Next (sw_uri, r\<lparr>r_quoted_uri := True\<rparr>)
      else if ch = b_qm then Next (sw_uri, r\<lparr>r_args_start := Some (p + 1)\<rparr>)
      else if ch = b_hash then Next (sw_uri, r\<lparr>r_complex_uri := True\<rparr>)
      else if ch = b_plus then Next (sw_check_uri, r\<lparr>r_plus_in_uri := True\<rparr>)
      else if control_ch ch then rl_invalid r sw_check_uri
      else Next (sw_check_uri, r))"

definition rl_uri :: "nat \<Rightarrow> byte \<Rightarrow> http_request \<Rightarrow> rl_res" where
  "rl_uri p ch r =
     (if usual_ch ch then Next (sw_uri, r)
      else if ch = SP then Next (sw_http_09, r\<lparr>r_uri_end := Some p\<rparr>)
      else if ch = CR then Next (sw_almost_done, r\<lparr>r_uri_end := Some p, r_http_minor := 9\<rparr>)
      else if ch = LF then Stop RL_done (sw_uri, r\<lparr>r_uri_end := Some p, r_http_minor := 9\<rparr>)
      else if ch = b_hash then Next (sw_uri, r\<lparr>r_complex_uri := True\<rparr>)
      else if control_ch ch then rl_invalid r sw_uri
      else Next (sw_uri, r))"

section \<open>The protocol version and the end of the line\<close>

definition rl_http_09 :: "nat \<Rightarrow> byte \<Rightarrow> http_request \<Rightarrow> rl_res" where
  "rl_http_09 p ch r =
     (if ch = SP then Next (sw_http_09, r)
      else if ch = CR then Next (sw_almost_done, r\<lparr>r_http_minor := 9\<rparr>)
      else if ch = LF then Stop RL_done (sw_http_09, r\<lparr>r_http_minor := 9\<rparr>)
      else if ch = b_H then Next (sw_http_H, r\<lparr>r_http_protocol := Some p\<rparr>)
      else rl_invalid r sw_http_09)"

definition rl_http_letter :: "byte \<Rightarrow> rl_state \<Rightarrow> rl_state \<Rightarrow> byte \<Rightarrow> http_request \<Rightarrow> rl_res" where
  "rl_http_letter expected st st' ch r =
     (if ch = expected then Next (st', r) else rl_invalid r st)"

definition rl_http_HTTP :: "nat \<Rightarrow> byte \<Rightarrow> http_request \<Rightarrow> rl_res" where
  "rl_http_HTTP p ch r =
     (if ch = b_slash then
        Next (sw_first_major_digit,
              if r_method r = NGX_HTTP_CONNECT
              then r\<lparr>r_uri_start := Some p, r_uri_end := Some (p + 1)\<rparr> else r)
      else rl_invalid r sw_http_HTTP)"

definition rl_first_major_digit :: "byte \<Rightarrow> http_request \<Rightarrow> rl_res" where
  "rl_first_major_digit ch r0 =
     (if ch < b_1 \<or> ch > b_9 then rl_invalid r0 sw_first_major_digit
      else (let r = r0\<lparr>r_http_major := digit_val ch\<rparr> in
            if r_http_major r > 1
            then Stop (RL_return NGX_HTTP_PARSE_INVALID_VERSION) (sw_first_major_digit, r)
            else Next (sw_major_digit, r)))"

definition rl_major_digit :: "byte \<Rightarrow> http_request \<Rightarrow> rl_res" where
  "rl_major_digit ch r0 =
     (if ch = b_dot then Next (sw_first_minor_digit, r0)
      else if \<not> is_digit ch then rl_invalid r0 sw_major_digit
      else (let r = r0\<lparr>r_http_major := r_http_major r0 * 10 + digit_val ch\<rparr> in
            if r_http_major r > 1
            then Stop (RL_return NGX_HTTP_PARSE_INVALID_VERSION) (sw_major_digit, r)
            else Next (sw_major_digit, r)))"

definition rl_first_minor_digit :: "byte \<Rightarrow> http_request \<Rightarrow> rl_res" where
  "rl_first_minor_digit ch r =
     (if \<not> is_digit ch then rl_invalid r sw_first_minor_digit
      else Next (sw_minor_digit, r\<lparr>r_http_minor := digit_val ch\<rparr>))"

definition rl_minor_digit :: "byte \<Rightarrow> http_request \<Rightarrow> rl_res" where
  "rl_minor_digit ch r =
     (if ch = CR then Next (sw_almost_done, r)
      else if ch = LF then Stop RL_done (sw_minor_digit, r)
      else if ch = SP then Next (sw_spaces_after_digit, r)
      else if \<not> is_digit ch then rl_invalid r sw_minor_digit
      else if r_http_minor r > 99 then rl_invalid r sw_minor_digit
      else Next (sw_minor_digit, r\<lparr>r_http_minor := r_http_minor r * 10 + digit_val ch\<rparr>))"

definition rl_spaces_after_digit :: "byte \<Rightarrow> http_request \<Rightarrow> rl_res" where
  "rl_spaces_after_digit ch r =
     (if ch = SP then Next (sw_spaces_after_digit, r)
      else if ch = CR then Next (sw_almost_done, r)
      else if ch = LF then Stop RL_done (sw_spaces_after_digit, r)
      else rl_invalid r sw_spaces_after_digit)"

definition rl_almost_done :: "nat \<Rightarrow> byte \<Rightarrow> http_request \<Rightarrow> rl_res" where
  "rl_almost_done p ch r0 =
     (let r = r0\<lparr>r_request_end := Some (p - 1)\<rparr> in
      if ch = LF then Stop RL_done (sw_almost_done, r) else rl_invalid r sw_almost_done)"

section \<open>The parser\<close>

text \<open>The \<open>switch (state)\<close> of one iteration.\<close>

fun rl_step :: "bool \<Rightarrow> byte list \<Rightarrow> nat \<Rightarrow> byte \<Rightarrow> rl_conf \<Rightarrow> rl_res" where
  "rl_step pc buf p ch (sw_start, r) = rl_start p ch r"
| "rl_step pc buf p ch (sw_method, r) = rl_method pc buf p ch r"
| "rl_step pc buf p ch (sw_spaces_before_connect_host, r) = rl_spaces_before_connect_host p ch r"
| "rl_step pc buf p ch (sw_connect_host_start, r) = rl_connect_host_start p ch r"
| "rl_step pc buf p ch (sw_connect_host, r) = rl_connect_host p ch r"
| "rl_step pc buf p ch (sw_connect_host_end, r) = rl_connect_host_end p ch sw_connect_host_end r"
| "rl_step pc buf p ch (sw_connect_host_ip_literal, r) = rl_connect_host_ip_literal ch r"
| "rl_step pc buf p ch (sw_connect_port, r) = rl_connect_port p ch r"
| "rl_step pc buf p ch (sw_spaces_before_uri, r) = rl_spaces_before_uri p ch r"
| "rl_step pc buf p ch (sw_schema, r) = rl_schema p ch r"
| "rl_step pc buf p ch (sw_schema_slash, r) = rl_schema_slash ch r"
| "rl_step pc buf p ch (sw_schema_slash_slash, r) = rl_schema_slash_slash ch r"
| "rl_step pc buf p ch (sw_spaces_before_host, r) = rl_spaces_before_host p ch r"
| "rl_step pc buf p ch (sw_host_start, r) = rl_host_start p ch r"
| "rl_step pc buf p ch (sw_host, r) = rl_host p ch r"
| "rl_step pc buf p ch (sw_host_end, r) = rl_host_end p ch sw_host_end r"
| "rl_step pc buf p ch (sw_host_ip_literal, r) = rl_host_ip_literal ch r"
| "rl_step pc buf p ch (sw_port_start, r) = rl_port_start p ch r"
| "rl_step pc buf p ch (sw_port, r) = rl_port p ch r"
| "rl_step pc buf p ch (sw_after_slash_in_uri, r) = rl_after_slash_in_uri p ch r"
| "rl_step pc buf p ch (sw_check_uri, r) = rl_check_uri p ch r"
| "rl_step pc buf p ch (sw_uri, r) = rl_uri p ch r"
| "rl_step pc buf p ch (sw_http_09, r) = rl_http_09 p ch r"
| "rl_step pc buf p ch (sw_http_H, r) = rl_http_letter b_T sw_http_H sw_http_HT ch r"
| "rl_step pc buf p ch (sw_http_HT, r) = rl_http_letter b_T sw_http_HT sw_http_HTT ch r"
| "rl_step pc buf p ch (sw_http_HTT, r) = rl_http_letter b_P sw_http_HTT sw_http_HTTP ch r"
| "rl_step pc buf p ch (sw_http_HTTP, r) = rl_http_HTTP p ch r"
| "rl_step pc buf p ch (sw_first_major_digit, r) = rl_first_major_digit ch r"
| "rl_step pc buf p ch (sw_major_digit, r) = rl_major_digit ch r"
| "rl_step pc buf p ch (sw_first_minor_digit, r) = rl_first_minor_digit ch r"
| "rl_step pc buf p ch (sw_minor_digit, r) = rl_minor_digit ch r"
| "rl_step pc buf p ch (sw_spaces_after_digit, r) = rl_spaces_after_digit ch r"
| "rl_step pc buf p ch (sw_almost_done, r) = rl_almost_done p ch r"

text \<open>The code after \<open>done:\<close>.\<close>

definition rl_done :: "nat \<Rightarrow> http_request \<Rightarrow> ngx_buf \<Rightarrow> int \<times> http_request \<times> ngx_buf" where
  "rl_done p r b =
     (let b' = b\<lparr>b_pos := p + 1\<rparr>;
          r1 = (if r_request_end r = None then r\<lparr>r_request_end := Some p\<rparr> else r);
          r2 = r1\<lparr>r_http_version := r_http_major r1 * 1000 + r_http_minor r1, r_state := sw_start\<rparr>
      in if r_http_version r2 = 9 \<and> r_method r2 \<noteq> NGX_HTTP_GET
         then (NGX_HTTP_PARSE_INVALID_09_METHOD, r2, b')
         else (NGX_OK, r2, b'))"

definition ngx_http_parse_request_line ::
    "bool \<Rightarrow> http_request \<Rightarrow> ngx_buf \<Rightarrow> int \<times> http_request \<times> ngx_buf" where
  "ngx_http_parse_request_line pc r b =
     (case run_bytes (rl_step pc) (b_data b) (b_pos b) (r_state r, r) of
        (None, p, (st, r')) \<Rightarrow> (NGX_AGAIN, r'\<lparr>r_state := st\<rparr>, b\<lparr>b_pos := p\<rparr>)
      | (Some (RL_return rc), p, (st, r')) \<Rightarrow> (rc, r', b)
      | (Some RL_done, p, (st, r')) \<Rightarrow> rl_done p r' b)"

lemmas rl_case_defs = rl_start_def rl_method_def rl_invalid_def
  rl_spaces_before_connect_host_def rl_connect_host_start_def rl_connect_host_def
  rl_connect_host_end_def rl_connect_host_ip_literal_def rl_connect_port_def
  rl_spaces_before_uri_def rl_schema_def rl_schema_slash_def rl_schema_slash_slash_def
  rl_spaces_before_host_def rl_host_start_def rl_host_def rl_host_end_def rl_host_term_def
  rl_host_ip_literal_def rl_port_start_def rl_port_def rl_after_slash_in_uri_def
  rl_check_uri_def rl_uri_def rl_http_09_def rl_http_letter_def rl_http_HTTP_def
  rl_first_major_digit_def rl_major_digit_def rl_first_minor_digit_def rl_minor_digit_def
  rl_spaces_after_digit_def rl_almost_done_def

section \<open>Resuming after NGX\_AGAIN\<close>

lemma rl_step_local: "p < length xs \<Longrightarrow> rl_step pc (xs @ ys) p c s = rl_step pc xs p c s"
  by (cases "(pc, xs, p, c, s)" rule: rl_step.cases)
    (simp_all add: rl_method_def slice_append_left)

interpretation rlm: byte_machine "rl_step pc" for pc
  by unfold_locales (rule rl_step_local)

text \<open>The codes a step can return.\<close>

lemma rl_step_rc: "rl_step pc buf p c s = Stop (RL_return rc) s' \<Longrightarrow> rc \<in> {10, 11, 12}"
  by (cases "(pc, buf, p, c, s)" rule: rl_step.cases)
    (auto simp: rl_case_defs Let_def split: if_splits)

text \<open>No step looks at \<open>r->state\<close>: the loop keeps the state in its own local.\<close>

lemma rl_step_state_irrelevant:
  "rl_step pc buf p c (st, r\<lparr>r_state := x\<rparr>) =
     (case rl_step pc buf p c (st, r) of
        Next (st', r') \<Rightarrow> Next (st', r'\<lparr>r_state := x\<rparr>)
      | Stop e (st', r') \<Rightarrow> Stop e (st', r'\<lparr>r_state := x\<rparr>))"
  by (cases st) (auto simp: rl_case_defs Let_def split: if_splits)

lemma run_state_irrelevant:
  "run_bytes (rl_step pc) buf p (st, r\<lparr>r_state := x\<rparr>) =
     (case run_bytes (rl_step pc) buf p (st, r) of
        (e, q, (st', r')) \<Rightarrow> (e, q, (st', r'\<lparr>r_state := x\<rparr>)))"
proof -
  let ?f = "\<lambda>(st, r). (st, r\<lparr>r_state := x\<rparr>)"
  have "rl_step pc buf p (buf ! p) (?f c) = (case rl_step pc buf p (buf ! p) c of
      Next c' \<Rightarrow> Next (?f c') | Stop e c' \<Rightarrow> Stop e (?f c'))" for p c
    by (cases c) (auto simp: rl_step_state_irrelevant split: step_res.split)
  from run_bytes_map [of "rl_step pc" buf ?f, OF this, of p "(st, r)"] show ?thesis
    by (simp add: case_prod_unfold)
qed


lemma parse_request_line_AGAIN:
  assumes "ngx_http_parse_request_line pc r b = (NGX_AGAIN, r1, b1)"
  obtains st r' q where
    "run_bytes (rl_step pc) (b_data b) (b_pos b) (r_state r, r) = (None, q, (st, r'))"
    "r1 = r'\<lparr>r_state := st\<rparr>" "b1 = b\<lparr>b_pos := q\<rparr>"
proof -
  obtain e q st r' where
    run: "run_bytes (rl_step pc) (b_data b) (b_pos b) (r_state r, r) = (e, q, (st, r'))"
    by (metis prod_cases4)
  show thesis
  proof (cases e)
    case None
    with run assms that show thesis by (simp add: ngx_http_parse_request_line_def)
  next
    case (Some x)
    with run have "\<exists>t. rl_step pc (b_data b) q (b_data b ! q) t = Stop x (st, r')"
      using run_bytes_Some [of "rl_step pc"] by blast
    then have "x \<noteq> RL_return NGX_AGAIN" using rl_step_rc [of pc] by fastforce
    with Some run assms show thesis
      by (auto simp: ngx_http_parse_request_line_def rl_done_def Let_def
          split: rl_exit.splits if_splits)
  qed
qed


section \<open>What a parsed request line looks like\<close>

text \<open>A byte that may stand in a URI: no control character, no space, no DEL.\<close>

definition clean_ch :: "byte \<Rightarrow> bool" where
  "clean_ch ch \<longleftrightarrow> \<not> control_ch ch \<and> ch \<noteq> SP"

text \<open>No slash is followed by a slash or a dot.\<close>

fun no_slash_pair :: "byte list \<Rightarrow> bool" where
  "no_slash_pair (a # b # s) \<longleftrightarrow> \<not> (a = b_slash \<and> (b = b_slash \<or> b = b_dot)) \<and> no_slash_pair (b # s)"
| "no_slash_pair s \<longleftrightarrow> True"

lemma no_slash_pair_snoc:
  "no_slash_pair (s @ [c]) \<longleftrightarrow>
     no_slash_pair s \<and> (s = [] \<or> \<not> (last s = b_slash \<and> (c = b_slash \<or> c = b_dot)))"
  by (induction s rule: no_slash_pair.induct) auto

text \<open>A path that needs no normalisation.\<close>

definition simple_path :: "byte list \<Rightarrow> bool" where
  "simple_path s \<longleftrightarrow> no_slash_pair s \<and> list_all (\<lambda>c. c \<noteq> b_pct \<and> c \<noteq> b_hash \<and> c \<noteq> b_qm) s"

lemma simple_path_snoc:
  "simple_path (s @ [c]) \<longleftrightarrow> simple_path s \<and> c \<noteq> b_pct \<and> c \<noteq> b_hash \<and> c \<noteq> b_qm
     \<and> (s = [] \<or> \<not> (last s = b_slash \<and> (c = b_slash \<or> c = b_dot)))"
  by (auto simp: simple_path_def no_slash_pair_snoc)

section \<open>The loop invariant\<close>

definition no_uri_yet :: "http_request \<Rightarrow> bool" where
  "no_uri_yet r \<longleftrightarrow> r_uri_start r = None \<and> r_uri_end r = None \<and> r_args_start r = None
     \<and> r_uri_ext r = None \<and> \<not> r_complex_uri r \<and> \<not> r_quoted_uri r \<and> \<not> r_empty_path_in_uri r"

definition no_version_yet :: "http_request \<Rightarrow> bool" where
  "no_version_yet r \<longleftrightarrow> r_http_major r = 0 \<and> r_http_minor r = 0 \<and> r_request_end r = None"

text \<open>The method name has been read and classified.\<close>

definition method_read :: "byte list \<Rightarrow> nat \<Rightarrow> http_request \<Rightarrow> bool" where
  "method_read buf p r \<longleftrightarrow> (\<exists>m e. r_request_start r = Some m \<and> r_method_end r = Some e \<and> m \<le> e
     \<and> Suc e < p \<and> list_all method_ch (slice m (Suc e) buf)
     \<and> r_method r = rl_method_code (slice m (Suc e) buf) NGX_HTTP_UNKNOWN)"

text \<open>Facts about the URI that has been read from offset \<open>u\<close> up to offset \<open>e\<close>.\<close>

definition uri_facts :: "byte list \<Rightarrow> nat \<Rightarrow> nat \<Rightarrow> http_request \<Rightarrow> bool" where
  "uri_facts buf u e r \<longleftrightarrow> u < e \<and> the (r_method_end r) < u
     \<and> buf ! u = (if r_empty_path_in_uri r then b_qm else b_slash)
     \<and> list_all clean_ch (slice u e buf)
     \<and> (case r_args_start r of
          None \<Rightarrow> (\<not> r_complex_uri r \<and> \<not> r_quoted_uri r \<longrightarrow> simple_path (slice u e buf))
                  \<and> \<not> r_empty_path_in_uri r
        | Some a \<Rightarrow> u < a \<and> a \<le> e \<and> buf ! (a - 1) = b_qm \<and> \<not> r_quoted_uri r
                  \<and> simple_path (slice u (a - 1) buf))
     \<and> (case r_uri_ext r of
          None \<Rightarrow> True
        | Some x \<Rightarrow> u < x \<and> x \<le> (case r_args_start r of None \<Rightarrow> e | Some a \<Rightarrow> a - 1))"

definition in_uri :: "byte list \<Rightarrow> nat \<Rightarrow> http_request \<Rightarrow> bool" where
  "in_uri buf p r \<longleftrightarrow> (\<exists>u. r_uri_start r = Some u \<and> uri_facts buf u p r)"

definition uri_read :: "byte list \<Rightarrow> nat \<Rightarrow> http_request \<Rightarrow> bool" where
  "uri_read buf p r \<longleftrightarrow>
     (\<exists>u e. r_uri_start r = Some u \<and> r_uri_end r = Some e \<and> e \<le> p \<and> uri_facts buf u e r)"

definition path_only :: "http_request \<Rightarrow> bool" where
  "path_only r \<longleftrightarrow> \<not> r_complex_uri r \<and> \<not> r_quoted_uri r \<and> \<not> r_empty_path_in_uri r
     \<and> r_args_start r = None"

definition schema_read :: "byte list \<Rightarrow> nat \<Rightarrow> http_request \<Rightarrow> bool" where
  "schema_read buf p r \<longleftrightarrow> (\<exists>e. r_schema_end r = Some e \<and> e + 3 \<le> p \<and> buf ! (e + 1) = b_slash
     \<and> the (r_method_end r) < e)"

fun rl_inv :: "byte list \<Rightarrow> nat \<Rightarrow> rl_conf \<Rightarrow> bool" where
  "rl_inv buf p (st, r) =
     (if st = sw_start then no_uri_yet r \<and> no_version_yet r \<and> r_method r = NGX_HTTP_UNKNOWN
      else if st = sw_method then no_uri_yet r \<and> no_version_yet r \<and> r_method r = NGX_HTTP_UNKNOWN
        \<and> (\<exists>m. r_request_start r = Some m \<and> m < p \<and> list_all method_ch (slice m p buf))
      else method_read buf p r \<and>
        (if st \<in> {sw_spaces_before_connect_host, sw_connect_host_start, sw_connect_host,
                  sw_connect_host_end, sw_connect_host_ip_literal, sw_connect_port}
         then no_uri_yet r \<and> no_version_yet r \<and> r_method r = NGX_HTTP_CONNECT
         else if st = sw_spaces_before_uri
         then no_uri_yet r \<and> no_version_yet r \<and> r_method r \<noteq> NGX_HTTP_CONNECT
         else if st = sw_schema
         then no_uri_yet r \<and> no_version_yet r \<and> r_method r \<noteq> NGX_HTTP_CONNECT
         else if st = sw_schema_slash
         then no_uri_yet r \<and> no_version_yet r \<and> r_method r \<noteq> NGX_HTTP_CONNECT
           \<and> (\<exists>e. r_schema_end r = Some e \<and> p = e + 1 \<and> the (r_method_end r) < e)
         else if st = sw_schema_slash_slash
         then no_uri_yet r \<and> no_version_yet r \<and> r_method r \<noteq> NGX_HTTP_CONNECT
           \<and> (\<exists>e. r_schema_end r = Some e \<and> p = e + 2 \<and> the (r_method_end r) < e
                 \<and> buf ! (e + 1) = b_slash)
         else if st \<in> {sw_spaces_before_host, sw_host_start, sw_host, sw_host_end,
                       sw_host_ip_literal, sw_port_start, sw_port}
         then no_uri_yet r \<and> no_version_yet r
           \<and> (r_method r = NGX_HTTP_CONNECT \<or> schema_read buf p r)
         else if st = sw_after_slash_in_uri
         then no_version_yet r \<and> r_method r \<noteq> NGX_HTTP_CONNECT \<and> in_uri buf p r \<and> path_only r
         else if st = sw_check_uri
         then no_version_yet r \<and> r_method r \<noteq> NGX_HTTP_CONNECT \<and> in_uri buf p r \<and> path_only r
           \<and> buf ! (p - 1) \<noteq> b_slash
         else if st = sw_uri
         then no_version_yet r \<and> r_method r \<noteq> NGX_HTTP_CONNECT \<and> in_uri buf p r
           \<and> (r_complex_uri r \<or> r_quoted_uri r \<or> r_args_start r \<noteq> None)
         else if st \<in> {sw_http_09, sw_http_H, sw_http_HT, sw_http_HTT, sw_http_HTTP}
         then no_version_yet r
           \<and> (if r_method r = NGX_HTTP_CONNECT then no_uri_yet r else uri_read buf p r)
         else if st = sw_first_major_digit then no_version_yet r \<and> uri_read buf p r
         else if st = sw_major_digit \<or> st = sw_first_minor_digit
         then r_http_major r = 1 \<and> r_http_minor r = 0 \<and> r_request_end r = None \<and> uri_read buf p r
         else if st = sw_minor_digit \<or> st = sw_spaces_after_digit
         then r_http_major r = 1 \<and> r_http_minor r \<le> 999 \<and> r_request_end r = None \<and> uri_read buf p r
         else r_request_end r = None \<and>
           (if r_http_major r = 0
            then r_http_minor r = 9 \<and> (r_method r = NGX_HTTP_CONNECT \<or> uri_read buf (p - 1) r)
            else r_http_major r = 1 \<and> r_http_minor r \<le> 999 \<and> uri_read buf (p - 1) r)))"

declare rl_inv.simps [simp del]

subsection \<open>Reading one more byte\<close>

lemma method_read_Suc: "method_read buf p r \<Longrightarrow> method_read buf (Suc p) r"
  by (auto simp: method_read_def)

lemma usual_ch_clean: "usual_ch ch \<Longrightarrow> clean_ch ch"
  using usual_ch_not_control [of ch] usual_ch_neq [of ch]
  by (auto simp: clean_ch_def control_ch_def)

lemma clean_ch_numeral: "clean_ch b_dot" "clean_ch b_pct" "clean_ch b_slash" "clean_ch b_qm"
  "clean_ch b_hash" "clean_ch b_plus"
  by (simp_all add: clean_ch_def control_ch_def)

lemma rl_method_code_CONNECT: "rl_method_code m (Suc 0) = NGX_HTTP_CONNECT \<longleftrightarrow> m = CONNECT_name"
  by (simp add: rl_method_code_def CONNECT_name_def)

lemma uri_facts_start_slash:
  "p < length buf \<Longrightarrow> buf ! p = b_slash \<Longrightarrow> the (r_method_end r) < p \<Longrightarrow> r_args_start r = None
     \<Longrightarrow> r_uri_ext r = None \<Longrightarrow> \<not> r_empty_path_in_uri r \<Longrightarrow> uri_facts buf p (Suc p) r"
  by (simp add: uri_facts_def slice_single clean_ch_numeral simple_path_def)

lemma uri_facts_start_qm:
  "p < length buf \<Longrightarrow> buf ! p = b_qm \<Longrightarrow> the (r_method_end r) < p
     \<Longrightarrow> r_args_start r = Some (Suc p) \<Longrightarrow> r_uri_ext r = None \<Longrightarrow> r_empty_path_in_uri r
     \<Longrightarrow> \<not> r_quoted_uri r \<Longrightarrow> uri_facts buf p (Suc p) r"
  by (simp add: uri_facts_def slice_single clean_ch_numeral simple_path_def)

lemma schema_read_uri_facts:
  "schema_read buf p r \<Longrightarrow> p < length buf \<Longrightarrow> no_uri_yet r
    \<Longrightarrow> \<exists>e. r_schema_end r = Some e \<and> e + 2 < p \<and> uri_facts buf (Suc e) (Suc (Suc e)) r"
  by (auto simp: schema_read_def no_uri_yet_def intro!: uri_facts_start_slash)

lemma last_slice: "u < p \<Longrightarrow> p \<le> length buf \<Longrightarrow> last (slice u p buf) = buf ! (p - 1)"
  by (cases p) (auto simp: slice_Suc)

lemma slice_nonempty: "u < p \<Longrightarrow> p \<le> length buf \<Longrightarrow> slice u p buf \<noteq> []"
  by (cases p) (auto simp: slice_Suc)

text \<open>In the part of the URI whose shape no longer matters.\<close>

lemma uri_facts_opaque:
  assumes "uri_facts buf u p r" "p < length buf" "clean_ch (buf ! p)"
    and "r_complex_uri r \<or> r_quoted_uri r \<or> r_args_start r \<noteq> None"
  shows "uri_facts buf u (Suc p) r"
  using assms by (auto simp: uri_facts_def slice_Suc split: option.splits)

text \<open>In the path, one more byte that keeps it simple; \<open>r'\<close> may have gained an extension mark.\<close>

lemma uri_facts_path:
  assumes "uri_facts buf u p r" "p < length buf" "clean_ch (buf ! p)" "path_only r"
    and "buf ! p \<noteq> b_pct" "buf ! p \<noteq> b_hash" "buf ! p \<noteq> b_qm"
    and "\<not> (buf ! (p - 1) = b_slash \<and> (buf ! p = b_slash \<or> buf ! p = b_dot))"
  shows "uri_facts buf u (Suc p) r"
  using assms last_slice [of u p buf]
  by (auto simp: uri_facts_def path_only_def slice_Suc simple_path_snoc split: option.splits)

lemma uri_facts_complex:
  assumes "uri_facts buf u p r" "p < length buf" "clean_ch (buf ! p)" "path_only r"
  shows "uri_facts buf u (Suc p) (r\<lparr>r_complex_uri := True\<rparr>)"
    and "uri_facts buf u (Suc p) (r\<lparr>r_quoted_uri := True\<rparr>)"
  using assms by (auto simp: uri_facts_def path_only_def slice_Suc split: option.splits)

lemma uri_facts_args:
  assumes "uri_facts buf u p r" "p < length buf" "buf ! p = b_qm" "path_only r"
  shows "uri_facts buf u (Suc p) (r\<lparr>r_args_start := Some (Suc p)\<rparr>)"
  using assms clean_ch_numeral by (auto simp: uri_facts_def path_only_def slice_Suc split: option.splits)

lemma uri_facts_ext:
  "uri_facts buf u p r \<Longrightarrow> path_only r \<Longrightarrow> uri_facts buf u p (r\<lparr>r_uri_ext := None\<rparr>)"
  "uri_facts buf u p r \<Longrightarrow> path_only r \<Longrightarrow> uri_facts buf u p (r\<lparr>r_uri_ext := Some p\<rparr>)"
  by (auto simp: uri_facts_def path_only_def split: option.splits)

text \<open>Fields the URI facts do not mention.\<close>

lemma uri_facts_frame [simp]:
  "uri_facts buf u e (r\<lparr>r_uri_end := x\<rparr>) = uri_facts buf u e r"
  "uri_facts buf u e (r\<lparr>r_uri_start := x\<rparr>) = uri_facts buf u e r"
  "uri_facts buf u e (r\<lparr>r_http_minor := n\<rparr>) = uri_facts buf u e r"
  "uri_facts buf u e (r\<lparr>r_http_major := n\<rparr>) = uri_facts buf u e r"
  "uri_facts buf u e (r\<lparr>r_request_end := x\<rparr>) = uri_facts buf u e r"
  "uri_facts buf u e (r\<lparr>r_plus_in_uri := b\<rparr>) = uri_facts buf u e r"
  "uri_facts buf u e (r\<lparr>r_http_protocol := x\<rparr>) = uri_facts buf u e r"
  "uri_facts buf u e (r\<lparr>r_host_end := x\<rparr>) = uri_facts buf u e r"
  "uri_facts buf u e (r\<lparr>r_http_version := n\<rparr>) = uri_facts buf u e r"
  "uri_facts buf u e (r\<lparr>r_state := st\<rparr>) = uri_facts buf u e r"
  "uri_facts buf u e (r\<lparr>r_host_start := x\<rparr>) = uri_facts buf u e r"
  by (simp_all add: uri_facts_def cong: option.case_cong)

lemma path_only_frame [simp]:
  "path_only (r\<lparr>r_plus_in_uri := b\<rparr>) = path_only r"
  "path_only (r\<lparr>r_uri_ext := x\<rparr>) = path_only r"
  by (simp_all add: path_only_def)

lemma no_uri_yet_frame [simp]:
  "no_uri_yet (r\<lparr>r_http_protocol := x\<rparr>) = no_uri_yet r"
  "no_uri_yet (r\<lparr>r_host_start := x\<rparr>) = no_uri_yet r"
  "no_uri_yet (r\<lparr>r_host_end := x\<rparr>) = no_uri_yet r"
  by (simp_all add: no_uri_yet_def)

lemma method_read_frame [simp]:
  "method_read buf p (r\<lparr>r_uri_end := x\<rparr>) = method_read buf p r"
  "method_read buf p (r\<lparr>r_uri_start := x\<rparr>) = method_read buf p r"
  "method_read buf p (r\<lparr>r_http_minor := n\<rparr>) = method_read buf p r"
  "method_read buf p (r\<lparr>r_http_major := n\<rparr>) = method_read buf p r"
  "method_read buf p (r\<lparr>r_request_end := x\<rparr>) = method_read buf p r"
  "method_read buf p (r\<lparr>r_plus_in_uri := b\<rparr>) = method_read buf p r"
  "method_read buf p (r\<lparr>r_http_protocol := x\<rparr>) = method_read buf p r"
  "method_read buf p (r\<lparr>r_host_end := x\<rparr>) = method_read buf p r"
  "method_read buf p (r\<lparr>r_http_version := n\<rparr>) = method_read buf p r"
  "method_read buf p (r\<lparr>r_state := st\<rparr>) = method_read buf p r"
  "method_read buf p (r\<lparr>r_host_start := x\<rparr>) = method_read buf p r"
  "method_read buf p (r\<lparr>r_schema_end := x\<rparr>) = method_read buf p r"
  "method_read buf p (r\<lparr>r_schema_start := x\<rparr>) = method_read buf p r"
  "method_read buf p (r\<lparr>r_connect_host_start := x\<rparr>) = method_read buf p r"
  "method_read buf p (r\<lparr>r_connect_host_end := x\<rparr>) = method_read buf p r"
  "method_read buf p (r\<lparr>r_connect_port_end := x\<rparr>) = method_read buf p r"
  "method_read buf p (r\<lparr>r_args_start := x\<rparr>) = method_read buf p r"
  "method_read buf p (r\<lparr>r_uri_ext := x\<rparr>) = method_read buf p r"
  "method_read buf p (r\<lparr>r_complex_uri := b\<rparr>) = method_read buf p r"
  "method_read buf p (r\<lparr>r_quoted_uri := b\<rparr>) = method_read buf p r"
  "method_read buf p (r\<lparr>r_empty_path_in_uri := b\<rparr>) = method_read buf p r"
  by (simp_all add: method_read_def)

lemmas rl_inv_defs = rl_inv.simps no_uri_yet_def no_version_yet_def path_only_def

lemma method_read_end: "method_read buf p r \<Longrightarrow> the (r_method_end r) + 1 < p"
  by (auto simp: method_read_def)

lemma clean_chI: "\<not> control_ch c \<Longrightarrow> c \<noteq> SP \<Longrightarrow> clean_ch c"
  by (simp add: clean_ch_def)

lemma uri_facts_set_complex:
  "uri_facts buf u p r \<Longrightarrow> uri_facts buf u p (r\<lparr>r_complex_uri := True\<rparr>)"
  by (auto simp: uri_facts_def split: option.splits)

lemma schema_read_Suc: "schema_read buf p r \<Longrightarrow> schema_read buf (Suc p) r"
  by (auto simp: schema_read_def)

lemma schema_read_frame [simp]:
  "schema_read buf p (r\<lparr>r_host_start := x\<rparr>) = schema_read buf p r"
  "schema_read buf p (r\<lparr>r_host_end := x\<rparr>) = schema_read buf p r"
  by (simp_all add: schema_read_def)

subsection \<open>Every step keeps the invariant\<close>


lemma CONNECT_name_method: "list_all method_ch CONNECT_name"
  by (simp add: CONNECT_name_def method_ch_def)

lemma rl_inv_start:
  assumes "rl_inv buf p (st, r)" "p < length buf" "st \<in> {sw_start, sw_method}"
    and "rl_step pc buf p (buf ! p) (st, r) = Next s'"
  shows "rl_inv buf (Suc p) s'"
  using assms
  by (cases p) (auto simp: rl_inv_defs rl_case_defs Let_def slice_single slice_Suc method_read_def
      CONNECT_name_method rl_method_code_CONNECT split: if_splits)

lemma rl_inv_connect:
  assumes "rl_inv buf p (st, r)" "p < length buf"
    and "st \<in> {sw_spaces_before_connect_host, sw_connect_host_start, sw_connect_host,
                  sw_connect_host_end, sw_connect_host_ip_literal, sw_connect_port}"
    and "rl_step pc buf p (buf ! p) (st, r) = Next s'"
  shows "rl_inv buf (Suc p) s'"
  using assms
  by (auto simp: rl_inv_defs rl_case_defs Let_def method_read_Suc split: if_splits)

lemma rl_inv_schema:
  assumes "rl_inv buf p (st, r)" "p < length buf"
    and "st \<in> {sw_spaces_before_uri, sw_schema, sw_schema_slash, sw_schema_slash_slash}"
    and "rl_step pc buf p (buf ! p) (st, r) = Next s'"
  shows "rl_inv buf (Suc p) s'"
  using assms method_read_end [of buf p r]
  by (auto simp: rl_inv_defs rl_case_defs method_read_Suc schema_read_def in_uri_def
      uri_facts_start_slash split: if_splits)

lemma rl_inv_host:
  assumes "rl_inv buf p (st, r)" "p < length buf"
    and "st \<in> {sw_spaces_before_host, sw_host_start, sw_host, sw_host_end,
                       sw_host_ip_literal, sw_port_start, sw_port}"
    and "rl_step pc buf p (buf ! p) (st, r) = Next s'"
  shows "rl_inv buf (Suc p) s'"
proof (cases "schema_read buf p r")
  case True
  have "method_read buf p r" "no_uri_yet r" using assms(1,3) by (auto simp: rl_inv.simps)
  then obtain e where e: "r_schema_end r = Some e" "e + 2 < p"
      "uri_facts buf (Suc e) (Suc (Suc e)) r" "Suc (the (r_method_end r)) < p"
    using schema_read_uri_facts [OF True assms(2)] method_read_end [of buf p r] by auto
  with assms True show ?thesis
    by (auto simp: rl_inv_defs rl_case_defs Let_def
        method_read_Suc schema_read_Suc in_uri_def uri_read_def 
        uri_facts_start_slash uri_facts_start_qm split: if_splits)
next
  case False
  with assms show ?thesis
    by (auto simp: rl_inv_defs rl_case_defs Let_def method_read_Suc split: if_splits)
qed

lemma uri_facts_usual:
  assumes "uri_facts buf u p r" "p < length buf" "usual_ch (buf ! p)"
    and "path_only r \<or> r_complex_uri r \<or> r_quoted_uri r \<or> r_args_start r \<noteq> None"
  shows "uri_facts buf u (Suc p) r"
  using assms usual_ch_neq [of "buf ! p"] usual_ch_clean [of "buf ! p"]
    uri_facts_path [of buf u p r] uri_facts_opaque [of buf u p r] by blast

lemmas rl_uri_simps = rl_inv.simps no_version_yet_def method_read_Suc in_uri_def uri_read_def
  uri_facts_usual uri_facts_path uri_facts_complex uri_facts_args uri_facts_ext uri_facts_opaque
  uri_facts_set_complex clean_ch_numeral clean_chI

lemma rl_inv_after_slash:
  assumes "rl_inv buf p (sw_after_slash_in_uri, r)" "p < length buf"
    and "rl_step pc buf p (buf ! p) (sw_after_slash_in_uri, r) = Next s'"
  shows "rl_inv buf (Suc p) s'"
  using assms usual_ch_special
  by (auto simp: rl_uri_simps rl_after_slash_in_uri_def rl_invalid_def split: if_splits)

lemma rl_inv_check_uri:
  assumes "rl_inv buf p (sw_check_uri, r)" "p < length buf"
    and "rl_step pc buf p (buf ! p) (sw_check_uri, r) = Next s'"
  shows "rl_inv buf (Suc p) s'"
  using assms usual_ch_special
  by (auto simp: rl_uri_simps rl_check_uri_def rl_invalid_def split: if_splits)

lemma rl_inv_in_uri:
  assumes "rl_inv buf p (sw_uri, r)" "p < length buf"
    and "rl_step pc buf p (buf ! p) (sw_uri, r) = Next s'"
  shows "rl_inv buf (Suc p) s'"
  using assms
  by (auto simp: rl_uri_simps rl_uri_def rl_invalid_def split: if_splits)

lemma first_major_digit: "\<not> ch < b_1 \<Longrightarrow> \<not> b_9 < ch \<Longrightarrow> \<not> Suc 0 < digit_val ch \<Longrightarrow> digit_val ch = Suc 0"
  by (auto simp: digit_val_def word_less_nat_alt unat_sub_if')

lemma minor_digit_bound: "is_digit ch \<Longrightarrow> \<not> 99 < m \<Longrightarrow> m * 10 + digit_val ch \<le> 999"
  using digit_val_le [of ch] by simp

lemma rl_inv_version_1:
  assumes "rl_inv buf p (st, r)" "p < length buf"
    and "st \<in> {sw_http_09, sw_http_H, sw_http_HT, sw_http_HTT, sw_http_HTTP}"
    and "rl_step pc buf p (buf ! p) (st, r) = Next s'"
  shows "rl_inv buf (Suc p) s'"
  using assms method_read_end [of buf p r]
  by (auto simp: rl_inv_defs rl_http_09_def rl_http_letter_def rl_http_HTTP_def rl_invalid_def
     method_read_Suc uri_read_def uri_facts_start_slash split: if_splits)

lemma rl_inv_version_2:
  assumes "rl_inv buf p (st, r)" "p < length buf"
    and "st \<in> {sw_first_major_digit, sw_major_digit, sw_first_minor_digit, sw_minor_digit,
               sw_spaces_after_digit, sw_almost_done}"
    and "rl_step pc buf p (buf ! p) (st, r) = Next s'"
  shows "rl_inv buf (Suc p) s'"
  using assms digit_val_le [of "buf ! p"]
  by (auto simp: rl_inv.simps no_version_yet_def rl_first_major_digit_def rl_major_digit_def
      rl_first_minor_digit_def rl_minor_digit_def rl_spaces_after_digit_def rl_almost_done_def
      rl_invalid_def Let_def method_read_Suc uri_read_def
      intro: first_major_digit minor_digit_bound split: if_splits)

lemma rl_step_inv:
  assumes "rl_inv buf p s" "p < length buf" "rl_step pc buf p (buf ! p) s = Next s'"
  shows "rl_inv buf (Suc p) s'"
proof -
  obtain st r where s: "s = (st, r)" by (cases s)
  show ?thesis
    using assms unfolding s
    by (cases st) (auto intro: rl_inv_start rl_inv_connect rl_inv_schema rl_inv_host
      rl_inv_after_slash rl_inv_check_uri rl_inv_in_uri rl_inv_version_1 rl_inv_version_2 simp del: rl_step.simps)
qed

subsection \<open>The end of the line\<close>

definition line_read :: "byte list \<Rightarrow> nat \<Rightarrow> http_request \<Rightarrow> bool" where
  "line_read buf p r \<longleftrightarrow> buf ! p = LF \<and> method_read buf p r
     \<and> (case r_request_end r of None \<Rightarrow> r_http_major r = 1 \<or> r_http_minor r = 9
        | Some e \<Rightarrow> e + 1 = p)
     \<and> (if r_http_major r = 0
        then r_http_minor r = 9
          \<and> (r_method r = NGX_HTTP_CONNECT \<or> uri_read buf (case r_request_end r of None \<Rightarrow> p | Some e \<Rightarrow> e) r)
        else r_http_major r = 1 \<and> r_http_minor r \<le> 999
          \<and> uri_read buf (case r_request_end r of None \<Rightarrow> p | Some e \<Rightarrow> e) r)"

lemma uri_read_frame [simp]: "uri_read buf p (r\<lparr>r_request_end := x\<rparr>) = uri_read buf p r"
  "uri_read buf p (r\<lparr>r_http_minor := n\<rparr>) = uri_read buf p r"
  "uri_read buf p (r\<lparr>r_http_version := n\<rparr>) = uri_read buf p r"
  "uri_read buf p (r\<lparr>r_state := st\<rparr>) = uri_read buf p r"
  by (simp_all add: uri_read_def)

lemma rl_step_done:
  assumes "rl_inv buf p (st, r)" "p < length buf"
    and "rl_step pc buf p (buf ! p) (st, r) = Stop RL_done (st', r')"
  shows "line_read buf p r'"
proof (cases "st \<in> {sw_after_slash_in_uri, sw_check_uri, sw_uri}")
  case True
  with assms show ?thesis
    by (auto simp: rl_inv_defs rl_after_slash_in_uri_def rl_check_uri_def rl_uri_def rl_invalid_def
      line_read_def in_uri_def uri_read_def split: if_splits)
next
  case False
  with assms method_read_end [of buf p r] show ?thesis
    by (cases st) (auto simp: rl_inv_defs rl_case_defs Let_def line_read_def split: if_splits)
qed

interpretation rli: byte_machine_inv "rl_step pc" rl_inv for pc
  by unfold_locales (rule rl_step_inv)

lemma rl_inv_fresh: "rl_inv buf p (sw_start, fresh_request)"
  by (simp add: rl_inv.simps no_uri_yet_def no_version_yet_def fresh_request_def)

lemma request_line_OK:
  assumes "ngx_http_parse_request_line pc fresh_request b = (NGX_OK, r, b')"
  obtains p r0 where "p < length (b_data b)" "line_read (b_data b) p r0" "(NGX_OK, r, b') = rl_done p r0 b"
    "b_pos b \<le> p"
proof -
  obtain e q st r' where
    run: "run_bytes (rl_step pc) (b_data b) (b_pos b) (sw_start, fresh_request) = (e, q, (st, r'))"
    by (metis prod_cases4)
  have fs: "r_state fresh_request = sw_start" by (simp add: fresh_request_def)
  have stop: "\<exists>t. b_pos b \<le> q \<and> q < length (b_data b) \<and> rl_inv (b_data b) q t
      \<and> rl_step pc (b_data b) q (b_data b ! q) t = Stop x (st, r')" if "e = Some x" for x
    using rli.run_stop [of pc "b_data b" "b_pos b" "(sw_start, fresh_request)"] run rl_inv_fresh that
    by blast
  have ret: "rc \<noteq> NGX_OK" if "e = Some (RL_return rc)" for rc
    using stop [OF that] rl_step_rc [of pc] by fastforce
  have fin: "e = Some RL_done"
  proof (cases e)
    case None
    with run assms fs show ?thesis by (simp add: ngx_http_parse_request_line_def)
  next
    case (Some x)
    with run assms fs ret show ?thesis
      by (cases x) (auto simp: ngx_http_parse_request_line_def)
  qed
  from stop [OF fin] obtain st1 r1 where "b_pos b \<le> q" "q < length (b_data b)" "rl_inv (b_data b) q (st1, r1)"
      "rl_step pc (b_data b) q (b_data b ! q) (st1, r1) = Stop RL_done (st, r')" by auto
  moreover from this have "line_read (b_data b) q r'" using rl_step_done by blast
  moreover have "(NGX_OK, r, b') = rl_done q r' b"
    using assms run fs fin by (simp add: ngx_http_parse_request_line_def)
  ultimately show thesis using that by blast
qed

text \<open>Facts of an accepted request line.\<close>

lemma request_line_accepted:
  assumes "ngx_http_parse_request_line pc fresh_request b = (NGX_OK, r, b')"
  shows "\<exists>p re. r_request_end r = Some re \<and> re \<le> p \<and> b' = b\<lparr>b_pos := Suc p\<rparr> \<and> b_pos b \<le> p
    \<and> p < length (b_data b) \<and> b_data b ! p = LF \<and> method_read (b_data b) p r
    \<and> uri_read (b_data b) re r
    \<and> (r_http_version r = 9 \<and> r_method r = NGX_HTTP_GET
       \<or> 1000 \<le> r_http_version r \<and> r_http_version r \<le> 1999)"
proof -
  obtain p r0 where p: "p < length (b_data b)" "b_pos b \<le> p" and l: "line_read (b_data b) p r0"
    and fin: "(NGX_OK, r, b') = rl_done p r0 b"
    using request_line_OK [OF assms] .
  define re where "re = (case r_request_end r0 of None \<Rightarrow> p | Some e \<Rightarrow> e)"
  define v where "v = r_http_major r0 * 1000 + r_http_minor r0"
  have r: "r = r0\<lparr>r_request_end := Some re, r_http_version := v, r_state := sw_start\<rparr>"
      "b' = b\<lparr>b_pos := Suc p\<rparr>" "v = 9 \<longrightarrow> r_method r0 = NGX_HTTP_GET"
    using fin by (auto simp: rl_done_def Let_def re_def v_def split: if_splits option.splits)
  have "re \<le> p" "v = 9 \<or> 1000 \<le> v \<and> v \<le> 1999" "method_read (b_data b) p r0"
      "b_data b ! p = LF" "uri_read (b_data b) re r0 \<or> v = 9 \<and> r_method r0 = NGX_HTTP_CONNECT"
    using l by (auto simp: line_read_def re_def v_def split: if_splits option.splits)
  with r p show ?thesis
    by (intro exI [of _ p] exI [of _ re]) auto
qed

section \<open>Properties\<close>

text \<open>
  C5: The request line may arrive in any number of reads. If a call on the bytes received so far
  returns \<open>NGX_AGAIN\<close>, then calling again once \<open>ys\<close> has arrived gives the return code that one
  call on all the bytes gives, and the same request, except that after a syntax error
  \<open>r->state\<close> may differ; on \<open>NGX_OK\<close>, \<open>NGX_AGAIN\<close> and \<open>NGX_HTTP_PARSE_INVALID_09_METHOD\<close> the
  request and the buffer agree completely.
\<close>

theorem request_line_resume:
  assumes "ngx_http_parse_request_line pc r b = (NGX_AGAIN, r1, b1)"
    and "ngx_http_parse_request_line pc r1 (b1\<lparr>b_data := b_data b @ ys\<rparr>) = (rc2, r2, b2)"
    and "ngx_http_parse_request_line pc r (b\<lparr>b_data := b_data b @ ys\<rparr>) = (rc3, r3, b3)"
  shows "rc2 = rc3 \<and> r2\<lparr>r_state := sw_start\<rparr> = r3\<lparr>r_state := sw_start\<rparr>
    \<and> (rc2 \<in> {NGX_OK, NGX_AGAIN, NGX_HTTP_PARSE_INVALID_09_METHOD} \<longrightarrow> r2 = r3 \<and> b2 = b3)"
proof -
  from assms(1) obtain st r' q where
    run: "run_bytes (rl_step pc) (b_data b) (b_pos b) (r_state r, r) = (None, q, (st, r'))"
    and r1: "r1 = r'\<lparr>r_state := st\<rparr>" and b1: "b1 = b\<lparr>b_pos := q\<rparr>"
    by (rule parse_request_line_AGAIN)
  let ?run = "run_bytes (rl_step pc) (b_data b @ ys) q (st, r')"
  have whole: "run_bytes (rl_step pc) (b_data b @ ys) (b_pos b) (r_state r, r) = ?run"
    by (rule rlm.run_resume [OF run])
  obtain e q' st' r'' where rest: "?run = (e, q', (st', r''))" by (metis prod_cases4)
  have "e = Some (RL_return rc) \<Longrightarrow> rc \<in> {10, 11, 12}" for rc
    using run_bytes_Some [of "rl_step pc"] rest rl_step_rc [of pc] by blast
  with assms(2,3) whole rest show ?thesis
    by (auto simp: ngx_http_parse_request_line_def r1 b1 run_state_irrelevant rl_done_def Let_def
        split: option.splits rl_exit.splits if_splits)
qed

text \<open>
  C6: An accepted request line is well formed. The offsets it stores are in order and inside the
  buffer, the line ends in a line feed and the buffer position is just behind it, the method name
  has only capital letters, \<open>_\<close> and \<open>-\<close> and \<open>r->method\<close> is its code, the URI starts with a slash
  (or with the question mark of an empty path) and has no control character, space or DEL, and the
  version is 9 for a GET without version or encodes 1.0 up to 1.999.
\<close>

theorem request_line_wellformed:
  assumes "ngx_http_parse_request_line pc fresh_request b = (NGX_OK, r, b')"
  shows "\<exists>m e u ue re p. r_request_start r = Some m \<and> r_method_end r = Some e
    \<and> r_uri_start r = Some u \<and> r_uri_end r = Some ue \<and> r_request_end r = Some re
    \<and> m \<le> e \<and> e < u \<and> u < ue \<and> ue \<le> re \<and> re \<le> p \<and> p < length (b_data b)
    \<and> b_data b ! p = LF \<and> b' = b\<lparr>b_pos := Suc p\<rparr>
    \<and> list_all method_ch (slice m (Suc e) (b_data b))
    \<and> r_method r = rl_method_code (slice m (Suc e) (b_data b)) NGX_HTTP_UNKNOWN
    \<and> b_data b ! u = (if r_empty_path_in_uri r then b_qm else b_slash)
    \<and> list_all clean_ch (slice u ue (b_data b))
    \<and> (r_http_version r = 9 \<and> r_method r = NGX_HTTP_GET
       \<or> 1000 \<le> r_http_version r \<and> r_http_version r \<le> 1999)"
proof -
  obtain p re where a: "r_request_end r = Some re" "re \<le> p" "b' = b\<lparr>b_pos := Suc p\<rparr>"
      "p < length (b_data b)" "b_data b ! p = LF" "method_read (b_data b) p r"
      "uri_read (b_data b) re r" "r_http_version r = 9 \<and> r_method r = NGX_HTTP_GET
       \<or> 1000 \<le> r_http_version r \<and> r_http_version r \<le> 1999"
    using request_line_accepted [OF assms] by blast
  obtain m e where m: "r_request_start r = Some m" "r_method_end r = Some e" "m \<le> e"
      "list_all method_ch (slice m (Suc e) (b_data b))"
      "r_method r = rl_method_code (slice m (Suc e) (b_data b)) NGX_HTTP_UNKNOWN"
    using a(6) by (auto simp: method_read_def)
  obtain u ue where u: "r_uri_start r = Some u" "r_uri_end r = Some ue" "ue \<le> re"
      "uri_facts (b_data b) u ue r"
    using a(7) by (auto simp: uri_read_def)
  have f: "u < ue" "e < u" "b_data b ! u = (if r_empty_path_in_uri r then b_qm else b_slash)"
      "list_all clean_ch (slice u ue (b_data b))"
    using u(4) m(2) by (auto simp: uri_facts_def)
  show ?thesis
    by (rule exI [of _ m], rule exI [of _ e], rule exI [of _ u], rule exI [of _ ue],
        rule exI [of _ re], rule exI [of _ p], intro conjI) (fact a m u f)+
qed

subsection \<open>A sample line\<close>

text \<open>\<open>GET /a/../b%2fc?d HTTP/1.1\<close>\<close>

definition sample_line :: "byte list" where
  "sample_line = [71, 69, 84, 32, 47, 97, 47, 46, 46, 47, 98, 37, 50, 102, 99, 63, 100, 32,
     72, 84, 84, 80, 47, 49, 46, 49, 13, 10]"

definition sample_request :: http_request where
  "sample_request = fresh_request\<lparr>r_method := NGX_HTTP_GET, r_http_version := 1001,
     r_http_major := 1, r_http_minor := 1, r_request_start := Some 0, r_request_end := Some 26,
     r_method_end := Some 2, r_uri_start := Some 4, r_uri_end := Some 17,
     r_http_protocol := Some 18, r_complex_uri := True\<rparr>"

text \<open>The request after the first six bytes.\<close>

definition sample_partial :: http_request where
  "sample_partial = fresh_request\<lparr>r_state := sw_check_uri, r_method := NGX_HTTP_GET,
     r_request_start := Some 0, r_method_end := Some 2, r_uri_start := Some 4\<rparr>"

lemma usual_ch_samples: "usual_ch 50" "usual_ch 97" "usual_ch 98" "usual_ch 99" "usual_ch 100" "usual_ch 102"
  by (simp_all add: usual_ch_def usual_def)

lemmas rl_eval = ngx_http_parse_request_line_def run_bytes.simps rl_case_defs Let_def method_ch_def
  fresh_request_def usual_ch_special usual_ch_samples control_ch_def is_digit_def digit_val_def
  slice_def rl_method_code_def CONNECT_name_def rl_done_def

lemma sample_line_parsed:
  "ngx_http_parse_request_line False fresh_request \<lparr>b_data = sample_line, b_pos = 0\<rparr>
     = (NGX_OK, sample_request, \<lparr>b_data = sample_line, b_pos = 28\<rparr>)"
  by (simp add: sample_line_def sample_request_def rl_eval)

lemma sample_line_again:
  "ngx_http_parse_request_line False fresh_request \<lparr>b_data = take 6 sample_line, b_pos = 0\<rparr>
     = (NGX_AGAIN, sample_partial, \<lparr>b_data = take 6 sample_line, b_pos = 6\<rparr>)"
  by (simp add: sample_line_def sample_partial_def rl_eval)

lemma sample_line_resumed:
  "ngx_http_parse_request_line False sample_partial \<lparr>b_data = sample_line, b_pos = 6\<rparr>
     = (NGX_OK, sample_request, \<lparr>b_data = sample_line, b_pos = 28\<rparr>)"
  by (simp add: sample_line_def sample_partial_def sample_request_def rl_eval)

theorem request_line_resume_witness:
  "ngx_http_parse_request_line False fresh_request \<lparr>b_data = take 6 sample_line, b_pos = 0\<rparr>
      = (NGX_AGAIN, sample_partial, \<lparr>b_data = take 6 sample_line, b_pos = 6\<rparr>)
   \<and> ngx_http_parse_request_line False sample_partial \<lparr>b_data = sample_line, b_pos = 6\<rparr>
      = ngx_http_parse_request_line False fresh_request \<lparr>b_data = sample_line, b_pos = 0\<rparr>"
proof -
  let ?b = "\<lparr>b_data = take 6 sample_line, b_pos = 0\<rparr> :: ngx_buf"
  let ?b1 = "\<lparr>b_data = take 6 sample_line, b_pos = 6\<rparr> :: ngx_buf"
  obtain rc3 r3 b3 where whole: "ngx_http_parse_request_line False fresh_request
      (?b\<lparr>b_data := b_data ?b @ drop 6 sample_line\<rparr>) = (rc3, r3, b3)"
    by (metis prod_cases3)
  have rest: "ngx_http_parse_request_line False sample_partial
      (?b1\<lparr>b_data := b_data ?b @ drop 6 sample_line\<rparr>)
      = (NGX_OK, sample_request, \<lparr>b_data = sample_line, b_pos = 28\<rparr>)"
    by (simp add: sample_line_resumed)
  have "rc3 = NGX_OK \<and> r3 = sample_request \<and> b3 = \<lparr>b_data = sample_line, b_pos = 28\<rparr>"
    using request_line_resume [OF sample_line_again rest whole] by simp
  with whole rest show ?thesis by (simp add: sample_line_again)
qed

theorem request_line_wellformed_witness:
  "\<exists>u ue. r_uri_start sample_request = Some u \<and> r_uri_end sample_request = Some ue
     \<and> u < ue \<and> list_all clean_ch (slice u ue sample_line)
     \<and> r_http_version sample_request = 1001"
  using request_line_wellformed [OF sample_line_parsed] by (auto simp: sample_request_def)

end
