(* ===== verification/Http_Uri.thy ===== *)
theory Http_Uri
  imports Http_Request
begin

text \<open>
  URI normalisation: \<open>ngx_http_parse_complex_uri\<close> of \<open>src/http/ngx_http_parse.c\<close>, which decodes
  \<open>%XX\<close>, merges slashes and removes dot segments while it copies the path into a buffer of its
  own, and \<open>ngx_http_process_request_uri\<close> of \<open>src/http/ngx_http_request.c\<close>, which allocates that
  buffer and calls it. A write past the allocation is a separate outcome of the model, so that its
  absence is a theorem.
\<close>

section \<open>ngx\_http\_parse\_complex\_uri\<close>

text \<open>The enum's four states that take a path byte, and the two inside a \<open>%XX\<close>. The variable
  \<open>quoted_state\<close> only ever holds one of the first four.\<close>

datatype cu_plain = cu_usual | cu_slash | cu_dot | cu_dot_dot
datatype cu_sw = CU_plain cu_plain | CU_quoted | CU_quoted_second

text \<open>The locals of the function: \<open>cu_out\<close> holds the bytes from \<open>r->uri.data\<close> up to \<open>u\<close>, the last
  written first, so \<open>*u++ = ch\<close> is a cons and \<open>u--\<close> a \<open>tl\<close>; \<open>cu_uri_ext\<close> is \<open>r->uri_ext\<close> as an
  offset into that output.\<close>

record cu =
  cu_state :: cu_sw
  cu_quoted_state :: cu_plain
  cu_decoded :: byte
  cu_out :: "byte list"
  cu_uri_ext :: "nat option"
  cu_plus_in_uri :: bool
  cu_quoted_uri :: bool

text \<open>How an iteration ends: the next byte is read, or the \<open>goto\<close>s \<open>args\<close> and \<open>done\<close>, or
  \<open>return NGX_HTTP_PARSE_INVALID_REQUEST\<close>, or a write outside the allocation.\<close>

datatype cu_res = CU_next cu | CU_args cu | CU_done cu | CU_invalid cu | CU_overrun

text \<open>\<open>*u++ = ch\<close>, with \<open>cap\<close> bytes allocated.\<close>

definition cu_put :: "nat \<Rightarrow> byte \<Rightarrow> cu \<Rightarrow> cu_res" where
  "cu_put cap ch s =
     (if length (cu_out s) < cap then CU_next (s\<lparr>cu_out := ch # cu_out s\<rparr>) else CU_overrun)"

text \<open>The loop that moves \<open>u\<close> down to the byte after the previous slash.\<close>

fun cu_back :: "byte list \<Rightarrow> byte list option" where
  "cu_back [] = None"
| "cu_back (c # out) = (if c = b_slash then Some (c # out) else cu_back out)"

text \<open>\<open>u -= 4\<close> and that loop.\<close>

definition cu_parent :: "cu \<Rightarrow> cu option" where
  "cu_parent s = map_option (\<lambda>out. s\<lparr>cu_out := out\<rparr>) (cu_back (drop 3 (cu_out s)))"

definition cu_usual_step :: "nat \<Rightarrow> byte \<Rightarrow> cu \<Rightarrow> cu_res" where
  "cu_usual_step cap ch s =
     (if usual_ch ch then cu_put cap ch s
      else if ch = b_slash then cu_put cap ch (s\<lparr>cu_uri_ext := None, cu_state := CU_plain cu_slash\<rparr>)
      else if ch = b_pct then CU_next (s\<lparr>cu_quoted_state := cu_usual, cu_state := CU_quoted\<rparr>)
      else if ch = b_qm then CU_args s
      else if ch = b_hash then CU_done s
      else if ch = b_dot then cu_put cap ch (s\<lparr>cu_uri_ext := Some (length (cu_out s) + 1)\<rparr>)
      else if ch = b_plus then cu_put cap ch (s\<lparr>cu_plus_in_uri := True\<rparr>)
      else cu_put cap ch s)"

definition cu_slash_step :: "nat \<Rightarrow> bool \<Rightarrow> byte \<Rightarrow> cu \<Rightarrow> cu_res" where
  "cu_slash_step cap merge_slashes ch s =
     (if usual_ch ch then cu_put cap ch (s\<lparr>cu_state := CU_plain cu_usual\<rparr>)
      else if ch = b_slash then (if \<not> merge_slashes then cu_put cap ch s else CU_next s)
      else if ch = b_dot then cu_put cap ch (s\<lparr>cu_state := CU_plain cu_dot\<rparr>)
      else if ch = b_pct then CU_next (s\<lparr>cu_quoted_state := cu_slash, cu_state := CU_quoted\<rparr>)
      else if ch = b_qm then CU_args s
      else if ch = b_hash then CU_done s
      else if ch = b_plus then
        cu_put cap ch (s\<lparr>cu_plus_in_uri := True, cu_state := CU_plain cu_usual\<rparr>)
      else cu_put cap ch (s\<lparr>cu_state := CU_plain cu_usual\<rparr>))"

definition cu_dot_step :: "nat \<Rightarrow> byte \<Rightarrow> cu \<Rightarrow> cu_res" where
  "cu_dot_step cap ch s =
     (if usual_ch ch then cu_put cap ch (s\<lparr>cu_state := CU_plain cu_usual\<rparr>)
      else if ch = b_slash then
        CU_next (s\<lparr>cu_state := CU_plain cu_slash, cu_out := tl (cu_out s)\<rparr>)
      else if ch = b_dot then cu_put cap ch (s\<lparr>cu_state := CU_plain cu_dot_dot\<rparr>)
      else if ch = b_pct then CU_next (s\<lparr>cu_quoted_state := cu_dot, cu_state := CU_quoted\<rparr>)
      else if ch = b_qm then CU_args (s\<lparr>cu_out := tl (cu_out s)\<rparr>)
      else if ch = b_hash then CU_done (s\<lparr>cu_out := tl (cu_out s)\<rparr>)
      else if ch = b_plus then
        cu_put cap ch (s\<lparr>cu_plus_in_uri := True, cu_state := CU_plain cu_usual\<rparr>)
      else cu_put cap ch (s\<lparr>cu_state := CU_plain cu_usual\<rparr>))"

definition cu_dot_dot_step :: "nat \<Rightarrow> byte \<Rightarrow> cu \<Rightarrow> cu_res" where
  "cu_dot_dot_step cap ch s =
     (if usual_ch ch then cu_put cap ch (s\<lparr>cu_state := CU_plain cu_usual\<rparr>)
      else if ch = b_slash \<or> ch = b_qm \<or> ch = b_hash then
        (case cu_parent s of
           None \<Rightarrow> CU_invalid s
         | Some s' \<Rightarrow>
             if ch = b_qm then CU_args s'
             else if ch = b_hash then CU_done s'
             else CU_next (s'\<lparr>cu_state := CU_plain cu_slash\<rparr>))
      else if ch = b_pct then CU_next (s\<lparr>cu_quoted_state := cu_dot_dot, cu_state := CU_quoted\<rparr>)
      else if ch = b_plus then
        cu_put cap ch (s\<lparr>cu_plus_in_uri := True, cu_state := CU_plain cu_usual\<rparr>)
      else cu_put cap ch (s\<lparr>cu_state := CU_plain cu_usual\<rparr>))"

fun cu_plain_step :: "nat \<Rightarrow> bool \<Rightarrow> cu_plain \<Rightarrow> byte \<Rightarrow> cu \<Rightarrow> cu_res" where
  "cu_plain_step cap ms cu_usual ch s = cu_usual_step cap ch s"
| "cu_plain_step cap ms cu_slash ch s = cu_slash_step cap ms ch s"
| "cu_plain_step cap ms cu_dot ch s = cu_dot_step cap ch s"
| "cu_plain_step cap ms cu_dot_dot ch s = cu_dot_dot_step cap ch s"

definition cu_quoted_step :: "byte \<Rightarrow> cu \<Rightarrow> cu_res" where
  "cu_quoted_step ch s0 =
     (let s = s0\<lparr>cu_quoted_uri := True\<rparr> in
      if is_digit ch then CU_next (s\<lparr>cu_decoded := ch - b_0, cu_state := CU_quoted_second\<rparr>)
      else if is_hex_alpha ch then
        CU_next (s\<lparr>cu_decoded := (ch OR 0x20) - b_a + 10, cu_state := CU_quoted_second\<rparr>)
      else CU_invalid s)"

text \<open>
  The second digit. Where the source sets \<open>state = quoted_state\<close> and breaks without reading, the
  loop condition still holds and the next iteration dispatches the decoded byte on the state
  before the \<open>%\<close>: that iteration is \<open>cu_plain_step\<close> here.
\<close>

definition cu_quoted_second_step :: "nat \<Rightarrow> bool \<Rightarrow> byte \<Rightarrow> cu \<Rightarrow> cu_res" where
  "cu_quoted_second_step cap ms ch s =
     (if is_digit ch then
        (let d = push_bit 4 (cu_decoded s) + (ch - b_0) in
         if d = b_pct \<or> d = b_hash then cu_put cap d (s\<lparr>cu_state := CU_plain cu_usual\<rparr>)
         else if d = NUL then CU_invalid s
         else cu_plain_step cap ms (cu_quoted_state s) d
                (s\<lparr>cu_state := CU_plain (cu_quoted_state s)\<rparr>))
      else if is_hex_alpha ch then
        (let d = push_bit 4 (cu_decoded s) + ((ch OR 0x20) - b_a) + 10 in
         if d = b_qm then cu_put cap d (s\<lparr>cu_state := CU_plain cu_usual\<rparr>)
         else cu_plain_step cap ms (cu_quoted_state s) d
                (s\<lparr>cu_plus_in_uri := (cu_plus_in_uri s \<or> d = b_plus),
                   cu_state := CU_plain (cu_quoted_state s)\<rparr>))
      else CU_invalid s)"

definition cu_step :: "nat \<Rightarrow> bool \<Rightarrow> byte \<Rightarrow> cu \<Rightarrow> cu_res" where
  "cu_step cap ms ch s =
     (case cu_state s of
        CU_plain st \<Rightarrow> cu_plain_step cap ms st ch s
      | CU_quoted \<Rightarrow> cu_quoted_step ch s
      | CU_quoted_second \<Rightarrow> cu_quoted_second_step cap ms ch s)"

text \<open>The code after the loop, up to \<open>done\<close>.\<close>

definition cu_finish :: "cu \<Rightarrow> cu_res" where
  "cu_finish s =
     (case cu_state s of
        CU_quoted \<Rightarrow> CU_invalid s
      | CU_quoted_second \<Rightarrow> CU_invalid s
      | CU_plain cu_dot \<Rightarrow> CU_done (s\<lparr>cu_out := tl (cu_out s)\<rparr>)
      | CU_plain cu_dot_dot \<Rightarrow>
          (case cu_parent s of None \<Rightarrow> CU_invalid s | Some s' \<Rightarrow> CU_done s')
      | CU_plain _ \<Rightarrow> CU_done s)"

text \<open>The loop \<open>while (p <= r->uri_end)\<close> over the bytes of the URI, with the bytes that are left
  when it is left.\<close>

fun cu_run :: "nat \<Rightarrow> bool \<Rightarrow> byte list \<Rightarrow> cu \<Rightarrow> cu_res \<times> byte list" where
  "cu_run cap ms [] s = (cu_finish s, [])"
| "cu_run cap ms (ch # rest) s =
     (case cu_step cap ms ch s of
        CU_next s' \<Rightarrow> cu_run cap ms rest s'
      | res \<Rightarrow> (res, rest))"

text \<open>\<open>r->uri.len = u - r->uri.data\<close> and the extension.\<close>

definition cu_store :: "cu \<Rightarrow> http_request \<Rightarrow> http_request" where
  "cu_store s r =
     (let r1 = r\<lparr>r_uri := rev (cu_out s), r_uri_ext := None,
                 r_plus_in_uri := cu_plus_in_uri s, r_quoted_uri := cu_quoted_uri s\<rparr> in
      case cu_uri_ext s of None \<Rightarrow> r1 | Some x \<Rightarrow> r1\<lparr>r_exten := drop x (rev (cu_out s))\<rparr>)"

datatype uri_result = URI_ok http_request | URI_invalid http_request | URI_overrun

definition cu_init :: "http_request \<Rightarrow> cu" where
  "cu_init r = \<lparr>cu_state = CU_plain cu_usual, cu_quoted_state = cu_usual, cu_decoded = 0,
     cu_out = (if r_empty_path_in_uri r then [b_slash] else []), cu_uri_ext = None,
     cu_plus_in_uri = r_plus_in_uri r, cu_quoted_uri = r_quoted_uri r\<rparr>"

definition ngx_http_parse_complex_uri ::
    "nat \<Rightarrow> byte list \<Rightarrow> http_request \<Rightarrow> bool \<Rightarrow> uri_result" where
  "ngx_http_parse_complex_uri cap buf r0 merge_slashes =
     (let us = the (r_uri_start r0); ue = the (r_uri_end r0);
          r = r0\<lparr>r_uri_ext := None, r_args_start := None\<rparr>
      in if r_empty_path_in_uri r \<and> cap = 0 then URI_overrun
         else case cu_run cap merge_slashes (slice us ue buf) (cu_init r) of
           (CU_done s, _) \<Rightarrow> URI_ok (cu_store s r)
         | (CU_args s, rest) \<Rightarrow>
             (let args_pos = ue - length rest in
              if b_hash \<in> set rest
              then URI_ok (cu_store s (r\<lparr>r_args := takeWhile (\<lambda>c. c \<noteq> b_hash) rest\<rparr>))
              else URI_ok (cu_store s (r\<lparr>r_args_start := Some args_pos\<rparr>)))
         | (CU_invalid s, _) \<Rightarrow>
             URI_invalid (r\<lparr>r_uri_ext := cu_uri_ext s, r_plus_in_uri := cu_plus_in_uri s,
                            r_quoted_uri := cu_quoted_uri s\<rparr>)
         | (CU_overrun, _) \<Rightarrow> URI_overrun
         | (CU_next s, _) \<Rightarrow> URI_invalid r)"

section \<open>ngx\_http\_process\_request\_uri\<close>

text \<open>
  The allocation of \<open>r->uri.data\<close> fails when \<open>alloc_ok\<close> is false; the error paths also close or
  finalize the request, which is outside this model. The compile-time branch \<open>T_NGX_VARS\<close> is on,
  the \<open>NGX_WIN32\<close> ones are off.
\<close>

text \<open>\<open>r->uri.len\<close> before the copy: the bytes up to the arguments.\<close>

definition request_uri_len :: "http_request \<Rightarrow> nat" where
  "request_uri_len r =
     (case r_args_start r of
        Some a \<Rightarrow> a - 1 - the (r_uri_start r)
      | None \<Rightarrow> the (r_uri_end r) - the (r_uri_start r))"

text \<open>The size of the allocation, one byte more for the slash of an empty path.\<close>

definition request_uri_alloc :: "http_request \<Rightarrow> nat" where
  "request_uri_alloc r =
     (if r_empty_path_in_uri r then request_uri_len r + 1 else request_uri_len r)"

text \<open>The fields set once \<open>r->uri\<close> stands.\<close>

definition request_uri_fields :: "byte list \<Rightarrow> http_request \<Rightarrow> http_request" where
  "request_uri_fields buf r =
     (let us = the (r_uri_start r); ue = the (r_uri_end r);
          r1 = r\<lparr>r_raw_uri := (case r_args_start r of
                     Some a \<Rightarrow> slice us (a - 1) buf | None \<Rightarrow> slice us ue buf),
                  r_unparsed_uri := slice us ue buf,
                  r_valid_unparsed_uri := \<not> r_empty_path_in_uri r\<rparr>;
          r2 = (case r_uri_ext r1 of
                  None \<Rightarrow> r1
                | Some x \<Rightarrow> r1\<lparr>r_exten := slice x (case r_args_start r1 of
                                  Some a \<Rightarrow> a - 1 | None \<Rightarrow> ue) buf\<rparr>)
      in case r_args_start r2 of
           None \<Rightarrow> r2
         | Some a \<Rightarrow> if ue > a then r2\<lparr>r_args := slice a ue buf\<rparr> else r2)"

definition ngx_http_process_request_uri ::
    "bool \<Rightarrow> bool \<Rightarrow> byte list \<Rightarrow> http_request \<Rightarrow> uri_result" where
  "ngx_http_process_request_uri alloc_ok merge_slashes buf r =
     (if r_complex_uri r \<or> r_quoted_uri r \<or> r_empty_path_in_uri r then
        (if \<not> alloc_ok then URI_invalid r
         else case ngx_http_parse_complex_uri (request_uri_alloc r) buf r merge_slashes of
           URI_ok r' \<Rightarrow> URI_ok (request_uri_fields buf r')
         | URI_invalid r' \<Rightarrow> URI_invalid (r'\<lparr>r_uri := []\<rparr>)
         | URI_overrun \<Rightarrow> URI_overrun)
      else URI_ok (request_uri_fields buf
             (r\<lparr>r_uri := (let us = the (r_uri_start r) in slice us (us + request_uri_len r) buf)\<rparr>)))"

lemma request_uri_fields_uri [simp]: "r_uri (request_uri_fields buf r) = r_uri r"
  by (simp add: request_uri_fields_def Let_def split: option.split)

section \<open>Path segments\<close>

text \<open>The pieces of a path between its slashes.\<close>

fun segments :: "byte list \<Rightarrow> byte list list" where
  "segments [] = [[]]"
| "segments (c # s) =
     (if c = b_slash then [] # segments s
      else (case segments s of g # gs \<Rightarrow> (c # g) # gs | [] \<Rightarrow> [[c]]))"

definition dot_segments :: "byte list set" where
  "dot_segments = {[b_dot], [b_dot, b_dot]}"

lemma segments_nonempty [simp]: "segments s \<noteq> []"
  by (cases s) (auto split: list.split)

lemma segments_append_slash: "segments (a @ b_slash # b) = segments a @ segments b"
  by (induction a) (auto split: list.split)

lemma segments_snoc_slash: "segments (s @ [b_slash]) = segments s @ [[]]"
  using segments_append_slash [of s "[]"] by simp

lemma segments_snoc:
  "c \<noteq> b_slash \<Longrightarrow> segments (s @ [c]) = butlast (segments s) @ [last (segments s) @ [c]]"
proof (induction s)
  case Nil
  then show ?case by simp
next
  case (Cons d s)
  then show ?case by (cases "segments s") auto
qed

lemma last_segment_append:
  "b_slash \<notin> set b \<Longrightarrow> segments (a @ b_slash # b) = segments a @ [b]"
proof -
  assume b: "b_slash \<notin> set b"
  have "segments b = [b]" using b by (induction b) auto
  then show ?thesis by (simp add: segments_append_slash)
qed

text \<open>An absolute path none of whose segments is a dot segment.\<close>

definition normal_path :: "byte list \<Rightarrow> bool" where
  "normal_path path \<longleftrightarrow> take 1 path = [b_slash] \<and> set (segments path) \<inter> dot_segments = {}"

section \<open>The loop invariant of ngx\_http\_parse\_complex\_uri\<close>

text \<open>All segments but the last are finished; what the last may be depends on the state.\<close>

fun cu_last_segment :: "cu_plain \<Rightarrow> byte list \<Rightarrow> bool" where
  "cu_last_segment cu_usual g \<longleftrightarrow> g \<noteq> [] \<and> g \<notin> dot_segments"
| "cu_last_segment cu_slash g \<longleftrightarrow> g = []"
| "cu_last_segment cu_dot g \<longleftrightarrow> g = [b_dot]"
| "cu_last_segment cu_dot_dot g \<longleftrightarrow> g = [b_dot, b_dot]"

definition cu_path_ok :: "cu_plain \<Rightarrow> byte list \<Rightarrow> bool" where
  "cu_path_ok st path \<longleftrightarrow> take 1 path = [b_slash]
     \<and> set (butlast (segments path)) \<inter> dot_segments = {} \<and> cu_last_segment st (last (segments path))"

definition cu_ext_ok :: "cu_plain \<Rightarrow> cu \<Rightarrow> bool" where
  "cu_ext_ok st s \<longleftrightarrow>
     (case cu_uri_ext s of None \<Rightarrow> True | Some x \<Rightarrow> st = cu_usual \<and> x \<le> length (cu_out s))"

definition cu_inv_at :: "cu_plain \<Rightarrow> cu \<Rightarrow> bool" where
  "cu_inv_at st s \<longleftrightarrow> NUL \<notin> set (cu_out s) \<and> cu_ext_ok st s \<and> cu_path_ok st (rev (cu_out s))"

definition cu_inv :: "cu \<Rightarrow> bool" where
  "cu_inv s \<longleftrightarrow> cu_inv_at (case cu_state s of CU_plain st \<Rightarrow> st | _ \<Rightarrow> cu_quoted_state s) s"

definition cu_final :: "cu \<Rightarrow> bool" where
  "cu_final s \<longleftrightarrow> NUL \<notin> set (cu_out s) \<and> normal_path (rev (cu_out s))
     \<and> (case cu_uri_ext s of None \<Rightarrow> True | Some x \<Rightarrow> x \<le> length (cu_out s))"

text \<open>What an iteration promises.\<close>

definition cu_res_ok :: "cu_res \<Rightarrow> bool" where
  "cu_res_ok res \<longleftrightarrow>
     (case res of CU_next s \<Rightarrow> cu_inv s | CU_args s \<Rightarrow> cu_final s | CU_done s \<Rightarrow> cu_final s | _ \<Rightarrow> True)"

lemma take_1_snoc: "take 1 p = [x] \<Longrightarrow> take 1 (p @ q) = [x]"
  by (cases p) auto

lemma set_butlast_last: "xs \<noteq> [] \<Longrightarrow> set xs = insert (last xs) (set (butlast xs))"
  by (cases xs rule: rev_cases) auto

lemma path_ok_snoc:
  assumes "cu_path_ok st p" "c \<noteq> b_slash" "cu_last_segment st' (last (segments p) @ [c])"
  shows "cu_path_ok st' (p @ [c])"
  using assms take_1_snoc [of p b_slash "[c]"] by (simp add: cu_path_ok_def segments_snoc)

lemma path_ok_slash:
  assumes "cu_path_ok st p" "last (segments p) \<notin> dot_segments"
  shows "cu_path_ok cu_slash (p @ [b_slash])"
  using assms take_1_snoc [of p b_slash "[b_slash]"] set_butlast_last [of "segments p"]
  by (simp add: cu_path_ok_def segments_snoc_slash)

lemma path_ok_final:
  assumes "cu_path_ok st p" "st = cu_usual \<or> st = cu_slash"
  shows "normal_path p"
  using assms set_butlast_last [of "segments p"]
  by (auto simp: cu_path_ok_def normal_path_def dot_segments_def)


lemma path_ok_pop:
  assumes "cu_path_ok st (q @ [c])" "c \<noteq> b_slash" "cu_last_segment st' (last (segments q))"
  shows "cu_path_ok st' q"
  using assms by (cases q) (auto simp: cu_path_ok_def segments_snoc split: if_splits)

lemma path_ok_dotD:
  assumes "cu_path_ok cu_dot p"
  obtains q where "p = q @ [b_dot]" "cu_path_ok cu_slash q"
proof (cases p rule: rev_cases)
  case Nil
  with assms show thesis by (simp add: cu_path_ok_def)
next
  case (snoc q c)
  with assms have "c = b_dot \<and> last (segments q) = []"
    by (cases "c = b_slash") (auto simp: cu_path_ok_def segments_snoc_slash segments_snoc)
  with snoc assms that path_ok_pop [of cu_dot q c cu_slash] show thesis by auto
qed

lemma path_ok_dot_dotD:
  assumes "cu_path_ok cu_dot_dot p"
  obtains q where "p = q @ [b_dot]" "cu_path_ok cu_dot q"
proof (cases p rule: rev_cases)
  case Nil
  with assms show thesis by (simp add: cu_path_ok_def)
next
  case (snoc q c)
  with assms have "c = b_dot \<and> last (segments q) = [b_dot]"
    by (cases "c = b_slash") (auto simp: cu_path_ok_def segments_snoc_slash segments_snoc append_eq_Cons_conv)
  with snoc assms that path_ok_pop [of cu_dot_dot q c cu_dot] show thesis by auto
qed

lemma path_ok_slashD:
  assumes "cu_path_ok cu_slash p"
  obtains q where "p = q @ [b_slash]"
proof (cases p rule: rev_cases)
  case Nil
  with assms show thesis by (simp add: cu_path_ok_def)
next
  case (snoc q c)
  with assms have "c = b_slash" by (cases "c = b_slash") (auto simp: cu_path_ok_def segments_snoc)
  with snoc that show thesis by simp
qed

lemma cu_back_Some:
  "cu_back xs = Some ys \<Longrightarrow> \<exists>pre zs. xs = pre @ ys \<and> ys = b_slash # zs"
proof (induction xs)
  case Nil
  then show ?case by simp
next
  case (Cons c xs)
  show ?case
  proof (cases "c = b_slash")
    case True
    with Cons.prems show ?thesis by auto
  next
    case False
    with Cons obtain pre zs where "xs = pre @ ys" "ys = b_slash # zs" by auto
    then show ?thesis by (metis append_Cons)
  qed
qed

lemma path_ok_prefix:
  assumes "cu_path_ok st (a @ b_slash # b)"
  shows "cu_path_ok cu_slash (a @ [b_slash])"
proof -
  have "set (segments a) \<inter> dot_segments = {}"
    using assms by (auto simp: cu_path_ok_def segments_append_slash butlast_append)
  moreover have "take 1 (a @ [b_slash]) = [b_slash]"
    using assms by (cases a) (auto simp: cu_path_ok_def)
  ultimately show ?thesis by (simp add: cu_path_ok_def segments_snoc_slash)
qed

text \<open>Going up one level keeps the invariant.\<close>

lemma cu_parent_ok:
  assumes "cu_inv_at cu_dot_dot s" "cu_parent s = Some s'"
  shows "cu_inv_at cu_slash s'"
proof -
  obtain out' where out': "cu_back (drop 3 (cu_out s)) = Some out'" "s' = s\<lparr>cu_out := out'\<rparr>"
    using assms(2) by (auto simp: cu_parent_def)
  then obtain pre zs where z: "drop 3 (cu_out s) = pre @ out'" "out' = b_slash # zs"
    using cu_back_Some by blast
  have split: "cu_out s = (take 3 (cu_out s) @ pre) @ b_slash # zs"
    using z append_take_drop_id [of 3 "cu_out s"] by (metis append.assoc)
  then have "rev (cu_out s) = rev zs @ b_slash # rev (take 3 (cu_out s) @ pre)"
    by (metis append.assoc append_Cons append_Nil rev.simps(2) rev_append)
  with assms(1) have "cu_path_ok cu_dot_dot (rev zs @ b_slash # rev (take 3 (cu_out s) @ pre))"
    by (simp add: cu_inv_at_def)
  then have "cu_path_ok cu_slash (rev zs @ [b_slash])" by (rule path_ok_prefix)
  moreover have "NUL \<notin> set out'" using assms(1) split z by (metis Un_iff cu_inv_at_def set_append)
  moreover have "cu_ext_ok cu_slash s'"
    using assms(1) out' by (auto simp: cu_inv_at_def cu_ext_ok_def split: option.splits)
  ultimately show ?thesis using out' z by (simp add: cu_inv_at_def)
qed

lemma final_of_inv: "cu_inv_at st s \<Longrightarrow> st = cu_usual \<or> st = cu_slash \<Longrightarrow> cu_final s"
  using path_ok_final by (auto simp: cu_inv_at_def cu_final_def cu_ext_ok_def split: option.splits)

lemma cu_pop_ok:
  assumes "cu_inv_at cu_dot s"
  shows "cu_inv_at cu_slash (s\<lparr>cu_out := tl (cu_out s)\<rparr>)"
proof -
  obtain q where "rev (cu_out s) = q @ [b_dot]" "cu_path_ok cu_slash q"
    using assms by (auto simp: cu_inv_at_def elim: path_ok_dotD)
  moreover then have "cu_out s = b_dot # rev q" by (metis rev_rev_ident rev_swap rev.simps(2) rev_append append_Cons append_Nil)
  ultimately show ?thesis using assms
    by (auto simp: cu_inv_at_def cu_ext_ok_def split: option.splits)
qed

text \<open>Writing one more byte.\<close>

lemma cu_put_ok:
  assumes "cu_inv_at st s" "c \<noteq> b_slash" "c \<noteq> NUL"
    and "cu_last_segment st' (last (segments (rev (cu_out s))) @ [c])"
    and "cu_state s' = CU_plain st'" "cu_out s' = cu_out s"
    and "cu_uri_ext s' = cu_uri_ext s \<or> cu_uri_ext s' = Some (length (cu_out s) + 1)"
    and "st' \<noteq> cu_usual \<longrightarrow> cu_uri_ext s' = None"
  shows "cu_res_ok (cu_put cap c s')"
  using assms path_ok_snoc [of st "rev (cu_out s)" c st']
  by (auto simp: cu_put_def cu_res_ok_def cu_inv_def cu_inv_at_def cu_ext_ok_def split: option.splits)

lemma cu_put_slash_ok:
  assumes "cu_inv_at st s" "st = cu_usual \<or> st = cu_slash"
    and "cu_state s' = CU_plain cu_slash" "cu_out s' = cu_out s" "cu_uri_ext s' = None"
  shows "cu_res_ok (cu_put cap b_slash s')"
proof -
  have "last (segments (rev (cu_out s))) \<notin> dot_segments"
    using assms(1,2) by (auto simp: cu_inv_at_def cu_path_ok_def dot_segments_def)
  then show ?thesis
    using assms path_ok_slash [of st "rev (cu_out s)"]
    by (auto simp: cu_put_def cu_res_ok_def cu_inv_def cu_inv_at_def cu_ext_ok_def)
qed


lemma last_segment_grow:
  "cu_inv_at cu_usual s \<Longrightarrow> cu_last_segment cu_usual (last (segments (rev (cu_out s))) @ [c])"
  "cu_inv_at cu_slash s \<Longrightarrow> c \<noteq> b_dot \<Longrightarrow> cu_last_segment cu_usual (last (segments (rev (cu_out s))) @ [c])"
  "cu_inv_at cu_dot s \<Longrightarrow> c \<noteq> b_dot \<Longrightarrow> cu_last_segment cu_usual (last (segments (rev (cu_out s))) @ [c])"
  "cu_inv_at cu_dot_dot s \<Longrightarrow> cu_last_segment cu_usual (last (segments (rev (cu_out s))) @ [c])"
  "cu_inv_at cu_slash s \<Longrightarrow> cu_last_segment cu_dot (last (segments (rev (cu_out s))) @ [b_dot])"
  "cu_inv_at cu_dot s \<Longrightarrow> cu_last_segment cu_dot_dot (last (segments (rev (cu_out s))) @ [b_dot])"
  by (auto simp: cu_inv_at_def cu_path_ok_def dot_segments_def append_eq_Cons_conv)

declare cu_last_segment.simps [simp del]

lemma ext_None: "cu_inv_at st s \<Longrightarrow> st \<noteq> cu_usual \<Longrightarrow> cu_uri_ext s = None"
  by (auto simp: cu_inv_at_def cu_ext_ok_def split: option.splits)

lemma cu_inv_quoted:
  "cu_inv_at st s \<Longrightarrow> cu_res_ok (CU_next (s\<lparr>cu_quoted_state := st, cu_state := CU_quoted\<rparr>))"
  by (auto simp: cu_res_ok_def cu_inv_def cu_inv_at_def cu_ext_ok_def split: option.splits)

lemma cu_usual_step_ok:
  assumes "cu_inv_at cu_usual s" "cu_state s = CU_plain cu_usual" "ch \<noteq> NUL"
  shows "cu_res_ok (cu_usual_step cap ch s)"
proof (cases "ch = b_slash")
  case True
  with assms show ?thesis
    by (simp add: cu_usual_step_def usual_ch_special cu_put_slash_ok [of cu_usual s])
next
  case False
  have "cu_final s" using assms(1) by (rule final_of_inv) simp
  then have fin: "cu_res_ok (CU_args s)" "cu_res_ok (CU_done s)" by (simp_all add: cu_res_ok_def)
  with False assms show ?thesis
    by (auto simp: cu_usual_step_def cu_inv_quoted last_segment_grow
        intro!: cu_put_ok [of cu_usual s])
qed

lemma cu_slash_step_ok:
  assumes "cu_inv_at cu_slash s" "cu_state s = CU_plain cu_slash" "ch \<noteq> NUL"
  shows "cu_res_ok (cu_slash_step cap ms ch s)"
proof (cases "ch = b_slash")
  case True
  have "cu_res_ok (CU_next s)" using assms by (simp add: cu_res_ok_def cu_inv_def)
  with True assms show ?thesis
    by (simp add: cu_slash_step_def usual_ch_special ext_None cu_put_slash_ok [of cu_slash s])
next
  case False
  have "cu_final s" using assms(1) by (rule final_of_inv) simp
  then have fin: "cu_res_ok (CU_args s)" "cu_res_ok (CU_done s)" by (simp_all add: cu_res_ok_def)
  show ?thesis
  proof (cases "ch = b_dot")
    case True
    with assms show ?thesis
      by (auto simp: cu_slash_step_def usual_ch_special ext_None last_segment_grow
          intro!: cu_put_ok [of cu_slash s])
  next
    case False
    with \<open>ch \<noteq> b_slash\<close> assms fin show ?thesis
      by (auto simp: cu_slash_step_def cu_inv_quoted ext_None last_segment_grow
          intro!: cu_put_ok [of cu_slash s])
  qed
qed

lemma cu_dot_step_ok:
  assumes "cu_inv_at cu_dot s" "cu_state s = CU_plain cu_dot" "ch \<noteq> NUL"
  shows "cu_res_ok (cu_dot_step cap ch s)"
proof -
  have pop: "cu_inv_at cu_slash (s\<lparr>cu_out := tl (cu_out s)\<rparr>)" by (rule cu_pop_ok [OF assms(1)])
  then have "cu_final (s\<lparr>cu_out := tl (cu_out s)\<rparr>)" by (rule final_of_inv) simp
  then have fin: "cu_res_ok (CU_args (s\<lparr>cu_out := tl (cu_out s)\<rparr>))"
      "cu_res_ok (CU_done (s\<lparr>cu_out := tl (cu_out s)\<rparr>))" by (simp_all add: cu_res_ok_def)
  have up: "cu_res_ok (CU_next (s\<lparr>cu_state := CU_plain cu_slash, cu_out := tl (cu_out s)\<rparr>))"
    using pop by (auto simp: cu_res_ok_def cu_inv_def cu_inv_at_def cu_ext_ok_def split: option.splits)
  show ?thesis
  proof (cases "ch = b_dot")
    case True
    with assms show ?thesis
      by (auto simp: cu_dot_step_def usual_ch_special ext_None last_segment_grow
          intro!: cu_put_ok [of cu_dot s])
  next
    case False
    with assms fin up usual_ch_special show ?thesis
      by (auto simp: cu_dot_step_def cu_inv_quoted ext_None last_segment_grow
          intro!: cu_put_ok [of cu_dot s])
  qed
qed

lemma cu_dot_dot_step_ok:
  assumes "cu_inv_at cu_dot_dot s" "cu_state s = CU_plain cu_dot_dot" "ch \<noteq> NUL"
  shows "cu_res_ok (cu_dot_dot_step cap ch s)"
proof (cases "cu_parent s")
  case None
  have "cu_res_ok (CU_invalid s)" by (simp add: cu_res_ok_def)
  with None assms usual_ch_special show ?thesis
    by (auto simp: cu_dot_dot_step_def cu_inv_quoted ext_None last_segment_grow
          intro!: cu_put_ok [of cu_dot_dot s])
next
  case (Some s')
  have s': "cu_inv_at cu_slash s'" using cu_parent_ok [OF assms(1) Some] .
  then have "cu_final s'" by (rule final_of_inv) simp
  then have fin: "cu_res_ok (CU_args s')" "cu_res_ok (CU_done s')" by (simp_all add: cu_res_ok_def)
  have up: "cu_res_ok (CU_next (s'\<lparr>cu_state := CU_plain cu_slash\<rparr>))"
    using s' by (auto simp: cu_res_ok_def cu_inv_def cu_inv_at_def cu_ext_ok_def split: option.splits)
  with Some fin assms usual_ch_special show ?thesis
    by (auto simp: cu_dot_dot_step_def cu_inv_quoted ext_None last_segment_grow
          intro!: cu_put_ok [of cu_dot_dot s])
qed

lemma cu_plain_step_ok:
  assumes "cu_inv_at st s" "cu_state s = CU_plain st" "ch \<noteq> NUL"
  shows "cu_res_ok (cu_plain_step cap ms st ch s)"
  using assms by (cases st) (auto intro: cu_usual_step_ok cu_slash_step_ok cu_dot_step_ok cu_dot_dot_step_ok)

text \<open>A byte decoded from two hex digits whose second is a letter is not NUL.\<close>

lemma hex_alpha_not_NUL:
  assumes "is_hex_alpha ch"
  shows "push_bit 4 d + ((ch OR 0x20) - b_a) + 10 \<noteq> (NUL :: byte)"
proof -
  define c where "c = (ch OR 0x20) - b_a"
  have "unat c \<le> 5"
    using assms by (auto simp: c_def is_hex_alpha_def Let_def word_le_nat_alt unat_sub_if')
  moreover have "unat (push_bit 4 d + c + 10) = (unat d * 16 + unat c + 10) mod 256"
    by (simp add: push_bit_eq_mult unat_word_ariths mod_simps mult.commute)
  moreover have "(unat d * 16 + unat c + 10) mod 16 = (unat c + 10) mod 16"
    using mod_mult_self2 [of "unat c + 10" 16 "unat d"] by (simp add: ac_simps)
  ultimately have "unat (push_bit 4 d + c + 10) mod 16 = unat c + 10"
    by (simp add: mod_mod_cancel)
  then have "push_bit 4 d + c + 10 \<noteq> 0" by (metis mod_0 unsigned_0 add_is_0 zero_neq_numeral)
  then show ?thesis by (simp add: c_def)
qed

lemma cu_inv_at_frame [simp]:
  "cu_inv_at st (s\<lparr>cu_state := x\<rparr>) = cu_inv_at st s"
  "cu_inv_at st (s\<lparr>cu_plus_in_uri := b\<rparr>) = cu_inv_at st s"
  by (simp_all add: cu_inv_at_def cu_ext_ok_def cong: option.case_cong)

lemma cu_step_ok:
  assumes "cu_inv s" "ch \<noteq> NUL"
  shows "cu_res_ok (cu_step cap ms ch s)"
proof (cases "cu_state s")
  case (CU_plain st)
  with assms show ?thesis by (simp add: cu_step_def cu_inv_def cu_plain_step_ok)
next
  case CU_quoted
  with assms show ?thesis
    by (auto simp: cu_step_def cu_quoted_step_def Let_def cu_res_ok_def cu_inv_def cu_inv_at_def cu_ext_ok_def
        split: option.splits)
next
  case CU_quoted_second
  let ?st = "cu_quoted_state s"
  have inv: "cu_inv_at ?st s" using assms CU_quoted_second by (simp add: cu_inv_def)
  have put: "cu_res_ok (cu_put cap d (s\<lparr>cu_state := CU_plain cu_usual\<rparr>))"
    if "d \<in> {b_pct, b_hash, b_qm}" for d
    using inv that by (cases ?st) (auto intro!: cu_put_ok [of ?st s] simp: last_segment_grow)
  have plain: "cu_res_ok (cu_plain_step cap ms ?st d (s\<lparr>cu_plus_in_uri := b, cu_state := CU_plain ?st\<rparr>))"
      "cu_res_ok (cu_plain_step cap ms ?st d (s\<lparr>cu_state := CU_plain ?st\<rparr>))"
    if "d \<noteq> NUL" for d b
    using inv that by (simp_all add: cu_plain_step_ok)
  have inval: "cu_res_ok (CU_invalid s)" by (simp add: cu_res_ok_def)
  show ?thesis
    using CU_quoted_second put plain inval hex_alpha_not_NUL
    by (auto simp: cu_step_def cu_quoted_second_step_def Let_def)
qed

lemma cu_finish_ok:
  assumes "cu_inv s"
  shows "cu_res_ok (cu_finish s)"
proof (cases "cu_state s")
  case (CU_plain st)
  with assms have inv: "cu_inv_at st s" by (simp add: cu_inv_def)
  show ?thesis
  proof (cases st)
    case cu_usual
    with CU_plain inv show ?thesis by (simp add: cu_finish_def cu_res_ok_def final_of_inv [of cu_usual])
  next
    case cu_slash
    with CU_plain inv show ?thesis by (simp add: cu_finish_def cu_res_ok_def final_of_inv [of cu_slash])
  next
    case cu_dot
    with CU_plain inv show ?thesis
      by (simp add: cu_finish_def cu_res_ok_def final_of_inv [OF cu_pop_ok])
  next
    case cu_dot_dot
    with CU_plain inv show ?thesis
      by (auto simp: cu_finish_def cu_res_ok_def split: option.split
          intro: final_of_inv [OF cu_parent_ok])
  qed
qed (simp_all add: cu_finish_def cu_res_ok_def)

lemma cu_run_ok:
  "cu_inv s \<Longrightarrow> NUL \<notin> set l \<Longrightarrow> cu_run cap ms l s = (res, rest) \<Longrightarrow> cu_res_ok res"
proof (induction l arbitrary: s)
  case Nil
  then show ?case using cu_finish_ok by auto
next
  case (Cons ch l)
  then have "cu_res_ok (cu_step cap ms ch s)" by (auto intro: cu_step_ok)
  with Cons show ?case by (auto split: cu_res.splits simp: cu_res_ok_def)
qed

lemma cu_run_never_next: "fst (cu_run cap ms l s) \<noteq> CU_next s'"
proof (induction l arbitrary: s)
  case Nil
  show ?case by (auto simp: cu_finish_def split: cu_sw.split cu_plain.split option.split)
next
  case (Cons ch l)
  then show ?case by (auto split: cu_res.split)
qed

subsection \<open>The first byte\<close>

lemma cu_first_slash:
  assumes "cap > 0" "\<not> r_empty_path_in_uri r"
  obtains s where "cu_step cap ms b_slash (cu_init r) = CU_next s" "cu_inv s" "cu_out s = [b_slash]"
  using assms that
  by (auto simp: cu_step_def cu_init_def cu_usual_step_def usual_ch_special cu_put_def cu_inv_def cu_inv_at_def
     cu_ext_ok_def cu_path_ok_def cu_last_segment.simps dot_segments_def)

lemma cu_first_qm:
  assumes "r_empty_path_in_uri r"
  shows "cu_step cap ms b_qm (cu_init r) = CU_args (cu_init r)" "cu_final (cu_init r)"
  using assms
  by (auto simp: cu_step_def cu_init_def cu_usual_step_def usual_ch_special cu_final_def normal_path_def dot_segments_def)

text \<open>A URI as \<open>ngx_http_parse_request_line\<close> delivers it: it starts with a slash, or the path is
  empty and it starts with the question mark; it has no NUL.\<close>

definition uri_input :: "byte list \<Rightarrow> http_request \<Rightarrow> bool" where
  "uri_input buf r \<longleftrightarrow> (case (r_uri_start r, r_uri_end r) of
     (Some us, Some ue) \<Rightarrow> us < ue \<and> ue \<le> length buf \<and> NUL \<notin> set (slice us ue buf)
       \<and> buf ! us = (if r_empty_path_in_uri r then b_qm else b_slash)
   | _ \<Rightarrow> False)"

lemma cu_run_input:
  assumes "uri_input buf r" "cap > 0"
    and "cu_run cap ms (slice (the (r_uri_start r)) (the (r_uri_end r)) buf) (cu_init r) = (res, rest)"
  shows "cu_res_ok res"
proof -
  obtain us ue where u: "r_uri_start r = Some us" "r_uri_end r = Some ue" "us < ue" "ue \<le> length buf"
      "NUL \<notin> set (slice us ue buf)" "buf ! us = (if r_empty_path_in_uri r then b_qm else b_slash)"
    using assms(1) by (auto simp: uri_input_def split: option.splits)
  have l: "slice us ue buf = buf ! us # slice (Suc us) ue buf" using u by (simp add: slice_Cons)
  show ?thesis
  proof (cases "r_empty_path_in_uri r")
    case True
    with u l assms(3) cu_first_qm [OF True] show ?thesis by (auto simp: cu_res_ok_def)
  next
    case False
    obtain s where s: "cu_step cap ms b_slash (cu_init r) = CU_next s" "cu_inv s"
      using cu_first_slash [OF assms(2) False] .
    with False u l assms(3) have "cu_run cap ms (slice (Suc us) ue buf) s = (res, rest)" by simp
    moreover have "NUL \<notin> set (slice (Suc us) ue buf)" using u(5) l by auto
    ultimately show ?thesis using s cu_run_ok by blast
  qed
qed

section \<open>No write outside the allocation\<close>

lemma cu_back_length: "cu_back xs = Some ys \<Longrightarrow> length ys \<le> length xs"
  using cu_back_Some by fastforce

lemma cu_parent_length: "cu_parent s = Some s' \<Longrightarrow> length (cu_out s') \<le> length (cu_out s)"
  by (auto simp: cu_parent_def dest!: cu_back_length)

lemma cu_put_cases:
  "cu_put cap ch s = CU_next s' \<Longrightarrow> length (cu_out s') = Suc (length (cu_out s)) \<and> cu_state s' = cu_state s"
  "cu_put cap ch s = CU_overrun \<Longrightarrow> cap \<le> length (cu_out s)"
  "cu_put cap ch s \<noteq> CU_args s'" "cu_put cap ch s \<noteq> CU_done s'" "cu_put cap ch s \<noteq> CU_invalid s'"
  by (auto simp: cu_put_def split: if_splits)

lemmas cu_plain_defs = cu_usual_step_def cu_slash_step_def cu_dot_step_def cu_dot_dot_step_def

lemma cu_plain_step_length:
  "cu_plain_step cap ms st ch s = CU_next s' \<Longrightarrow> length (cu_out s') \<le> Suc (length (cu_out s))"
  by (cases st) (auto simp: cu_plain_defs split: if_splits option.splits
      dest!: cu_put_cases(1) cu_parent_length)

lemma cu_plain_step_overrun: "cu_plain_step cap ms st ch s = CU_overrun \<Longrightarrow> cap \<le> length (cu_out s)"
  by (cases st) (auto simp: cu_plain_defs split: if_splits option.splits dest!: cu_put_cases(2))

lemma cu_step_length: "cu_step cap ms ch s = CU_next s' \<Longrightarrow> length (cu_out s') \<le> Suc (length (cu_out s))"
  by (auto simp: cu_step_def cu_quoted_step_def cu_quoted_second_step_def Let_def
      split: cu_sw.splits if_splits dest!: cu_put_cases(1) cu_plain_step_length)

lemma cu_step_overrun: "cu_step cap ms ch s = CU_overrun \<Longrightarrow> cap \<le> length (cu_out s)"
  by (auto simp: cu_step_def cu_quoted_step_def cu_quoted_second_step_def Let_def
      split: cu_sw.splits if_splits dest!: cu_put_cases(2) cu_plain_step_overrun)

lemma cu_finish_no_overrun: "cu_finish s \<noteq> CU_overrun"
  by (auto simp: cu_finish_def split: cu_sw.split cu_plain.split option.split)

lemma cu_run_no_overrun:
  "length (cu_out s) + length l \<le> cap \<Longrightarrow> fst (cu_run cap ms l s) \<noteq> CU_overrun"
proof (induction l arbitrary: s)
  case Nil
  then show ?case by (simp add: cu_finish_no_overrun)
next
  case (Cons ch l)
  show ?case
  proof (cases "cu_step cap ms ch s")
    case (CU_next s')
    with Cons cu_step_length [OF CU_next] show ?thesis by simp
  next
    case CU_overrun
    with Cons cu_step_overrun [OF CU_overrun] show ?thesis by simp
  qed auto
qed

text \<open>A question mark that no percent sign precedes ends the copy, so the room before it is
  enough.\<close>

lemma cu_plain_step_state:
  "cu_plain_step cap ms st ch s = CU_next s' \<Longrightarrow> ch \<noteq> b_pct \<Longrightarrow> cu_state s = CU_plain st
     \<Longrightarrow> \<exists>st'. cu_state s' = CU_plain st'"
  by (cases st) (auto simp: cu_plain_defs split: if_splits option.splits dest!: cu_put_cases(1))

lemma cu_run_no_overrun_qm:
  "length (cu_out s) + length l1 \<le> cap \<Longrightarrow> b_pct \<notin> set l1 \<Longrightarrow> cu_state s = CU_plain st
     \<Longrightarrow> fst (cu_run cap ms (l1 @ b_qm # l2) s) \<noteq> CU_overrun"
proof (induction l1 arbitrary: s st)
  case Nil
  then show ?case
    by (cases st) (auto simp: cu_step_def cu_plain_defs usual_ch_special split: option.splits)
next
  case (Cons ch l1)
  show ?case
  proof (cases "cu_step cap ms ch s")
    case (CU_next s')
    then have "\<exists>st'. cu_state s' = CU_plain st'"
      using Cons.prems cu_plain_step_state by (auto simp: cu_step_def)
    with CU_next Cons cu_step_length [OF CU_next] show ?thesis by fastforce
  next
    case CU_overrun
    with Cons cu_step_overrun [OF CU_overrun] show ?thesis by simp
  qed auto
qed
end
