(* ===== verification/Http_Request_Uri.thy ===== *)
theory Http_Request_Uri
  imports Http_Request_Line Http_Uri
begin

text \<open>
  The request line and the URI normalisation together: what
  \<open>ngx_http_parse_request_line\<close> accepts is what \<open>ngx_http_parse_complex_uri\<close> relies on, the
  buffer \<open>ngx_http_process_request_uri\<close> allocates is large enough, and a URI that skips the
  normalisation needs none.
\<close>

section \<open>Paths that need no normalisation\<close>

lemma simple_path_tail_segments:
  "no_slash_pair s \<Longrightarrow> g \<in> set (tl (segments s)) \<Longrightarrow> g \<notin> dot_segments"
proof (induction s rule: no_slash_pair.induct)
  case (1 a b s)
  obtain h hs where seg: "segments (b # s) = h # hs" by (meson list.exhaust segments_nonempty)
  have head: "b \<noteq> b_dot \<Longrightarrow> h \<notin> dot_segments"
    using seg by (auto simp: dot_segments_def split: if_splits list.splits)
  have IH: "g \<in> set hs \<Longrightarrow> g \<notin> dot_segments" using 1 seg by auto
  show ?case
  proof (cases "a = b_slash")
    case True
    with 1 seg have "g \<in> set (h # hs)" "b \<noteq> b_dot" by auto
    with IH head show ?thesis by auto
  next
    case False
    with 1 seg have "g \<in> set hs" by (simp del: segments.simps(2) add: segments.simps(2)[of a])
    with IH show ?thesis .
  qed
qed (auto simp: dot_segments_def split: if_splits)

lemma simple_path_normal:
  assumes "simple_path s" "take 1 s = [b_slash]"
  shows "normal_path s"
proof -
  obtain t where s: "s = b_slash # t" using assms(2) by (cases s) auto
  have "g \<notin> dot_segments" if "g \<in> set (segments s)" for g
    using that assms(1) simple_path_tail_segments [of s g] s
    by (auto simp: simple_path_def dot_segments_def)
  with assms(2) show ?thesis by (auto simp: normal_path_def)
qed

lemma clean_no_NUL: "list_all clean_ch s \<Longrightarrow> NUL \<notin> set s"
  by (auto simp: list_all_iff clean_ch_def control_ch_def)

section \<open>The room for the copy\<close>

text \<open>What the request line delivers is what \<open>ngx_http_parse_complex_uri\<close> expects.\<close>

lemma uri_facts_input:
  assumes "uri_facts buf u e r" "r_uri_start r = Some u" "r_uri_end r = Some e" "e \<le> length buf"
  shows "uri_input buf r"
  using assms clean_no_NUL [of "slice u e buf"]
  by (simp add: uri_facts_def uri_input_def)

lemma complex_uri_fits:
  assumes f: "uri_facts buf u e r" and r: "r_uri_start r = Some u" "r_uri_end r = Some e" "e \<le> length buf"
    and same: "r_empty_path_in_uri r' = r_empty_path_in_uri r"
  shows "fst (cu_run (request_uri_alloc r) ms (slice u e buf) (cu_init r')) \<noteq> CU_overrun"
proof -
  have len: "length (cu_out (cu_init r')) = (if r_empty_path_in_uri r then 1 else 0)"
      "cu_state (cu_init r') = CU_plain cu_usual"
    using same by (auto simp: cu_init_def)
  show ?thesis
  proof (cases "r_args_start r")
    case None
    then have "length (cu_out (cu_init r')) + length (slice u e buf) \<le> request_uri_alloc r"
      using len r by (simp add: request_uri_alloc_def request_uri_len_def length_slice)
    then show ?thesis by (rule cu_run_no_overrun)
  next
    case (Some a)
    with f have a: "u < a" "a \<le> e" "buf ! (a - 1) = b_qm" "simple_path (slice u (a - 1) buf)"
      by (auto simp: uri_facts_def)
    have "slice u e buf = slice u (a - 1) buf @ slice (a - 1) e buf"
      using a by (intro slice_split) auto
    also have "slice (a - 1) e buf = b_qm # slice a e buf"
      using a r(3) slice_Cons [of "a - 1" e buf] by simp
    finally have split: "slice u e buf = slice u (a - 1) buf @ b_qm # slice a e buf" .
    have "b_pct \<notin> set (slice u (a - 1) buf)" using a(4) by (auto simp: simple_path_def list_all_iff)
    moreover have "length (cu_out (cu_init r')) + length (slice u (a - 1) buf) \<le> request_uri_alloc r"
      using len r Some a by (auto simp: request_uri_alloc_def request_uri_len_def length_slice)
    ultimately show ?thesis unfolding split using len(2) by (intro cu_run_no_overrun_qm)
  qed
qed

text \<open>A request whose path is \<open>/\<close> alone up to the arguments has room for it too.\<close>

lemma request_uri_alloc_pos:
  assumes "uri_facts buf u e r" "r_uri_start r = Some u" "r_uri_end r = Some e"
  shows "request_uri_alloc r > 0"
proof (cases "r_args_start r")
  case None
  with assms show ?thesis by (simp add: request_uri_alloc_def request_uri_len_def uri_facts_def)
next
  case (Some a)
  with assms have "a - 1 = u \<Longrightarrow> r_empty_path_in_uri r"
    by (auto simp: uri_facts_def split: if_splits)
  with Some assms show ?thesis
    by (cases "a - 1 = u") (auto simp: request_uri_alloc_def request_uri_len_def uri_facts_def)
qed

lemma complex_uri_normal:
  assumes f: "uri_facts buf u e r" and r: "r_uri_start r = Some u" "r_uri_end r = Some e" "e \<le> length buf"
  shows "case ngx_http_parse_complex_uri (request_uri_alloc r) buf r ms of
      URI_ok r' \<Rightarrow> normal_path (r_uri r') \<and> NUL \<notin> set (r_uri r')
    | URI_invalid r' \<Rightarrow> True | URI_overrun \<Rightarrow> False"
proof -
  let ?r = "r\<lparr>r_uri_ext := None, r_args_start := None\<rparr>"
  obtain res rest where run: "cu_run (request_uri_alloc r) ms (slice u e buf) (cu_init ?r) = (res, rest)"
    by fastforce
  have inp: "uri_input buf ?r" using uri_facts_input [OF assms] r by (simp add: uri_input_def)
  have ok: "cu_res_ok res"
    using cu_run_input [OF inp request_uri_alloc_pos [OF f r(1,2)]] run r by simp
  have no: "res \<noteq> CU_overrun" using complex_uri_fits [OF f r, of ?r ms] run by simp
  have pos: "request_uri_alloc r \<noteq> 0" using request_uri_alloc_pos [OF f r(1,2)] by simp
  show ?thesis
    using run ok no pos r
    by (auto simp: ngx_http_parse_complex_uri_def Let_def cu_res_ok_def cu_final_def cu_store_def
        split: cu_res.split option.split)
qed

lemma process_request_uri_safe:
  assumes f: "uri_facts buf u e r" and r: "r_uri_start r = Some u" "r_uri_end r = Some e" "e \<le> length buf"
  shows "case ngx_http_process_request_uri alloc_ok ms buf r of
      URI_ok r' \<Rightarrow> normal_path (r_uri r') \<and> NUL \<notin> set (r_uri r')
    | URI_invalid r' \<Rightarrow> True | URI_overrun \<Rightarrow> False"
proof (cases "r_complex_uri r \<or> r_quoted_uri r \<or> r_empty_path_in_uri r")
  case True
  with complex_uri_normal [OF assms, of ms] show ?thesis
    by (auto simp: ngx_http_process_request_uri_def split: uri_result.splits)
next
  case False
  define n where "n = (case r_args_start r of Some a \<Rightarrow> a - 1 | None \<Rightarrow> e)"
  have slash: "buf ! u = b_slash" using f False by (simp add: uri_facts_def)
  have "u < n \<and> n \<le> e \<and> simple_path (slice u n buf)"
  proof (cases "r_args_start r")
    case None
    with f False show ?thesis by (auto simp: uri_facts_def n_def)
  next
    case (Some a)
    with f have "u < a" "a \<le> e" "buf ! (a - 1) = b_qm" "simple_path (slice u (a - 1) buf)"
      by (auto simp: uri_facts_def)
    moreover from this slash have "a - 1 \<noteq> u" by auto
    ultimately show ?thesis using Some by (auto simp: n_def)
  qed
  then have n: "u < n" "n \<le> e" "simple_path (slice u n buf)" by simp_all
  have "take 1 (slice u n buf) = [b_slash]"
    using n slash r(3) slice_Cons [of u n buf] by simp
  with n(3) have norm: "normal_path (slice u n buf)" by (rule simple_path_normal)
  have "list_all clean_ch (slice u e buf)" using f by (simp add: uri_facts_def)
  then have nul: "NUL \<notin> set (slice u n buf)"
    using clean_no_NUL slice_split [of u n e buf] n by auto
  have len: "u + request_uri_len r = n"
    using n f r by (auto simp: n_def uri_facts_def request_uri_len_def split: option.splits)
  show ?thesis
    using False norm nul r len
    by (simp add: ngx_http_process_request_uri_def Let_def)
qed

end
