(* ===== verification/Http_Header_Spec.thy ===== *)
theory Http_Header_Spec
  imports Http_Header
begin

text \<open>
  The header lines that \<open>ngx_http_parse_header_line\<close> accepts, as a grammar, and the proof that the
  parser accepts exactly these, stores the name and the value the grammar gives them, and computes
  the hash and the lower case copy of the name.
\<close>

section \<open>The lines accepted\<close>

definition value_ch :: "byte \<Rightarrow> bool" where
  "value_ch ch \<longleftrightarrow> ch \<noteq> CR \<and> ch \<noteq> LF \<and> ch \<noteq> NUL"

definition name_ok :: "byte list \<Rightarrow> bool" where
  "name_ok n \<longleftrightarrow> n \<noteq> [] \<and> list_all name_ch n"

text \<open>A value has no line break and no zero byte, and neither starts nor ends with a space.\<close>

definition value_ok :: "byte list \<Rightarrow> bool" where
  "value_ok v \<longleftrightarrow> list_all value_ch v \<and> (v = [] \<or> hd v \<noteq> SP \<and> last v \<noteq> SP)"

text \<open>A line up to the end of its value, with the offset of the value in it: \<open>name\<close> alone, or
  \<open>name:\<close>, spaces, the value, and spaces after a value that is not empty.\<close>

inductive line_text :: "byte list \<Rightarrow> byte list \<Rightarrow> nat \<Rightarrow> byte list \<Rightarrow> bool" where
  bare: "name_ok n \<Longrightarrow> line_text n [] (length n) n"
| full: "name_ok n \<Longrightarrow> value_ok v \<Longrightarrow> v \<noteq> [] \<or> m = 0
    \<Longrightarrow> line_text n v (Suc (length n + k)) (n @ b_colon # replicate k SP @ v @ replicate m SP)"

definition header_line :: "byte list \<Rightarrow> byte list \<Rightarrow> nat \<Rightarrow> byte list \<Rightarrow> bool" where
  "header_line n v off line \<longleftrightarrow> (\<exists>t j. line_text n v off t \<and> line = t @ replicate j CR @ [LF])"

text \<open>What the request records of a name.\<close>

definition noted :: "bool \<Rightarrow> byte list \<Rightarrow> u64 \<Rightarrow> nat \<Rightarrow> header_req \<Rightarrow> bool" where
  "noted au n hash i r \<longleftrightarrow> i < 32 \<and> length (hr_lowcase_header r) = 32
     \<and> (hr_invalid r \<longleftrightarrow> \<not> list_all (\<lambda>c. token_ch au c \<noteq> 0) n)
     \<and> (\<not> hr_invalid r \<longrightarrow> hash = foldl ngx_hash 0 (map (token_ch au) n) \<and> i = length n mod 32
          \<and> (length n \<le> 32 \<longrightarrow> take (length n) (hr_lowcase_header r) = map (token_ch au) n))"

lemma noted_note:
  assumes "noted au n hash i r" "name_note au (hash, i, r) ch = (hash', i', r')"
  shows "noted au (n @ [ch]) hash' i' r'"
proof (cases "token_ch au ch = 0")
  case True
  with assms show ?thesis by (auto simp: noted_def)
next
  case False
  have 1: "hash' = ngx_hash hash (token_ch au ch)" "i' = (i + 1) mod 32"
      "r' = r\<lparr>hr_lowcase_header := (hr_lowcase_header r)[i := token_ch au ch]\<rparr>"
    using assms(2) False by (auto simp: hl_lowcase_def)
  have 2: "i < 32" "length (hr_lowcase_header r) = 32"
    using assms(1) by (simp_all add: noted_def)
  have "take (Suc (length n)) ((hr_lowcase_header r)[i := token_ch au ch]) = map (token_ch au) n @ [token_ch au ch]"
    if "\<not> hr_invalid r" "length n < 32"
    using that assms(1) 2 by (simp add: noted_def take_Suc_conv_app_nth)
  moreover have "(i + 1) mod 32 = Suc (length n) mod 32" if "\<not> hr_invalid r"
    using that assms(1) by (simp add: noted_def mod_Suc_eq)
  ultimately show ?thesis
    using assms(1) False 2 by (auto simp: noted_def 1)
qed

text \<open>The invariant: what has been read since \<open>s\<close>, the start of the line.\<close>

fun hl_at :: "bool \<Rightarrow> nat \<Rightarrow> byte list \<Rightarrow> hl_conf \<Rightarrow> bool" where
  "hl_at au s L (hl_start, hash, i, r) \<longleftrightarrow> L = [] \<and> length (hr_lowcase_header r) = 32"
| "hl_at au s L (hl_name, hash, i, r) \<longleftrightarrow>
     name_ok L \<and> hr_name_start r = Some s \<and> noted au L hash i r"
| "hl_at au s L (hl_space_before_value, hash, i, r) \<longleftrightarrow>
     (\<exists>n k. L = n @ b_colon # replicate k SP \<and> name_ok n \<and> hr_name_start r = Some s
        \<and> hr_name_end r = Some (s + length n) \<and> noted au n hash i r)"
| "hl_at au s L (hl_value, hash, i, r) \<longleftrightarrow>
     (\<exists>n k v. L = n @ b_colon # replicate k SP @ v \<and> name_ok n \<and> value_ok v \<and> v \<noteq> []
        \<and> hr_name_start r = Some s \<and> hr_name_end r = Some (s + length n)
        \<and> hr_start r = Some (s + Suc (length n + k)) \<and> noted au n hash i r)"
| "hl_at au s L (hl_space_after_value, hash, i, r) \<longleftrightarrow>
     (\<exists>n k v m. L = n @ b_colon # replicate k SP @ v @ replicate m SP \<and> name_ok n \<and> value_ok v \<and> v \<noteq> []
        \<and> hr_name_start r = Some s \<and> hr_name_end r = Some (s + length n)
        \<and> hr_start r = Some (s + Suc (length n + k))
        \<and> hr_end r = Some (s + Suc (length n + k) + length v) \<and> noted au n hash i r)"
| "hl_at au s L (hl_almost_done, hash, i, r) \<longleftrightarrow>
     (\<exists>n v off t j. L = t @ replicate j CR \<and> line_text n v off t
        \<and> hr_name_start r = Some s \<and> hr_name_end r = Some (s + length n)
        \<and> hr_start r = Some (s + off) \<and> hr_end r = Some (s + off + length v) \<and> noted au n hash i r)"
| "hl_at au s L (hl_ignore_line, hash, i, r) \<longleftrightarrow> False"
| "hl_at au s L (hl_header_almost_done, hash, i, r) \<longleftrightarrow> True"

text \<open>What is known when a line is done.\<close>

definition hl_complete :: "bool \<Rightarrow> nat \<Rightarrow> byte list \<Rightarrow> u64 \<Rightarrow> nat \<Rightarrow> header_req \<Rightarrow> bool" where
  "hl_complete au s line hash i r \<longleftrightarrow>
     (\<exists>n v off. header_line n v off line \<and> hr_name_start r = Some s \<and> hr_name_end r = Some (s + length n)
        \<and> hr_start r = Some (s + off) \<and> hr_end r = Some (s + off + length v) \<and> noted au n hash i r)"

lemma noted_frame:
  "noted au n hash i (r\<lparr>hr_name_start := a\<rparr>) = noted au n hash i r"
  "noted au n hash i (r\<lparr>hr_name_end := a\<rparr>) = noted au n hash i r"
  "noted au n hash i (r\<lparr>hr_start := a\<rparr>) = noted au n hash i r"
  "noted au n hash i (r\<lparr>hr_end := a\<rparr>) = noted au n hash i r"
  by (simp_all add: noted_def)

section \<open>Accepted lines are in the grammar\<close>

lemma hl_at_beforeI:
  "name_ok n \<Longrightarrow> hr_name_start r = Some s \<Longrightarrow> hr_name_end r = Some (s + length n) \<Longrightarrow> noted au n hash i r
     \<Longrightarrow> hl_at au s (n @ b_colon # replicate k SP) (hl_space_before_value, hash, i, r)"
  by auto

lemma hl_at_valueI:
  "name_ok n \<Longrightarrow> value_ok v \<Longrightarrow> v \<noteq> [] \<Longrightarrow> hr_name_start r = Some s \<Longrightarrow> hr_name_end r = Some (s + length n)
     \<Longrightarrow> hr_start r = Some (s + Suc (length n + k)) \<Longrightarrow> noted au n hash i r
     \<Longrightarrow> hl_at au s (n @ b_colon # replicate k SP @ v) (hl_value, hash, i, r)"
  by auto

lemma hl_at_afterI:
  "name_ok n \<Longrightarrow> value_ok v \<Longrightarrow> v \<noteq> [] \<Longrightarrow> hr_name_start r = Some s \<Longrightarrow> hr_name_end r = Some (s + length n)
     \<Longrightarrow> hr_start r = Some (s + Suc (length n + k)) \<Longrightarrow> hr_end r = Some (s + Suc (length n + k) + length v)
     \<Longrightarrow> noted au n hash i r
     \<Longrightarrow> hl_at au s (n @ b_colon # replicate k SP @ v @ replicate m SP) (hl_space_after_value, hash, i, r)"
  by auto

lemma hl_at_almostI:
  "line_text n v off t \<Longrightarrow> hr_name_start r = Some s \<Longrightarrow> hr_name_end r = Some (s + length n)
     \<Longrightarrow> hr_start r = Some (s + off) \<Longrightarrow> hr_end r = Some (s + off + length v) \<Longrightarrow> noted au n hash i r
     \<Longrightarrow> hl_at au s (t @ replicate j CR) (hl_almost_done, hash, i, r)"
  unfolding hl_at.simps by blast

lemma hl_completeI:
  "line_text n v off t \<Longrightarrow> hr_name_start r = Some s \<Longrightarrow> hr_name_end r = Some (s + length n)
     \<Longrightarrow> hr_start r = Some (s + off) \<Longrightarrow> hr_end r = Some (s + off + length v) \<Longrightarrow> noted au n hash i r
     \<Longrightarrow> hl_complete au s (t @ replicate j CR @ [LF]) hash i r"
  unfolding hl_complete_def header_line_def by blast

text \<open>One step from each state: it keeps the invariant, or completes the line.\<close>

definition hl_after :: "bool \<Rightarrow> nat \<Rightarrow> byte list \<Rightarrow> hl_res \<Rightarrow> bool" where
  "hl_after au s L res \<longleftrightarrow>
     (case res of
        Next c \<Rightarrow> hl_at au s L c
      | Stop HL_done (st, hash, i, r) \<Rightarrow> hl_complete au s L hash i r
      | Stop _ _ \<Rightarrow> True)"

lemma hl_after_simps [simp]:
  "hl_after au s L (Next c) = hl_at au s L c"
  "hl_after au s L (Stop HL_done (st, hash, i, r)) = hl_complete au s L hash i r"
  "hl_after au s L (Stop HL_invalid c) = True" "hl_after au s L (Stop HL_header_done c) = True"
  by (simp_all add: hl_after_def)

lemma hl_after_start:
  assumes "length (hr_lowcase_header r) = 32"
  shows "hl_after au s [ch] (hl_start_step au s ch hash i r)"
proof (cases "name_ch ch")
  case True
  let ?r = "r\<lparr>hr_name_start := Some s, hr_invalid := False\<rparr>"
  obtain hash' i' r' where nt: "name_note au (0, 0, ?r) ch = (hash', i', r')" by (metis prod_cases3)
  have "noted au [] 0 0 ?r" using assms by (simp add: noted_def)
  from noted_note [OF this nt] have "noted au [ch] hash' i' r'" by simp
  moreover have "hr_name_start r' = Some s" using nt by (auto simp: hl_lowcase_def split: if_splits)
  ultimately show ?thesis using True nt hl_start_step_name [OF True, of au s hash i r] by (simp add: name_ok_def)
next
  case False
  then show ?thesis
    using low_name_ch [of ch] by (auto simp: hl_start_step_def Let_def lowcase_low name_ch_def)
qed

lemma lowcase_ends: "lowcase ! 10 = 0" "lowcase ! 13 = 0" "lowcase ! 58 = 0"
  using lowcase_low [of LF] lowcase_low [of CR] lowcase_low [of b_colon] by (simp_all add: low_not)

lemma hl_after_name:
  assumes "hl_at au s L (hl_name, hash, i, r)" "\<not> hr_upstream r" "p = s + length L"
  shows "hl_after au s (L @ [ch]) (hl_name_step au buf p ch hash i r)"
proof (cases "name_ch ch")
  case True
  obtain hash' i' r' where nt: "name_note au (hash, i, r) ch = (hash', i', r')" by (metis prod_cases3)
  have "noted au (L @ [ch]) hash' i' r'" using noted_note [OF _ nt] assms(1) by simp
  moreover have "hr_name_start r' = hr_name_start r" using nt by (auto simp: hl_lowcase_def split: if_splits)
  ultimately show ?thesis
    using True nt hl_name_step_name [OF True assms(2), of au buf p hash i] assms(1) by (simp add: name_ok_def)
next
  case False
  have n: "name_ok L" "hr_name_start r = Some s" "noted au L hash i r" using assms(1) by auto
  have bare: "line_text L [] (length L) L" using n(1) by (rule bare)
  from False consider (colon) "ch = b_colon" | (cr) "ch = CR" | (lf) "ch = LF"
    | (bad) "ch \<noteq> b_colon" "ch \<noteq> CR" "ch \<noteq> LF" by blast
  then show ?thesis
  proof cases
    case colon
    then show ?thesis
      using hl_at_beforeI [of L "r\<lparr>hr_name_end := Some p\<rparr>" s au hash i 0] n assms(3)
      by (simp add: hl_name_step_def Let_def lowcase_ends noted_frame del: hl_at.simps)
  next
    case cr
    then show ?thesis
      using hl_at_almostI [OF bare, of "r\<lparr>hr_name_end := Some p, hr_start := Some p, hr_end := Some p\<rparr>" s au hash i 1]
        n assms(3)
      by (simp add: hl_name_step_def Let_def lowcase_ends noted_frame del: hl_at.simps)
  next
    case lf
    then show ?thesis
      using hl_completeI [OF bare, of "r\<lparr>hr_name_end := Some p, hr_start := Some p, hr_end := Some p\<rparr>" s au hash i 0]
        n assms(3)
      by (simp add: hl_name_step_def Let_def lowcase_ends noted_frame)
  next
    case bad
    with False show ?thesis
      using assms(2) low_name_ch [of ch]
      by (auto simp: hl_name_step_def Let_def lowcase_low name_ch_def)
  qed
qed

lemma hl_after_space_before:
  assumes "hl_at au s L (hl_space_before_value, hash, i, r)" "p = s + length L"
  shows "hl_after au s (L @ [ch]) (hl_space_before_value_step p ch hash i r)"
proof -
  from assms(1) obtain n k where L: "L = n @ b_colon # replicate k SP" and n: "name_ok n"
      "hr_name_start r = Some s" "hr_name_end r = Some (s + length n)" "noted au n hash i r"
    by auto
  have empty: "line_text n [] (Suc (length n + k)) L"
    using full [OF n(1), of "[]" 0 k] by (simp add: L value_ok_def)
  let ?e = "r\<lparr>hr_start := Some p, hr_end := Some p\<rparr>"
  consider (sp) "ch = SP" | (cr) "ch = CR" | (lf) "ch = LF" | (nul) "ch = NUL"
    | (val) "ch \<noteq> SP" "value_ch ch" by (auto simp: value_ch_def)
  then show ?thesis
  proof cases
    case sp
    then show ?thesis
      using hl_at_beforeI [of n r s au hash i "Suc k"] n
      by (simp add: hl_space_before_value_step_def L replicate_append_same del: hl_at.simps)
  next
    case cr
    then show ?thesis
      using hl_at_almostI [OF empty, of ?e s au hash i 1] n assms(2)
      by (simp add: hl_space_before_value_step_def L noted_frame del: hl_at.simps)
  next
    case lf
    then show ?thesis
      using hl_completeI [OF empty, of ?e s au hash i 0] n assms(2)
      by (simp add: hl_space_before_value_step_def L noted_frame)
  next
    case nul
    then show ?thesis by (simp add: hl_space_before_value_step_def)
  next
    case val
    then have "value_ok [ch]" by (simp add: value_ok_def)
    then show ?thesis
      using hl_at_valueI [of n "[ch]" "r\<lparr>hr_start := Some p\<rparr>" s k au hash i] n val assms(2)
      by (simp add: hl_space_before_value_step_def L noted_frame value_ch_def del: hl_at.simps)
  qed
qed

lemma value_sp: "list_all value_ch (replicate m SP)"
  by (simp add: list_all_iff value_ch_def)

lemma value_ok_append: "value_ok v \<Longrightarrow> v \<noteq> [] \<Longrightarrow> ch \<noteq> SP \<Longrightarrow> value_ch ch \<Longrightarrow> value_ok (v @ replicate m SP @ [ch])"
  by (simp add: value_ok_def value_sp)

lemma hl_after_value:
  assumes "hl_at au s L (hl_value, hash, i, r)" "p = s + length L"
  shows "hl_after au s (L @ [ch]) (hl_value_step p ch hash i r)"
proof -
  from assms(1) obtain n k v where L: "L = n @ b_colon # replicate k SP @ v"
      and n: "name_ok n" "value_ok v" "v \<noteq> []" "hr_name_start r = Some s" "hr_name_end r = Some (s + length n)"
        "hr_start r = Some (s + Suc (length n + k))" "noted au n hash i r"
    by auto
  have ltx: "line_text n v (Suc (length n + k)) L"
    using full [OF n(1,2), of 0 k] by (simp add: L)
  let ?e = "r\<lparr>hr_end := Some p\<rparr>"
  consider (sp) "ch = SP" | (cr) "ch = CR" | (lf) "ch = LF" | (nul) "ch = NUL"
    | (val) "ch \<noteq> SP" "value_ch ch" by (auto simp: value_ch_def)
  then show ?thesis
  proof cases
    case sp
    then show ?thesis
      using hl_at_afterI [of n v ?e s k au hash i 1] n assms(2)
      by (simp add: hl_value_step_def L noted_frame del: hl_at.simps)
  next
    case cr
    then show ?thesis
      using hl_at_almostI [OF ltx, of ?e s au hash i 1] n assms(2)
      by (simp add: hl_value_step_def L noted_frame del: hl_at.simps)
  next
    case lf
    then show ?thesis
      using hl_completeI [OF ltx, of ?e s au hash i 0] n assms(2)
      by (simp add: hl_value_step_def L noted_frame)
  next
    case nul
    then show ?thesis by (simp add: hl_value_step_def)
  next
    case val
    then show ?thesis
      using hl_at_valueI [of n "v @ [ch]" r s k au hash i] n value_ok_append [of v ch 0]
      by (simp add: hl_value_step_def L value_ch_def del: hl_at.simps)
  qed
qed

lemma hl_after_space_after:
  assumes "hl_at au s L (hl_space_after_value, hash, i, r)"
  shows "hl_after au s (L @ [ch]) (hl_space_after_value_step p ch hash i r)"
proof -
  from assms obtain n k v m where L: "L = n @ b_colon # replicate k SP @ v @ replicate m SP"
      and n: "name_ok n" "value_ok v" "v \<noteq> []" "hr_name_start r = Some s" "hr_name_end r = Some (s + length n)"
        "hr_start r = Some (s + Suc (length n + k))" "hr_end r = Some (s + Suc (length n + k) + length v)"
        "noted au n hash i r"
    by auto
  have ltx: "line_text n v (Suc (length n + k)) L"
    using full [OF n(1,2), of m k] n(3) by (simp add: L)
  consider (sp) "ch = SP" | (cr) "ch = CR" | (lf) "ch = LF" | (nul) "ch = NUL"
    | (val) "ch \<noteq> SP" "value_ch ch" by (auto simp: value_ch_def)
  then show ?thesis
  proof cases
    case sp
    then show ?thesis
      using hl_at_afterI [of n v r s k au hash i "Suc m"] n
      by (simp add: hl_space_after_value_step_def L replicate_append_same del: hl_at.simps)
  next
    case cr
    then show ?thesis
      using hl_at_almostI [OF ltx, of r s au hash i 1] n
      by (simp add: hl_space_after_value_step_def L del: hl_at.simps)
  next
    case lf
    then show ?thesis
      using hl_completeI [OF ltx, of r s au hash i 0] n
      by (simp add: hl_space_after_value_step_def L)
  next
    case nul
    then show ?thesis by (simp add: hl_space_after_value_step_def)
  next
    case val
    then show ?thesis
      using hl_at_valueI [of n "v @ replicate m SP @ [ch]" r s k au hash i] n value_ok_append [of v ch m]
      by (simp add: hl_space_after_value_step_def L value_ch_def del: hl_at.simps)
  qed
qed



lemma hl_after_almost:
  assumes "hl_at au s L (hl_almost_done, hash, i, r)"
  shows "hl_after au s (L @ [ch]) (hl_step au buf p ch (hl_almost_done, hash, i, r))"
proof -
  from assms obtain n v off t j where L: "L = t @ replicate j CR" and n: "line_text n v off t"
      "hr_name_start r = Some s" "hr_name_end r = Some (s + length n)"
      "hr_start r = Some (s + off)" "hr_end r = Some (s + off + length v)" "noted au n hash i r"
    unfolding hl_at.simps by blast
  show ?thesis
    using hl_at_almostI [OF n, of "Suc j"] hl_completeI [OF n, of j]
    by (simp add: L replicate_append_same del: hl_at.simps)
qed

text \<open>The loop: bytes read since the start of the line, for a line of a client.\<close>

fun hl_inv :: "bool \<Rightarrow> nat \<Rightarrow> byte list \<Rightarrow> nat \<Rightarrow> hl_conf \<Rightarrow> bool" where
  "hl_inv au s buf p (st, hash, i, r) \<longleftrightarrow>
     s \<le> p \<and> \<not> hr_upstream r \<and> hl_at au s (slice s p buf) (st, hash, i, r)"

lemma hl_inv_after:
  assumes "hl_inv au s buf p (st, hash, i, r)" "p < length buf"
  shows "hl_after au s (slice s (Suc p) buf) (hl_step au buf p (buf ! p) (st, hash, i, r))"
proof -
  have L: "slice s (Suc p) buf = slice s p buf @ [buf ! p]" and p: "p = s + length (slice s p buf)"
    and inv: "hl_at au s (slice s p buf) (st, hash, i, r)" and up: "\<not> hr_upstream r"
    using assms by (simp_all add: slice_Suc length_slice)
  show ?thesis
  proof (cases st)
    case hl_start
    with inv p show ?thesis using hl_after_start [of r au s "buf ! s"] assms(2) by (simp add: slice_single)
  next
    case hl_name
    show ?thesis using hl_after_name [OF inv [unfolded hl_name] up p, of "buf ! p" buf] by (simp add: L hl_name del: hl_at.simps)
  next
    case hl_space_before_value
    show ?thesis using hl_after_space_before [OF inv [unfolded hl_space_before_value] p, of "buf ! p"] by (simp add: L hl_space_before_value del: hl_at.simps)
  next
    case hl_value
    show ?thesis using hl_after_value [OF inv [unfolded hl_value] p, of "buf ! p"] by (simp add: L hl_value del: hl_at.simps)
  next
    case hl_space_after_value
    show ?thesis using hl_after_space_after [OF inv [unfolded hl_space_after_value], of "buf ! p" p] by (simp add: L hl_space_after_value del: hl_at.simps)
  next
    case hl_almost_done
    show ?thesis using hl_after_almost [OF inv [unfolded hl_almost_done], of "buf ! p" buf p] by (simp add: L hl_almost_done del: hl_at.simps)
  qed (use inv in simp_all)
qed

lemma hl_step_upstream:
  "hl_step au buf p ch (st, hash, i, r) = Next (st', hash', i', r') \<Longrightarrow> hr_upstream r' = hr_upstream r"
  by (cases st) (auto simp: hl_start_step_def hl_name_step_def hl_space_before_value_step_def hl_value_step_def
      hl_space_after_value_step_def hl_lowcase_def Let_def split: if_splits)

interpretation hli: byte_machine_inv "hl_step au" "hl_inv au s" for au s
proof
  fix buf p and c c' :: hl_conf
  assume a: "hl_inv au s buf p c" "p < length buf" "hl_step au buf p (buf ! p) c = Next c'"
  obtain st hash i r st' hash' i' r' where c: "c = (st, hash, i, r)" "c' = (st', hash', i', r')"
    by (metis prod_cases4)
  have "hl_at au s (slice s (Suc p) buf) c'" using hl_inv_after [OF a(1) [unfolded c] a(2)] a(3) by (simp add: c)
  then show "hl_inv au s buf (Suc p) c'"
    using a hl_step_upstream [OF a(3) [unfolded c]] by (simp add: c del: hl_at.simps)
qed

lemma run_complete:
  assumes "run_bytes (hl_step au) buf s (hl_start, hash, i, r) = (Some HL_done, q, (st', hash', i', r'))"
    and "\<not> hr_upstream r" "length (hr_lowcase_header r) = 32"
  shows "s \<le> q \<and> q < length buf \<and> hl_complete au s (slice s (Suc q) buf) hash' i' r'"
proof -
  have "hl_inv au s buf s (hl_start, hash, i, r)" using assms by simp
  from hli.run_stop [OF assms(1) this] obtain c where q: "s \<le> q" "q < length buf" "hl_inv au s buf q c"
      "hl_step au buf q (buf ! q) c = Stop HL_done (st', hash', i', r')" by blast
  obtain st2 hash2 i2 r2 where c: "c = (st2, hash2, i2, r2)" by (metis prod_cases4)
  show ?thesis using hl_inv_after [OF q(3) [unfolded c] q(2)] q by (simp add: c)
qed

section \<open>Lines of the grammar are accepted\<close>

text \<open>Bytes of a value keep the parser in the states of a value.\<close>

definition value_state :: "hl_state \<Rightarrow> bool" where
  "value_state st \<longleftrightarrow> st \<in> {hl_space_before_value, hl_value, hl_space_after_value}"

lemma step_value:
  assumes "value_ch ch" "value_state st"
  shows "\<exists>st' hash' i' r'. value_state st' \<and> hl_step au buf p ch (st, hash, i, r) = Next (st', hash', i', r')"
  using assms
  by (cases "ch = SP") (auto simp: value_state_def value_ch_def hl_space_before_value_step_def hl_value_step_def
      hl_space_after_value_step_def)

lemma run_value:
  assumes "list_all value_ch w" "drop p buf = w @ rest" "value_state st"
  shows "\<exists>st' hash' i' r'. value_state st' \<and> run_bytes (hl_step au) buf p (st, hash, i, r)
    = run_bytes (hl_step au) buf (p + length w) (st', hash', i', r')"
  using assms
proof (induction w arbitrary: p st hash i r)
  case (Cons ch w)
  then have p: "p < length buf" "buf ! p = ch" "drop (Suc p) buf = w @ rest"
    using drop_ConsD [of p buf ch "w @ rest"] by simp_all
  obtain st1 hash1 i1 r1 where s: "value_state st1"
      "hl_step au buf p (buf ! p) (st, hash, i, r) = Next (st1, hash1, i1, r1)"
    using step_value [of "buf ! p" st au buf p hash i r] Cons.prems(1,3) p(2) by auto
  from Cons.IH [OF _ p(3) s(1), of hash1 i1 r1] Cons.prems(1) show ?case
    by (simp add: run_bytes_Next [of p buf "hl_step au", OF p(1) s(2)])
qed auto

lemma run_ends:
  assumes "drop p buf = replicate j CR @ LF # rest" "value_state st \<or> st = hl_name \<or> st = hl_almost_done"
  shows "\<exists>c. run_bytes (hl_step au) buf p (st, hash, i, r) = (Some HL_done, p + j, c)"
  using assms
proof (induction j arbitrary: p st hash i r)
  case 0
  then have p: "p < length buf" "buf ! p = LF" using drop_ConsD [of p buf LF rest] by simp_all
  then have "\<exists>c. hl_step au buf p (buf ! p) (st, hash, i, r) = Stop HL_done c"
    using 0(2) by (auto simp: value_state_def hl_name_step_def lowcase_ends Let_def
        hl_space_before_value_step_def hl_value_step_def hl_space_after_value_step_def)
  then show ?case using p by (auto simp: run_bytes_Stop)
next
  case (Suc j)
  then have p: "p < length buf" "buf ! p = CR" "drop (Suc p) buf = replicate j CR @ LF # rest"
    using drop_ConsD [of p buf CR "replicate j CR @ LF # rest"] by simp_all
  then have "\<exists>h i' r'. hl_step au buf p (buf ! p) (st, hash, i, r) = Next (hl_almost_done, h, i', r')"
    using Suc.prems(2) by (auto simp: value_state_def hl_name_step_def lowcase_ends Let_def
        hl_space_before_value_step_def hl_value_step_def hl_space_after_value_step_def)
  then obtain h i' r' where s: "hl_step au buf p (buf ! p) (st, hash, i, r) = Next (hl_almost_done, h, i', r')"
    by blast
  from Suc.IH [OF p(3), of hl_almost_done h i' r'] show ?case
    by (simp add: run_bytes_Next [of p buf "hl_step au", OF p(1) s])
qed

lemma run_line_name:
  assumes "name_ok n" "drop p buf = n @ rest" "\<not> hr_upstream r"
  shows "\<exists>hash' i' r'. run_bytes (hl_step au) buf p (hl_start, hash, i, r)
    = run_bytes (hl_step au) buf (p + length n) (hl_name, hash', i', r') \<and> \<not> hr_upstream r'"
proof -
  obtain ch w where n: "n = ch # w" "name_ch ch" "list_all name_ch w"
    using assms(1) by (cases n) (auto simp: name_ok_def)
  have p: "p < length buf" "buf ! p = ch" "drop (Suc p) buf = w @ rest"
    using assms(2) drop_ConsD [of p buf ch "w @ rest"] by (simp_all add: n)
  obtain h1 i1 r1 where s: "name_note au (0, 0, r\<lparr>hr_name_start := Some p, hr_invalid := False\<rparr>) ch = (h1, i1, r1)"
    by (metis prod_cases3)
  have up: "\<not> hr_upstream r1" using s assms(3) by (auto simp: hl_lowcase_def split: if_splits)
  obtain h2 i2 r2 where t: "foldl (name_note au) (h1, i1, r1) w = (h2, i2, r2)" by (metis prod_cases3)
  have len: "Suc p + length w \<le> length buf"
    using arg_cong [OF p(3), of length] p(1) by simp
  have "hl_step au buf p (buf ! p) (hl_start, hash, i, r) = Next (hl_name, h1, i1, r1)"
    using p(2) hl_start_step_name [OF n(2), of au p hash i r] s by simp
  then have "run_bytes (hl_step au) buf p (hl_start, hash, i, r) = run_bytes (hl_step au) buf (Suc p) (hl_name, h1, i1, r1)"
    by (rule run_bytes_Next [OF p(1)])
  also have "\<dots> = run_bytes (hl_step au) buf (p + length n) (hl_name, h2, i2, r2)"
    using run_name [OF n(3) p(3) up len, of au h1 i1] t by (simp add: n)
  finally show ?thesis using name_notes_frame [OF t] up by (auto simp: same_frame_def)
qed

lemma run_line:
  assumes "header_line n v off line" "drop p buf = line @ rest" "\<not> hr_upstream r"
  shows "\<exists>c. run_bytes (hl_step au) buf p (hl_start, hash, i, r) = (Some HL_done, p + length line - 1, c)"
proof -
  from assms(1) obtain t j where l: "line_text n v off t" "line = t @ replicate j CR @ [LF]"
    by (auto simp: header_line_def)
  from l(1) show ?thesis
  proof cases
    case bare
    with assms(2) l(2) have d: "drop p buf = n @ replicate j CR @ LF # rest" by simp
    obtain h1 i1 r1 where 1: "run_bytes (hl_step au) buf p (hl_start, hash, i, r)
        = run_bytes (hl_step au) buf (p + length n) (hl_name, h1, i1, r1)"
      using run_line_name [OF bare(4) d assms(3)] by blast
    have "drop (p + length n) buf = replicate j CR @ LF # rest"
      using d by (rule drop_appendD)
    moreover have "p + length line - 1 = p + length n + j" by (simp add: l(2) bare)
    ultimately show ?thesis using run_ends [of "p + length n" buf j rest hl_name au h1 i1 r1] 1 by simp
  next
    case (full m k)
    let ?w = "replicate k SP @ v @ replicate m SP"
    have d: "drop p buf = n @ b_colon # ?w @ replicate j CR @ LF # rest" using assms(2) l(2) full by simp
    obtain h1 i1 r1 where 1: "run_bytes (hl_step au) buf p (hl_start, hash, i, r)
        = run_bytes (hl_step au) buf (p + length n) (hl_name, h1, i1, r1)"
      using run_line_name [OF full(3) d assms(3)] by blast
    have "drop (p + length n) buf = b_colon # ?w @ replicate j CR @ LF # rest"
      using d by (rule drop_appendD)
    from drop_ConsD [OF this] have q: "p + length n < length buf" "buf ! (p + length n) = b_colon"
        "drop (Suc (p + length n)) buf = ?w @ replicate j CR @ LF # rest"
      by simp_all
    have 2: "run_bytes (hl_step au) buf (p + length n) (hl_name, h1, i1, r1)
        = run_bytes (hl_step au) buf (Suc (p + length n)) (hl_space_before_value, h1, i1, r1\<lparr>hr_name_end := Some (p + length n)\<rparr>)"
      by (rule run_bytes_Next [OF q(1)]) (simp add: q(2) hl_name_step_def Let_def lowcase_ends)
    have "list_all value_ch ?w" using full(4) by (simp add: value_ok_def value_sp)
    moreover have "value_state hl_space_before_value" by (simp add: value_state_def)
    ultimately obtain st' h' i' r' where 3: "value_state st'"
      "run_bytes (hl_step au) buf (Suc (p + length n)) (hl_space_before_value, h1, i1, r1\<lparr>hr_name_end := Some (p + length n)\<rparr>)
       = run_bytes (hl_step au) buf (Suc (p + length n) + length ?w) (st', h', i', r')"
      using run_value [OF _ q(3)] by blast
    have "drop (Suc (p + length n) + length ?w) buf = replicate j CR @ LF # rest"
      using q(3) by (rule drop_appendD)
    moreover have "p + length line - 1 = Suc (p + length n) + length ?w + j" by (simp add: l(2) full)
    ultimately show ?thesis
      using run_ends [of "Suc (p + length n) + length ?w" buf j rest st' au h' i' r'] 1 2 3 by simp
  qed
qed

section \<open>A line has one reading\<close>

definition trim_sp :: "byte list \<Rightarrow> byte list" where
  "trim_sp w = rev (dropWhile ((=) SP) (rev (dropWhile ((=) SP) w)))"

lemma dropWhile_SP: "v \<noteq> [] \<Longrightarrow> hd v \<noteq> SP \<Longrightarrow> dropWhile ((=) SP) (replicate k SP @ v) = v"
  by (induction k) (cases v; simp)+

lemma trim_value:
  assumes "value_ok v" "v \<noteq> [] \<or> m = 0"
  shows "trim_sp (replicate k SP @ v @ replicate m SP) = v"
    and "takeWhile ((=) SP) (replicate k SP @ v @ replicate m SP) = replicate k SP"
proof -
  show "trim_sp (replicate k SP @ v @ replicate m SP) = v"
  proof (cases "v = []")
    case True
    with assms(2) show ?thesis by (simp add: trim_sp_def)
  next
    case False
    with assms(1) have v: "hd v \<noteq> SP" "hd (rev v) \<noteq> SP" "rev v \<noteq> []" by (simp_all add: value_ok_def hd_rev)
    have "dropWhile ((=) SP) (replicate k SP @ v @ replicate m SP) = v @ replicate m SP"
      using dropWhile_SP [of "v @ replicate m SP" k] False v by simp
    then show ?thesis using dropWhile_SP [of "rev v" m] v by (simp add: trim_sp_def)
  qed
  show "takeWhile ((=) SP) (replicate k SP @ v @ replicate m SP) = replicate k SP"
    using assms by (induction k) (cases v; simp add: value_ok_def)+
qed

lemma takeWhile_stop: "list_all P w \<Longrightarrow> \<not> P c \<Longrightarrow> takeWhile P (w @ c # xs) = w"
  by (simp add: takeWhile_append2 list_all_iff)

lemma line_reading:
  assumes "header_line n v off line"
  shows "n = takeWhile name_ch line"
    and "v = (if line ! length n = b_colon then trim_sp (takeWhile value_ch (drop (Suc (length n)) line)) else [])"
    and "off = (if line ! length n = b_colon
      then Suc (length n + length (takeWhile ((=) SP) (takeWhile value_ch (drop (Suc (length n)) line)))) else length n)"
proof -
  from assms obtain t j where l: "line_text n v off t" "line = t @ replicate j CR @ [LF]"
    by (auto simp: header_line_def)
  obtain c xs where e: "replicate j CR @ [LF] = c # xs" "c = CR \<or> c = LF" by (cases j) auto
  then have c: "\<not> name_ch c" "\<not> value_ch c" "c \<noteq> b_colon" by (auto simp: name_ch_def value_ch_def)
  from l(1) have "n = takeWhile name_ch line
    \<and> v = (if line ! length n = b_colon then trim_sp (takeWhile value_ch (drop (Suc (length n)) line)) else [])
    \<and> off = (if line ! length n = b_colon
      then Suc (length n + length (takeWhile ((=) SP) (takeWhile value_ch (drop (Suc (length n)) line)))) else length n)"
  proof cases
    case bare
    then show ?thesis using takeWhile_stop [of name_ch n c xs] c by (simp add: l(2) e(1) name_ok_def)
  next
    case (full m k)
    let ?w = "replicate k SP @ v @ replicate m SP"
    have line: "line = n @ b_colon # ?w @ c # xs" using full l(2) e(1) by simp
    have "\<not> name_ch b_colon" by (simp add: name_ch_def)
    then have n: "takeWhile name_ch line = n"
      unfolding line using full(3) by (intro takeWhile_stop) (simp_all add: name_ok_def)
    have "list_all value_ch ?w" using full(4) by (simp add: value_ok_def value_sp)
    then have w: "takeWhile value_ch (?w @ c # xs) = ?w" using c(2) by (rule takeWhile_stop)
    have "drop (Suc (length n)) line = ?w @ c # xs" "line ! length n = b_colon" by (simp_all only: line) simp_all
    then show ?thesis using n w trim_value [OF full(4,5)] full(1) by simp
  qed
  then show "n = takeWhile name_ch line"
    and "v = (if line ! length n = b_colon then trim_sp (takeWhile value_ch (drop (Suc (length n)) line)) else [])"
    and "off = (if line ! length n = b_colon
      then Suc (length n + length (takeWhile ((=) SP) (takeWhile value_ch (drop (Suc (length n)) line)))) else length n)"
    by blast+
qed

lemma line_reading_unique:
  "header_line n v off line \<Longrightarrow> header_line n' v' off' line \<Longrightarrow> n' = n \<and> v' = v \<and> off' = off"
  using line_reading [of n v off line] line_reading [of n' v' off' line] by simp

lemma line_slices:
  assumes "header_line n v off line" "drop s buf = line @ rest"
  shows "slice s (s + length n) buf = n" "slice (s + off) (s + off + length v) buf = v"
proof -
  from assms(1) obtain t j where l: "line_text n v off t" "line = t @ replicate j CR @ [LF]"
    by (auto simp: header_line_def)
  have "\<exists>y. line = n @ y" using l by (cases rule: line_text.cases) auto
  then show "slice s (s + length n) buf = n" using assms(2) by (auto simp: slice_def)
  have "\<exists>x y. line = x @ v @ y \<and> length x = off"
    using l(1)
  proof cases
    case bare
    then show ?thesis using l(2) by auto
  next
    case (full m k)
    then show ?thesis
      using l(2) by (intro exI [of _ "n @ b_colon # replicate k SP"] exI [of _ "replicate m SP @ replicate j CR @ [LF]"]) simp
  qed
  then obtain x y where x: "line = x @ v @ y" "length x = off" by blast
  have "drop (s + off) buf = v @ y @ rest"
    using assms(2) x drop_appendD [of s buf x "v @ y @ rest"] by simp
  then show "slice (s + off) (s + off + length v) buf = v" by (simp add: slice_def)
qed

section \<open>Header lines, exactly\<close>

definition hl_stored :: "bool \<Rightarrow> ngx_buf \<Rightarrow> byte list \<Rightarrow> byte list \<Rightarrow> header_req \<Rightarrow> bool" where
  "hl_stored au b n v r \<longleftrightarrow> hr_name_start r = Some (b_pos b)
     \<and> slice (the (hr_name_start r)) (the (hr_name_end r)) (b_data b) = n
     \<and> slice (the (hr_start r)) (the (hr_end r)) (b_data b) = v
     \<and> noted au n (hr_hash r) (hr_lowcase_index r) r"

lemma header_line_accepts:
  assumes r: "\<not> hr_upstream r" "hr_state r = hl_start" "length (hr_lowcase_header r) = 32"
    and l: "header_line n v off line" "drop (b_pos b) (b_data b) = line @ rest"
  shows "\<exists>r'. ngx_http_parse_header_line au r b = (NGX_OK, r', b\<lparr>b_pos := b_pos b + length line\<rparr>)
    \<and> hl_stored au b n v r'"
proof -
  let ?s = "b_pos b" and ?buf = "b_data b"
  have len: "length line > 0" using l(1) by (auto simp: header_line_def)
  from run_line [OF l r(1), of au "hr_hash r" "hr_lowcase_index r"] obtain st hash i r2 where
    run: "run_bytes (hl_step au) ?buf ?s (hl_start, hr_hash r, hr_lowcase_index r, r)
      = (Some HL_done, ?s + length line - 1, (st, hash, i, r2))"
    by (metis prod_cases4)
  have "slice ?s (Suc (?s + length line - 1)) ?buf = line" using l(2) len by (simp add: slice_def)
  then have "hl_complete au ?s line hash i r2" using run_complete [OF run r(1,3)] by simp
  then obtain n' v' off' where c: "header_line n' v' off' line" "hr_name_start r2 = Some ?s"
      "hr_name_end r2 = Some (?s + length n')" "hr_start r2 = Some (?s + off')"
      "hr_end r2 = Some (?s + off' + length v')" "noted au n' hash i r2"
    unfolding hl_complete_def by blast
  have n: "n' = n" "v' = v" "off' = off" using line_reading_unique [OF l(1) c(1)] by simp_all
  have "hl_stored au b n v (r2\<lparr>hr_state := hl_start, hr_hash := hash, hr_lowcase_index := i\<rparr>)"
    using line_slices [OF l] c by (simp add: hl_stored_def n noted_def)
  then show ?thesis using run len r(2) by (simp add: ngx_http_parse_header_line_def)
qed

lemma header_line_sound:
  assumes r: "\<not> hr_upstream r" "hr_state r = hl_start" "length (hr_lowcase_header r) = 32"
    and "ngx_http_parse_header_line au r b = (NGX_OK, r', b')"
  shows "\<exists>n v off line rest. header_line n v off line \<and> drop (b_pos b) (b_data b) = line @ rest"
proof -
  let ?s = "b_pos b" and ?buf = "b_data b"
  obtain q st hash i r2 where
    run: "run_bytes (hl_step au) ?buf ?s (hl_start, hr_hash r, hr_lowcase_index r, r)
      = (Some HL_done, q, (st, hash, i, r2))"
    using assms(2,4) by (auto simp: ngx_http_parse_header_line_def split: prod.splits option.splits hl_exit.splits)
  then obtain n v off where "header_line n v off (slice ?s (Suc q) ?buf)"
    using run_complete [OF run r(1,3)] by (auto simp: hl_complete_def)
  moreover have "drop ?s ?buf = slice ?s (Suc q) ?buf @ drop (Suc q - ?s) (drop ?s ?buf)"
    by (simp only: slice_def append_take_drop_id)
  ultimately show ?thesis by blast
qed

text \<open>
  C15: The header lines a client may send, exactly. Called at the start of a line, the parser returns
  \<open>NGX_OK\<close> just when the bytes received begin with a line of the grammar: a name without control
  characters, spaces, DEL or colons, optionally a colon, spaces, a value without line breaks and
  zero bytes that neither starts nor ends with a space, spaces, and the end of the line. It then
  consumes that line and nothing more, the offsets it stores delimit the name and the value of the
  grammar, \<open>invalid_header\<close> tells whether the name has a byte other than letters, digits, minus
  and (if allowed) underscore, and for the other names the hash is the hash of the name in lower
  case, of which \<open>lowcase_header\<close> is a copy if it fits its 32 bytes.
\<close>

theorem header_line_exact:
  assumes "\<not> hr_upstream r" "hr_state r = hl_start" "length (hr_lowcase_header r) = 32"
    and "ngx_http_parse_header_line au r b = (rc, r', b')"
  shows "(rc = NGX_OK \<longleftrightarrow> (\<exists>n v off line rest. header_line n v off line \<and> drop (b_pos b) (b_data b) = line @ rest))
    \<and> (\<forall>n v off line rest. header_line n v off line \<longrightarrow> drop (b_pos b) (b_data b) = line @ rest \<longrightarrow>
         b' = b\<lparr>b_pos := b_pos b + length line\<rparr> \<and> hl_stored au b n v r')"
proof (intro conjI allI impI iffI)
  assume "rc = NGX_OK"
  with assms show "\<exists>n v off line rest. header_line n v off line \<and> drop (b_pos b) (b_data b) = line @ rest"
    by (intro header_line_sound) simp_all
next
  assume "\<exists>n v off line rest. header_line n v off line \<and> drop (b_pos b) (b_data b) = line @ rest"
  then obtain n v off line rest where l: "header_line n v off line" "drop (b_pos b) (b_data b) = line @ rest"
    by blast
  from header_line_accepts [OF assms(1-3) l, of au] assms(4) show "rc = NGX_OK" by auto
next
  fix n v off line rest
  assume "header_line n v off line" "drop (b_pos b) (b_data b) = line @ rest"
  from header_line_accepts [OF assms(1-3) this, of au] assms(4)
  show "b' = b\<lparr>b_pos := b_pos b + length line\<rparr>" "hl_stored au b n v r'" by auto
qed

section \<open>Reading a line in pieces\<close>

text \<open>A step uses its local copies of the state, the hash and the index.\<close>

definition hl_saved :: "hl_state \<Rightarrow> u64 \<Rightarrow> nat \<Rightarrow> header_req \<Rightarrow> header_req" where
  "hl_saved x y z r = r\<lparr>hr_state := x, hr_hash := y, hr_lowcase_index := z\<rparr>"

lemma hl_saved_fields:
  "hr_upstream (hl_saved x y z r) = hr_upstream r" "hr_name_start (hl_saved x y z r) = hr_name_start r"
  "hr_lowcase_header (hl_saved x y z r) = hr_lowcase_header r"
  "(hl_saved x y z r)\<lparr>hr_name_start := a\<rparr> = hl_saved x y z (r\<lparr>hr_name_start := a\<rparr>)"
  "(hl_saved x y z r)\<lparr>hr_name_end := a\<rparr> = hl_saved x y z (r\<lparr>hr_name_end := a\<rparr>)"
  "(hl_saved x y z r)\<lparr>hr_start := a\<rparr> = hl_saved x y z (r\<lparr>hr_start := a\<rparr>)"
  "(hl_saved x y z r)\<lparr>hr_end := a\<rparr> = hl_saved x y z (r\<lparr>hr_end := a\<rparr>)"
  "(hl_saved x y z r)\<lparr>hr_invalid := t\<rparr> = hl_saved x y z (r\<lparr>hr_invalid := t\<rparr>)"
  "(hl_saved x y z r)\<lparr>hr_lowcase_header := l\<rparr> = hl_saved x y z (r\<lparr>hr_lowcase_header := l\<rparr>)"
  by (simp_all add: hl_saved_def)

lemma hl_step_saved:
  "hl_step au buf p ch (st, hash, i, hl_saved x y z r) =
     (case hl_step au buf p ch (st, hash, i, r) of
        Next (st', hash', i', r') \<Rightarrow> Next (st', hash', i', hl_saved x y z r')
      | Stop e (st', hash', i', r') \<Rightarrow> Stop e (st', hash', i', hl_saved x y z r'))"
  by (cases st) (simp_all add: hl_start_step_def hl_name_step_def hl_space_before_value_step_def hl_value_step_def
      hl_space_after_value_step_def hl_lowcase_def Let_def hl_saved_fields)

lemma run_saved:
  "run_bytes (hl_step au) buf p (st, hash, i, hl_saved x y z r) =
     (case run_bytes (hl_step au) buf p (st, hash, i, r) of
        (e, q, (st', hash', i', r')) \<Rightarrow> (e, q, (st', hash', i', hl_saved x y z r')))"
proof -
  let ?f = "\<lambda>(st, hash, i, r). (st, hash, i, hl_saved x y z r)"
  have "hl_step au buf p (buf ! p) (?f c) = (case hl_step au buf p (buf ! p) c of
      Next c' \<Rightarrow> Next (?f c') | Stop e c' \<Rightarrow> Stop e (?f c'))" for p c
    by (cases c) (auto simp: hl_step_saved split: step_res.split)
  from run_bytes_map [of "hl_step au" buf ?f, OF this, of p "(st, hash, i, r)"] show ?thesis
    by (simp add: case_prod_unfold)
qed

text \<open>
  C19: Header lines, of clients and of upstream servers, may arrive in any number of reads: if a call
  on the bytes received so far returns \<open>NGX_AGAIN\<close>, the next call, made when \<open>ys\<close> has arrived,
  returns what a single call on all the bytes returns, and leaves the same request and the same
  buffer whenever that is \<open>NGX_OK\<close> or \<open>NGX_AGAIN\<close>.
\<close>

theorem header_line_resume:
  assumes "ngx_http_parse_header_line au r b = (NGX_AGAIN, r1, b1)"
    and "ngx_http_parse_header_line au r1 (b1\<lparr>b_data := b_data b @ ys\<rparr>) = (rc2, r2, b2)"
    and "ngx_http_parse_header_line au r (b\<lparr>b_data := b_data b @ ys\<rparr>) = (rc3, r3, b3)"
  shows "rc2 = rc3 \<and> (rc2 \<in> {NGX_OK, NGX_AGAIN} \<longrightarrow> r2 = r3 \<and> b2 = b3)"
proof -
  obtain st hash i r' q where
    run: "run_bytes (hl_step au) (b_data b) (b_pos b) (hr_state r, hr_hash r, hr_lowcase_index r, r)
      = (None, q, (st, hash, i, r'))"
    and r1: "r1 = hl_saved st hash i r'" and b1: "b1 = b\<lparr>b_pos := q\<rparr>"
    using assms(1) by (auto simp: ngx_http_parse_header_line_def hl_saved_def
      split: prod.splits option.splits hl_exit.splits)
  obtain e q' st' hash' i' r'' where
    rest: "run_bytes (hl_step au) (b_data b @ ys) q (st, hash, i, r') = (e, q', (st', hash', i', r''))"
    by (metis prod_cases4 prod.collapse)
  have saved: "run_bytes (hl_step au) (b_data b @ ys) q (st, hash, i, r1)
      = (e, q', (st', hash', i', hl_saved st hash i r''))"
    using rest by (simp add: r1 run_saved)
  have whole: "run_bytes (hl_step au) (b_data b @ ys) (b_pos b) (hr_state r, hr_hash r, hr_lowcase_index r, r)
      = (e, q', (st', hash', i', r''))"
    using hlm.run_resume [OF run] rest by simp
  have "hr_state r1 = st" "hr_hash r1 = hash" "hr_lowcase_index r1 = i"
    by (simp_all add: r1 hl_saved_def)
  then show ?thesis
    using assms(2,3) saved whole
    by (cases e) (auto simp: ngx_http_parse_header_line_def b1 hl_saved_def split: hl_exit.splits)
qed

section \<open>Samples\<close>

definition fresh_header :: header_req where
  "fresh_header = \<lparr>hr_state = hl_start, hr_hash = 0, hr_lowcase_index = 0, hr_lowcase_header = replicate 32 0,
     hr_name_start = None, hr_name_end = None, hr_start = None, hr_end = None, hr_invalid = False,
     hr_upstream = False\<rparr>"

text \<open>The line \<open>Ab: 1 2\<close>, with a space behind it, and the first byte of the next line.\<close>

definition sample_header :: "byte list" where
  "sample_header = [0x41, 0x62, 0x3a, 0x20, 0x31, 0x20, 0x32, 0x20, 0x0d, 0x0a, 0x43]"

lemma sample_header_line: "header_line [0x41, 0x62] [0x31, 0x20, 0x32] 4 (take 10 sample_header)"
proof -
  have "line_text [0x41, 0x62] [0x31, 0x20, 0x32] (Suc (length [0x41, 0x62 :: byte] + 1))
      ([0x41, 0x62] @ b_colon # replicate 1 SP @ [0x31, 0x20, 0x32] @ replicate 1 SP)"
    by (rule full) (simp_all add: name_ok_def name_ch_def value_ok_def value_ch_def)
  then show ?thesis
    unfolding header_line_def
    by (intro exI [of _ "take 8 sample_header"] exI [of _ 1]) (simp add: sample_header_def eval_nat_numeral)
qed

theorem header_line_exact_witness:
  "\<exists>r' b'. ngx_http_parse_header_line False fresh_header \<lparr>b_data = sample_header, b_pos = 0\<rparr> = (NGX_OK, r', b')
     \<and> b_pos b' = 10 \<and> hl_stored False \<lparr>b_data = sample_header, b_pos = 0\<rparr> [0x41, 0x62] [0x31, 0x20, 0x32] r'"
proof -
  let ?b = "\<lparr>b_data = sample_header, b_pos = 0\<rparr> :: ngx_buf"
  obtain rc r' b' where p: "ngx_http_parse_header_line False fresh_header ?b = (rc, r', b')" by (metis prod_cases3)
  have d: "drop (b_pos ?b) (b_data ?b) = take 10 sample_header @ drop 10 sample_header" by simp
  have f: "\<not> hr_upstream fresh_header" "hr_state fresh_header = hl_start" "length (hr_lowcase_header fresh_header) = 32"
    by (simp_all add: fresh_header_def)
  have "rc = NGX_OK" "b' = ?b\<lparr>b_pos := b_pos ?b + length (take 10 sample_header)\<rparr>"
      "hl_stored False ?b [0x41, 0x62] [0x31, 0x20, 0x32] r'"
    using header_line_exact [OF f p] sample_header_line d by blast+
  then show ?thesis using p by (simp add: sample_header_def)
qed

definition sample_header_partial :: header_req where
  "sample_header_partial = fresh_header\<lparr>hr_state := hl_name, hr_hash := ngx_hash 0 0x61, hr_lowcase_index := 1,
     hr_name_start := Some 0, hr_lowcase_header := (replicate 32 0)[0 := 0x61]\<rparr>"

lemma sample_header_again:
  "ngx_http_parse_header_line False fresh_header \<lparr>b_data = take 1 sample_header, b_pos = 0\<rparr>
     = (NGX_AGAIN, sample_header_partial, \<lparr>b_data = take 1 sample_header, b_pos = 1\<rparr>)"
proof -
  have "lowcase ! 65 = 97" using lowcase_low [of 65] by (simp add: low_def)
  then show ?thesis
    by (simp add: ngx_http_parse_header_line_def fresh_header_def sample_header_partial_def sample_header_def
        run_bytes.simps hl_start_step_def Let_def)
qed

theorem header_line_resume_witness:
  "\<exists>r2 b2. ngx_http_parse_header_line False sample_header_partial \<lparr>b_data = sample_header, b_pos = 1\<rparr> = (NGX_OK, r2, b2)
     \<and> ngx_http_parse_header_line False fresh_header \<lparr>b_data = sample_header, b_pos = 0\<rparr> = (NGX_OK, r2, b2)"
proof -
  let ?b = "\<lparr>b_data = take 1 sample_header, b_pos = 0\<rparr> :: ngx_buf"
  let ?b1 = "\<lparr>b_data = take 1 sample_header, b_pos = 1\<rparr> :: ngx_buf"
  have f: "\<not> hr_upstream fresh_header" "hr_state fresh_header = hl_start" "length (hr_lowcase_header fresh_header) = 32"
    by (simp_all add: fresh_header_def)
  obtain rc2 r2 b2 where part: "ngx_http_parse_header_line False sample_header_partial
      (?b1\<lparr>b_data := b_data ?b @ drop 1 sample_header\<rparr>) = (rc2, r2, b2)" by (metis prod_cases3)
  obtain r3 b3 where whole: "ngx_http_parse_header_line False fresh_header
      (?b\<lparr>b_data := b_data ?b @ drop 1 sample_header\<rparr>) = (NGX_OK, r3, b3)"
    using header_line_accepts [OF f sample_header_line, of "\<lparr>b_data = sample_header, b_pos = 0\<rparr>" "drop 10 sample_header" False]
    by auto
  have "rc2 = NGX_OK \<and> r2 = r3 \<and> b2 = b3"
    using header_line_resume [OF sample_header_again part whole] by simp
  with part whole show ?thesis by simp
qed

end
