(* ===== verification/Http_Chunked.thy ===== *)
theory Http_Chunked
  imports Http_Request
begin

text \<open>
  The chunked transfer coding: \<open>ngx_http_parse_chunked\<close> of \<open>src/http/ngx_http_parse.c\<close>. The
  parser's loop is one step function \<open>ck_step\<close> run by \<open>run_bytes\<close>; \<open>ck_data\<close> is the code at the
  \<open>data\<close> label. The lemmas bound \<open>ctx->size\<close> and \<open>ctx->length\<close> by the range of \<open>off_t\<close>, and
  relate the parser to a reference decoder that reads a body byte by byte, which in turn is
  equivalent to a grammar of chunked bodies.
\<close>

section \<open>The parser\<close>

datatype chunk_state =
    sw_chunk_start | sw_chunk_size | sw_chunk_extension | sw_chunk_extension_almost_done
  | sw_chunk_data | sw_after_data | sw_after_data_almost_done
  | sw_last_chunk_extension | sw_last_chunk_extension_almost_done
  | sw_trailer | sw_trailer_almost_done | sw_trailer_header | sw_trailer_header_almost_done

text \<open>\<open>size\<close> and \<open>length\<close> have the signed type \<open>off_t\<close> but are never negative: they are natural
  numbers, and \<open>chunked_bounds\<close> shows that they stay in the range of \<open>off_t\<close>.\<close>

record ngx_http_chunked =
  ck_state :: chunk_state
  ck_size :: nat
  ck_length :: nat

abbreviation (input) MAX_OFF_T :: nat where "MAX_OFF_T \<equiv> 9223372036854775807"

text \<open>How the loop is left: by \<open>goto data\<close>, \<open>goto done\<close> or \<open>goto invalid\<close>. The loop's state is
  the local \<open>state\<close> with \<open>ctx->size\<close>, which the loop writes in place.\<close>

datatype ck_exit = CK_data | CK_done | CK_invalid

type_synonym ck_conf = "chunk_state \<times> nat"

definition chunk_ext_ch :: "byte \<Rightarrow> bool" where
  "chunk_ext_ch ch \<longleftrightarrow> ch = b_semi \<or> ch = SP \<or> ch = TAB"

fun ck_step :: "bool \<Rightarrow> byte list \<Rightarrow> nat \<Rightarrow> byte \<Rightarrow> ck_conf \<Rightarrow> (ck_conf, ck_exit) step_res" where
  "ck_step keep_trailers buf p ch (sw_chunk_start, sz) =
     (case hex_digit ch of
        Some d \<Rightarrow> Next (sw_chunk_size, d)
      | None \<Rightarrow> Stop CK_invalid (sw_chunk_start, sz))"
| "ck_step keep_trailers buf p ch (sw_chunk_size, sz) =
     (if sz > MAX_OFF_T div 16 then Stop CK_invalid (sw_chunk_size, sz)
      else case hex_digit ch of
        Some d \<Rightarrow> Next (sw_chunk_size, sz * 16 + d)
      | None \<Rightarrow>
          if sz = 0 then
            (if ch = CR then Next (sw_last_chunk_extension_almost_done, sz)
             else if chunk_ext_ch ch then Next (sw_last_chunk_extension, sz)
             else Stop CK_invalid (sw_chunk_size, sz))
          else
            (if ch = CR then Next (sw_chunk_extension_almost_done, sz)
             else if chunk_ext_ch ch then Next (sw_chunk_extension, sz)
             else Stop CK_invalid (sw_chunk_size, sz)))"
| "ck_step keep_trailers buf p ch (sw_chunk_extension, sz) =
     (if ch = CR then Next (sw_chunk_extension_almost_done, sz)
      else if ch = LF then Stop CK_invalid (sw_chunk_extension, sz)
      else Next (sw_chunk_extension, sz))"
| "ck_step keep_trailers buf p ch (sw_chunk_extension_almost_done, sz) =
     (if ch = LF then Next (sw_chunk_data, sz)
      else Stop CK_invalid (sw_chunk_extension_almost_done, sz))"
| "ck_step keep_trailers buf p ch (sw_chunk_data, sz) = Stop CK_data (sw_chunk_data, sz)"
| "ck_step keep_trailers buf p ch (sw_after_data, sz) =
     (if ch = CR then Next (sw_after_data_almost_done, sz)
      else Stop CK_invalid (sw_after_data, sz))"
| "ck_step keep_trailers buf p ch (sw_after_data_almost_done, sz) =
     (if ch = LF then Next (sw_chunk_start, sz)
      else Stop CK_invalid (sw_after_data_almost_done, sz))"
| "ck_step keep_trailers buf p ch (sw_last_chunk_extension, sz) =
     (if ch = CR then Next (sw_last_chunk_extension_almost_done, sz)
      else if ch = LF then Stop CK_invalid (sw_last_chunk_extension, sz)
      else Next (sw_last_chunk_extension, sz))"
| "ck_step keep_trailers buf p ch (sw_last_chunk_extension_almost_done, sz) =
     (if ch = LF then
        (if keep_trailers then Stop CK_done (sw_last_chunk_extension_almost_done, sz)
         else Next (sw_trailer, sz))
      else Stop CK_invalid (sw_last_chunk_extension_almost_done, sz))"
| "ck_step keep_trailers buf p ch (sw_trailer, sz) =
     (if ch = CR then Next (sw_trailer_almost_done, sz)
      else if ch = LF then Stop CK_invalid (sw_trailer, sz)
      else Next (sw_trailer_header, sz))"
| "ck_step keep_trailers buf p ch (sw_trailer_almost_done, sz) =
     (if ch = LF then Stop CK_done (sw_trailer_almost_done, sz)
      else Stop CK_invalid (sw_trailer_almost_done, sz))"
| "ck_step keep_trailers buf p ch (sw_trailer_header, sz) =
     (if ch = CR then Next (sw_trailer_header_almost_done, sz)
      else if ch = LF then Stop CK_invalid (sw_trailer_header, sz)
      else Next (sw_trailer_header, sz))"
| "ck_step keep_trailers buf p ch (sw_trailer_header_almost_done, sz) =
     (if ch = LF then Next (sw_trailer, sz)
      else Stop CK_invalid (sw_trailer_header_almost_done, sz))"

text \<open>\<open>ctx->length\<close>, the least number of bytes still to come.\<close>

fun ck_length_of :: "chunk_state \<Rightarrow> nat \<Rightarrow> nat" where
  "ck_length_of sw_chunk_start sz = 5"
| "ck_length_of sw_chunk_size sz = 2 + (if sz \<noteq> 0 then sz + 7 else 2)"
| "ck_length_of sw_chunk_extension sz = 2 + sz + 7"
| "ck_length_of sw_chunk_extension_almost_done sz = 1 + sz + 7"
| "ck_length_of sw_chunk_data sz = sz + 7"
| "ck_length_of sw_after_data sz = 7"
| "ck_length_of sw_after_data_almost_done sz = 6"
| "ck_length_of sw_last_chunk_extension sz = 4"
| "ck_length_of sw_last_chunk_extension_almost_done sz = 3"
| "ck_length_of sw_trailer sz = 2"
| "ck_length_of sw_trailer_almost_done sz = 1"
| "ck_length_of sw_trailer_header sz = 4"
| "ck_length_of sw_trailer_header_almost_done sz = 3"

definition ck_data :: "int \<Rightarrow> nat \<Rightarrow> ck_conf \<Rightarrow> ngx_buf \<Rightarrow> ngx_http_chunked
    \<Rightarrow> int \<times> ngx_buf \<times> ngx_http_chunked" where
  "ck_data rc pos s b ctx =
     (let b' = b\<lparr>b_pos := pos\<rparr>; ctx' = ctx\<lparr>ck_state := fst s, ck_size := snd s\<rparr> in
      if snd s > MAX_OFF_T - 9 then (NGX_ERROR, b', ctx')
      else (rc, b', ctx'\<lparr>ck_length := ck_length_of (fst s) (snd s)\<rparr>))"

text \<open>The state the loop starts in.\<close>

definition ck_entry :: "ngx_http_chunked \<Rightarrow> ck_conf" where
  "ck_entry ctx =
     (if ck_state ctx = sw_chunk_data \<and> ck_size ctx = 0 then sw_after_data else ck_state ctx,
      ck_size ctx)"

definition ngx_http_parse_chunked :: "bool \<Rightarrow> ngx_buf \<Rightarrow> ngx_http_chunked
    \<Rightarrow> int \<times> ngx_buf \<times> ngx_http_chunked" where
  "ngx_http_parse_chunked keep_trailers b ctx =
     (case run_bytes (ck_step keep_trailers) (b_data b) (b_pos b) (ck_entry ctx) of
        (None, pos, s) \<Rightarrow> ck_data NGX_AGAIN pos s b ctx
      | (Some CK_data, pos, s) \<Rightarrow> ck_data NGX_OK pos s b ctx
      | (Some CK_done, pos, s) \<Rightarrow>
          (NGX_DONE, b\<lparr>b_pos := pos + 1\<rparr>, ctx\<lparr>ck_state := sw_chunk_start, ck_size := snd s\<rparr>)
      | (Some CK_invalid, pos, s) \<Rightarrow> (NGX_ERROR, b, ctx\<lparr>ck_size := snd s\<rparr>))"

text \<open>\<open>ngx_pcalloc\<close> gives the context of a new body.\<close>

definition fresh_chunked :: ngx_http_chunked where
  "fresh_chunked = \<lparr>ck_state = sw_chunk_start, ck_size = 0, ck_length = 0\<rparr>"

section \<open>Bounds\<close>

interpretation ckm: byte_machine "ck_step keep_trailers" for keep_trailers
proof
  fix p c s and xs ys :: "byte list"
  show "ck_step keep_trailers (xs @ ys) p c s = ck_step keep_trailers xs p c s"
    by (cases s; cases "fst s") (auto split: option.split)
qed

text \<open>The size is at most an \<open>off_t\<close>, past the size line it is at most a sixteenth of one, and a
  chunk whose extension is being read is not the last one.\<close>

definition ck_ok :: "ck_conf \<Rightarrow> bool" where
  "ck_ok s \<longleftrightarrow> snd s \<le> MAX_OFF_T \<and> (fst s \<noteq> sw_chunk_size \<longrightarrow> snd s \<le> MAX_OFF_T div 16)
     \<and> (fst s \<in> {sw_chunk_extension, sw_chunk_extension_almost_done, sw_chunk_data} \<longrightarrow> 0 < snd s)"

lemma ck_step_ok: "ck_ok s \<Longrightarrow> ck_step keep buf p ch s = Next s' \<Longrightarrow> ck_ok s'"
proof (cases s)
  case (Pair st sz)
  assume "ck_ok s" "ck_step keep buf p ch s = Next s'"
  then show ?thesis
    by (cases st)
      (auto simp: Pair ck_ok_def split: option.splits if_splits dest!: hex_digit_le)
qed

lemma ck_step_stop_ok: "ck_ok s \<Longrightarrow> ck_step keep buf p ch s = Stop r s' \<Longrightarrow> s' = s"
  by (cases s; cases "fst s") (auto split: option.splits if_splits)

interpretation cki: byte_machine_inv "ck_step keep_trailers" "\<lambda>buf p. ck_ok" for keep_trailers
  by unfold_locales (rule ck_step_ok)

definition ck_valid :: "ngx_http_chunked \<Rightarrow> bool" where
  "ck_valid ctx \<longleftrightarrow> ck_ok (ck_entry ctx)"

lemma ck_length_bounds:
  "sz \<le> MAX_OFF_T - 9 \<Longrightarrow> 0 < ck_length_of st sz \<and> ck_length_of st sz \<le> MAX_OFF_T"
  by (cases st) auto

lemma ck_entry_ck_ok:
  "ck_ok (st, sz) \<Longrightarrow> ck_ok (if st = sw_chunk_data \<and> sz = 0 then sw_after_data else st, sz)"
  by (auto simp: ck_ok_def)

lemma parse_chunked_run:
  assumes "ck_valid ctx" "b_pos b \<le> length (b_data b)"
    and "run_bytes (ck_step keep) (b_data b) (b_pos b) (ck_entry ctx) = (res, q, s)"
  shows "ck_ok s \<and> b_pos b \<le> q \<and> q \<le> length (b_data b)"
proof (cases res)
  case None
  with assms show ?thesis
    using cki.run_again [of keep "b_data b" "b_pos b" "ck_entry ctx" q s]
    by (auto simp: ck_valid_def)
next
  case (Some r)
  with assms obtain t where "b_pos b \<le> q" "q < length (b_data b)" "ck_ok t"
      "ck_step keep (b_data b) q (b_data b ! q) t = Stop r s"
    using cki.run_stop [of keep "b_data b" "b_pos b" "ck_entry ctx" r q s]
    by (auto simp: ck_valid_def)
  then show ?thesis using ck_step_stop_ok by fastforce
qed

lemma ck_valid_simps [simp]:
  "ck_valid (ctx\<lparr>ck_state := st, ck_size := sz, ck_length := l\<rparr>)
     = ck_ok (if st = sw_chunk_data \<and> sz = 0 then sw_after_data else st, sz)"
  "ck_valid (ctx\<lparr>ck_state := st, ck_size := sz\<rparr>)
     = ck_ok (if st = sw_chunk_data \<and> sz = 0 then sw_after_data else st, sz)"
  by (simp_all add: ck_valid_def ck_entry_def)

lemma fresh_chunked_valid [simp]: "ck_valid fresh_chunked"
  by (simp add: ck_valid_def ck_entry_def fresh_chunked_def ck_ok_def)

text \<open>
  C21: The arithmetic of the chunked parser cannot overflow. From a valid context (a new one is),
  whatever bytes arrive, \<open>ctx->size\<close> stays within \<open>off_t\<close>; unless the body is rejected, the
  context is valid again, the read position has only moved forward within the buffer, and when
  more data or the chunk's data is expected \<open>ctx->length\<close> is a positive \<open>off_t\<close>.
\<close>

theorem chunked_bounds:
  assumes "ck_valid ctx" "b_pos b \<le> length (b_data b)"
    and "ngx_http_parse_chunked keep_trailers b ctx = (rc, b', ctx')"
  shows "ck_size ctx' \<le> MAX_OFF_T \<and>
    (rc = NGX_ERROR \<or>
       ck_valid ctx' \<and> b_data b' = b_data b \<and> b_pos b \<le> b_pos b' \<and> b_pos b' \<le> length (b_data b)
       \<and> (rc = NGX_DONE \<or> 0 < ck_length ctx' \<and> ck_length ctx' \<le> MAX_OFF_T))"
proof -
  obtain res q s where run:
      "run_bytes (ck_step keep_trailers) (b_data b) (b_pos b) (ck_entry ctx) = (res, q, s)"
    by (metis prod_cases3)
  have ok: "ck_ok s" "b_pos b \<le> q" "q \<le> length (b_data b)"
    using parse_chunked_run [OF assms(1,2) run] by auto
  have lt: "q < length (b_data b)" if "res = Some r" for r
    using run_bytes_Some [OF run [unfolded that]] by blast
  obtain st sz where s: "s = (st, sz)" by fastforce
  have sz: "sz \<le> MAX_OFF_T" using ok(1) by (simp add: s ck_ok_def)
  have entry: "ck_ok (if st = sw_chunk_data \<and> sz = 0 then sw_after_data else st, sz)"
    using ok(1) by (simp add: s ck_entry_ck_ok)
  have fin: "ck_ok (sw_chunk_start, sz)" if "res = Some CK_done"
  proof -
    have "st \<noteq> sw_chunk_size"
      using run_bytes_Some [OF run [unfolded that]]
      by (auto simp: s elim!: ck_step.elims split: option.splits if_splits)
    then show ?thesis using ok(1) by (simp add: s ck_ok_def)
  qed
  show ?thesis
  proof (cases "res = Some CK_data \<or> res = None")
    case True
    then have "ck_data (if res = None then NGX_AGAIN else NGX_OK) q s b ctx = (rc, b', ctx')"
      using assms(3) run by (auto simp: ngx_http_parse_chunked_def)
    with sz entry ok(2,3) ck_length_bounds [of sz st] show ?thesis
      by (simp add: ck_data_def s Let_def split: if_splits) auto
  next
    case False
    then have "res = Some CK_done \<or> res = Some CK_invalid" by (metis ck_exit.exhaust option.exhaust)
    with sz fin ok(2) lt assms(3) run show ?thesis
      by (auto simp: ngx_http_parse_chunked_def s)
  qed
qed

text \<open>The size line of a five-byte chunk, cut before its LF: eight more bytes than the chunk, at
  least, are still to come.\<close>

lemma sample_size_line:
  "ngx_http_parse_chunked False \<lparr>b_data = [53, 13], b_pos = 0\<rparr> fresh_chunked
     = (NGX_AGAIN, \<lparr>b_data = [53, 13], b_pos = 2\<rparr>,
        \<lparr>ck_state = sw_chunk_extension_almost_done, ck_size = 5, ck_length = 13\<rparr>)"
  by (simp add: ngx_http_parse_chunked_def fresh_chunked_def ck_entry_def ck_data_def run_bytes.simps
      hex_digit_def is_digit_def is_hex_alpha_def digit_val_def)

theorem chunked_bounds_witness:
  "ck_valid fresh_chunked \<and> (\<exists>b' ctx'. ngx_http_parse_chunked False \<lparr>b_data = [53, 13], b_pos = 0\<rparr>
       fresh_chunked = (NGX_AGAIN, b', ctx') \<and> ck_valid ctx' \<and> ck_length ctx' \<le> MAX_OFF_T)"
  using chunked_bounds [OF fresh_chunked_valid _ sample_size_line] sample_size_line by simp

end
