(* ===== verification/Http_Chunked_Spec.thy ===== *)
theory Http_Chunked_Spec
  imports Http_Chunked
begin

text \<open>
  What a chunked body is: a grammar \<open>chunked_body\<close> of the bytes on the wire and the payload they
  carry (RFC 7230, section 4.1, with the parser's own limits: no bare LF, and chunk sizes below
  a sixteenth of \<open>off_t\<close>), and a decoder \<open>dechunk\<close> that takes one byte at a time. The decoder
  accepts exactly the grammar, and \<open>ctx->length\<close> is exactly the least number of bytes that can
  complete a body.
\<close>

section \<open>Grammar\<close>

definition no_crlf :: "byte list \<Rightarrow> bool" where
  "no_crlf e \<longleftrightarrow> CR \<notin> set e \<and> LF \<notin> set e"

definition chunk_ext :: "byte list \<Rightarrow> bool" where
  "chunk_ext e \<longleftrightarrow> e = [] \<or> chunk_ext_ch (hd e) \<and> no_crlf (tl e)"

inductive trailer_lines :: "byte list \<Rightarrow> bool" where
  trailer_none: "trailer_lines []"
| trailer_line: "l \<noteq> [] \<Longrightarrow> no_crlf l \<Longrightarrow> trailer_lines t \<Longrightarrow> trailer_lines (l @ CR # LF # t)"

inductive chunked_body :: "byte list \<Rightarrow> byte list \<Rightarrow> bool" where
  last_chunk: "h \<noteq> [] \<Longrightarrow> hex_string h \<Longrightarrow> hex_val_from 0 h = 0 \<Longrightarrow> chunk_ext e
    \<Longrightarrow> trailer_lines t \<Longrightarrow> chunked_body (h @ e @ CR # LF # t @ [CR, LF]) []"
| a_chunk: "h \<noteq> [] \<Longrightarrow> hex_string h \<Longrightarrow> hex_val_from 0 h = length d \<Longrightarrow> d \<noteq> []
    \<Longrightarrow> length d \<le> MAX_OFF_T div 16 \<Longrightarrow> chunk_ext e \<Longrightarrow> chunked_body w out
    \<Longrightarrow> chunked_body (h @ e @ CR # LF # d @ CR # LF # w) (d @ out)"

lemma no_crlf_simps [simp]:
  "no_crlf []" "no_crlf (c # e) \<longleftrightarrow> c \<noteq> CR \<and> c \<noteq> LF \<and> no_crlf e"
  by (auto simp: no_crlf_def)

section \<open>The decoder\<close>

text \<open>From a state of the parser and the bytes to come: the payload still to come and the bytes
  after the body, or \<open>None\<close> if the bytes are not a body or end before it does.\<close>

fun dechunk :: "ck_conf \<Rightarrow> byte list \<Rightarrow> (byte list \<times> byte list) option" where
  "dechunk (st, sz) [] = None"
| "dechunk (st, sz) (c # cs) =
     (if st = sw_chunk_data then
        map_option (apfst (Cons c))
          (dechunk (if sz \<le> 1 then sw_after_data else sw_chunk_data, sz - 1) cs)
      else case ck_step False [] 0 c (st, sz) of
        Next s \<Rightarrow> dechunk s cs
      | Stop CK_done s \<Rightarrow> Some ([], cs)
      | Stop r s \<Rightarrow> None)"

lemma dechunk_after_data:
  "dechunk (sw_after_data, sz) w = Some r
     \<longleftrightarrow> (\<exists>w'. w = CR # LF # w' \<and> dechunk (sw_chunk_start, sz) w' = Some r)"
  by (cases w rule: remdups_adj.cases) auto

lemma dechunk_data:
  "0 < sz \<Longrightarrow> dechunk (sw_chunk_data, sz) w =
     (if length w < sz then None
      else map_option (apfst ((@) (take sz w))) (dechunk (sw_after_data, 0) (drop sz w)))"
proof (induction sz arbitrary: w)
  case (Suc n)
  show ?case
  proof (cases w)
    case (Cons c cs)
    show ?thesis
    proof (cases "n = 0")
      case False
      then show ?thesis
        by (simp add: Cons Suc.IH option.map_comp comp_def apfst_compose)
    next
      case True
      have "(@) [c] = (#) c" by auto
      with True show ?thesis by (simp add: Cons)
    qed
  qed simp
qed simp

text \<open>Reading up to the end of a line.\<close>

fun crlf_split :: "byte list \<Rightarrow> (byte list \<times> byte list) option" where
  "crlf_split [] = None"
| "crlf_split (c # cs) =
     (if c = CR then (case cs of [] \<Rightarrow> None | d # w \<Rightarrow> if d = LF then Some ([], w) else None)
      else if c = LF then None
      else map_option (apfst (Cons c)) (crlf_split cs))"

lemma crlf_split_append: "no_crlf e \<Longrightarrow> crlf_split (e @ CR # LF # w) = Some (e, w)"
  by (induction e) auto

lemma crlf_split_Some: "crlf_split w = Some (e, w') \<longleftrightarrow> no_crlf e \<and> w = e @ CR # LF # w'"
proof
  show "crlf_split w = Some (e, w') \<Longrightarrow> no_crlf e \<and> w = e @ CR # LF # w'"
  proof (induction w arbitrary: e)
    case (Cons c cs)
    show ?case
    proof (cases "c = CR \<or> c = LF")
      case True
      with Cons.prems show ?thesis by (simp split: if_splits list.splits)
    next
      case False
      with Cons.prems obtain e' where "crlf_split cs = Some (e', w')" "e = c # e'" by auto
      with Cons.IH False show ?thesis by simp
    qed
  qed simp
qed (simp add: crlf_split_append)

lemma dechunk_line:
  assumes "st \<noteq> sw_chunk_data" "st' \<noteq> sw_chunk_data"
    and "\<And>c. ck_step False [] 0 c (st, sz) = (if c = CR then Next (st', sz)
           else if c = LF then Stop CK_invalid (st, sz) else Next (st, sz))"
    and "\<And>c. ck_step False [] 0 c (st', sz) = (if c = LF then Next (st'', sz)
           else Stop CK_invalid (st', sz))"
  shows "dechunk (st, sz) w = Option.bind (crlf_split w) (\<lambda>(e, w'). dechunk (st'', sz) w')"
proof (induction w)
  case (Cons c cs)
  have "dechunk (st', sz) cs
      = (case cs of [] \<Rightarrow> None | d # w \<Rightarrow> if d = LF then dechunk (st'', sz) w else None)"
    by (cases cs) (simp_all add: assms)
  moreover have "Option.bind (map_option (apfst ((#) c)) (crlf_split cs))
      (\<lambda>(e, w'). dechunk (st'', sz) w') = dechunk (st, sz) cs"
    unfolding Cons.IH by (cases "crlf_split cs") auto
  ultimately show ?case
    by (simp add: assms split: list.split)
qed simp

lemma dechunk_extension:
  "dechunk (sw_chunk_extension, sz) w
     = Option.bind (crlf_split w) (\<lambda>(e, w'). dechunk (sw_chunk_data, sz) w')"
  by (rule dechunk_line [where st' = sw_chunk_extension_almost_done]) auto

lemma dechunk_last_extension:
  "dechunk (sw_last_chunk_extension, sz) w
     = Option.bind (crlf_split w) (\<lambda>(e, w'). dechunk (sw_trailer, sz) w')"
  by (rule dechunk_line [where st' = sw_last_chunk_extension_almost_done]) auto

lemma dechunk_trailer_header:
  "dechunk (sw_trailer_header, sz) w
     = Option.bind (crlf_split w) (\<lambda>(e, w'). dechunk (sw_trailer, sz) w')"
  by (rule dechunk_line [where st' = sw_trailer_header_almost_done]) auto

lemmas dechunk_lines = dechunk_extension dechunk_last_extension dechunk_trailer_header

lemma hex_digit_specials [simp]:
  "hex_digit CR = None" "hex_digit LF = None" "hex_digit b_semi = None" "hex_digit SP = None"
  "hex_digit TAB = None"
  by (simp_all add: hex_digit_def is_digit_def is_hex_alpha_def)

lemma chunk_ext_ch_hex: "chunk_ext_ch c \<Longrightarrow> hex_digit c = None \<and> c \<noteq> CR"
  by (auto simp: chunk_ext_ch_def)

lemma chunk_ext_simps [simp]:
  "chunk_ext []" "chunk_ext (c # e) \<longleftrightarrow> chunk_ext_ch c \<and> no_crlf e"
  by (auto simp: chunk_ext_def)

section \<open>The decoder accepts what the grammar generates\<close>

lemma dechunk_after_size:
  assumes "chunk_ext e" "v \<le> MAX_OFF_T div 16"
  shows "dechunk (sw_chunk_size, v) (e @ CR # LF # w)
     = dechunk (if v = 0 then sw_trailer else sw_chunk_data, v) w"
proof (cases e)
  case Nil
  with assms(2) show ?thesis by simp
next
  case (Cons c e')
  with assms chunk_ext_ch_hex [of c] show ?thesis
    by (simp add: dechunk_lines crlf_split_append)
qed

lemma dechunk_size_line:
  assumes "chunk_ext e" "hex_string h" "hex_val_from v h \<le> MAX_OFF_T div 16"
  shows "dechunk (sw_chunk_size, v) (h @ e @ CR # LF # w)
     = dechunk (if hex_val_from v h = 0 then sw_trailer else sw_chunk_data, hex_val_from v h) w"
  using assms(2,3)
proof (induction h arbitrary: v)
  case Nil
  then show ?case using assms(1) dechunk_after_size [of e v w] by simp
next
  case (Cons c h)
  have "v \<le> v * 16 + the (hex_digit c)" by simp
  also have "\<dots> \<le> hex_val_from (v * 16 + the (hex_digit c)) h" by (rule hex_val_from_ge)
  finally have "v \<le> MAX_OFF_T div 16" using Cons.prems(2) by simp
  moreover obtain d where "hex_digit c = Some d" using Cons.prems(1) by auto
  ultimately show ?case using Cons by simp
qed

lemma dechunk_chunk:
  assumes "h \<noteq> []" "hex_string h" "hex_val_from 0 h \<le> MAX_OFF_T div 16" "chunk_ext e"
  shows "dechunk (sw_chunk_start, sz) (h @ e @ CR # LF # w)
     = dechunk (if hex_val_from 0 h = 0 then sw_trailer else sw_chunk_data, hex_val_from 0 h) w"
proof -
  obtain c h' d where "h = c # h'" "hex_digit c = Some d"
    using assms(1,2) by (cases h) auto
  with assms show ?thesis by (simp add: dechunk_size_line)
qed

lemma dechunk_trailers:
  "trailer_lines t \<Longrightarrow> dechunk (sw_trailer, sz) (t @ CR # LF # w) = Some ([], w)"
proof (induction rule: trailer_lines.induct)
  case (trailer_line l t)
  then obtain c l' where "l = c # l'" by (cases l) auto
  with trailer_line show ?case by (simp add: dechunk_lines crlf_split_append)
qed simp

lemma dechunk_complete: "chunked_body w out \<Longrightarrow> dechunk (sw_chunk_start, sz) (w @ rest) = Some (out, rest)"
proof (induction arbitrary: sz rule: chunked_body.induct)
  case (last_chunk h e t)
  then show ?case by (simp add: dechunk_chunk dechunk_trailers)
next
  case (a_chunk h d e w out)
  then show ?case by (simp add: dechunk_chunk dechunk_data)
qed

section \<open>The grammar generates what the decoder accepts\<close>

lemma dechunk_trailers_sound:
  "dechunk (sw_trailer, sz) w = Some (out, rest)
     \<Longrightarrow> out = [] \<and> (\<exists>t. trailer_lines t \<and> w = t @ CR # LF # rest)"
proof (induction "length w" arbitrary: w rule: less_induct)
  case less
  obtain c cs where w: "w = c # cs" using less.prems by (cases w) auto
  show ?case
  proof (cases "c = CR")
    case True
    with less.prems w have "out = [] \<and> cs = LF # rest"
      by (cases cs) (auto split: if_splits)
    with True w show ?thesis using trailer_none by force
  next
    case False
    with less.prems w have "c \<noteq> LF" "dechunk (sw_trailer_header, sz) cs = Some (out, rest)"
      by (auto split: if_splits)
    then obtain e w' where e: "no_crlf e" "cs = e @ CR # LF # w'"
        "dechunk (sw_trailer, sz) w' = Some (out, rest)"
      by (auto simp: dechunk_lines bind_eq_Some_conv crlf_split_Some)
    then obtain t where "out = []" "trailer_lines t" "w' = t @ CR # LF # rest"
      using less.hyps [of w'] w by auto
    moreover have "trailer_lines ((c # e) @ CR # LF # t)"
      using \<open>trailer_lines t\<close> \<open>c \<noteq> LF\<close> False e(1) by (intro trailer_line) simp_all
    ultimately show ?thesis using w e(2) by (intro conjI exI [of _ "(c # e) @ CR # LF # t"]) simp_all
  qed
qed

lemma dechunk_size_sound:
  "dechunk (sw_chunk_size, v) w = Some r
     \<Longrightarrow> \<exists>h e w'. hex_string h \<and> chunk_ext e \<and> w = h @ e @ CR # LF # w'
        \<and> hex_val_from v h \<le> MAX_OFF_T div 16
        \<and> dechunk (if hex_val_from v h = 0 then sw_trailer else sw_chunk_data, hex_val_from v h) w' = Some r"
proof (induction w arbitrary: v)
  case (Cons c cs)
  then have v: "v \<le> MAX_OFF_T div 16" by (auto split: if_splits)
  show ?case
  proof (cases "hex_digit c")
    case (Some d)
    with Cons.prems v have "dechunk (sw_chunk_size, v * 16 + d) cs = Some r" by simp
    from Cons.IH [OF this] obtain h e w' where "hex_string h" "chunk_ext e"
        "cs = h @ e @ CR # LF # w'" "hex_val_from (v * 16 + d) h \<le> MAX_OFF_T div 16"
        "dechunk (if hex_val_from (v * 16 + d) h = 0 then sw_trailer else sw_chunk_data,
           hex_val_from (v * 16 + d) h) w' = Some r"
      by blast
    with Some show ?thesis by (intro exI [of _ "c # h"] exI [of _ e] exI [of _ w']) simp
  next
    case None
    show ?thesis
    proof (cases "c = CR")
      case True
      with Cons.prems v obtain w' where "cs = LF # w'"
          "dechunk (if v = 0 then sw_trailer else sw_chunk_data, v) w' = Some r"
        by (cases cs) (auto split: if_splits)
      with True v show ?thesis by (intro exI [of _ "[]"] exI [of _ w']) simp
    next
      case False
      with Cons.prems v None have c: "chunk_ext_ch c"
          "dechunk (if v = 0 then sw_last_chunk_extension else sw_chunk_extension, v) cs = Some r"
        by (auto split: if_splits)
      then obtain e w' where "no_crlf e" "cs = e @ CR # LF # w'"
          "dechunk (if v = 0 then sw_trailer else sw_chunk_data, v) w' = Some r"
        by (cases "v = 0") (auto simp: dechunk_lines bind_eq_Some_conv crlf_split_Some)
      with c v show ?thesis by (intro exI [of _ "[]"] exI [of _ "c # e"] exI [of _ w']) simp
    qed
  qed
qed simp

lemma dechunk_sound:
  "dechunk (sw_chunk_start, sz) w = Some (out, rest) \<Longrightarrow> \<exists>v. w = v @ rest \<and> chunked_body v out"
proof (induction "length w" arbitrary: w sz out rule: less_induct)
  case less
  obtain c cs d where w: "w = c # cs" "hex_digit c = Some d"
      "dechunk (sw_chunk_size, d) cs = Some (out, rest)"
    using less.prems by (cases w) (auto split: option.splits)
  from dechunk_size_sound [OF w(3)] obtain h e w' where size:
      "hex_string h" "chunk_ext e" "cs = h @ e @ CR # LF # w'" "hex_val_from d h \<le> MAX_OFF_T div 16"
      "dechunk (if hex_val_from d h = 0 then sw_trailer else sw_chunk_data, hex_val_from d h) w'
         = Some (out, rest)"
    by blast
  have h: "c # h \<noteq> []" "hex_string (c # h)" "hex_val_from 0 (c # h) = hex_val_from d h"
    using w(2) size(1) by simp_all
  let ?n = "hex_val_from d h"
  show ?case
  proof (cases "?n = 0")
    case True
    then obtain t where "out = []" "trailer_lines t" "w' = t @ CR # LF # rest"
      using dechunk_trailers_sound [of ?n w' out rest] size(5) by auto
    moreover from this have "chunked_body ((c # h) @ e @ CR # LF # t @ [CR, LF]) []"
      using last_chunk [of "c # h" e t] h size(2) True by simp
    ultimately show ?thesis using w(1) size(3) by fastforce
  next
    case False
    then obtain out' where data: "?n \<le> length w'" "out = take ?n w' @ out'"
        "dechunk (sw_after_data, 0) (drop ?n w') = Some (out', rest)"
      using size(5) by (auto simp: dechunk_data split: if_splits)
    then obtain w'' where w'': "drop ?n w' = CR # LF # w''"
        "dechunk (sw_chunk_start, 0) w'' = Some (out', rest)"
      using dechunk_after_data by blast
    have w': "w' = take ?n w' @ CR # LF # w''" using w''(1) by (metis append_take_drop_id)
    have "length w'' < length w" using w(1) size(3) w' by (auto dest: arg_cong [of _ _ length])
    from less.hyps [OF this w''(2)] obtain v where v: "w'' = v @ rest" "chunked_body v out'" by blast
    have "chunked_body ((c # h) @ e @ CR # LF # take ?n w' @ CR # LF # v) out"
      unfolding data(2) using h size(2,4) v(2) data(1) False by (intro a_chunk) auto
    moreover have "w = ((c # h) @ e @ CR # LF # take ?n w' @ CR # LF # v) @ rest"
      using w(1) size(3) w' v(1) by simp
    ultimately show ?thesis by blast
  qed
qed

theorem dechunk_iff:
  "dechunk (sw_chunk_start, sz) w = Some (out, rest) \<longleftrightarrow> (\<exists>v. w = v @ rest \<and> chunked_body v out)"
  using dechunk_sound dechunk_complete by blast

section \<open>The length still to come\<close>

lemma dechunk_length:
  "dechunk s w = Some (out, rest) \<Longrightarrow> ck_length_of (fst s) (snd s) + length rest \<le> length w"
proof (induction s w arbitrary: out rule: dechunk.induct)
  case (2 st sz c cs)
  show ?case
  proof (cases "st = sw_chunk_data")
    case True
    with 2 show ?thesis by (cases "sz \<le> 1") auto
  next
    case False
    show ?thesis
    proof (cases "ck_step False [] 0 c (st, sz)")
      case (Next s')
      then have "ck_length_of (fst s') (snd s') + length rest \<le> length cs"
        using 2 False by auto
      moreover have "ck_length_of st sz \<le> Suc (ck_length_of (fst s') (snd s'))"
        using Next by (cases st) (auto split: option.splits if_splits)
      ultimately show ?thesis by simp
    next
      case (Stop r s')
      with 2 False show ?thesis
        by (cases st; cases r) (auto split: option.splits if_splits)
    qed
  qed
qed simp

text \<open>The shortest completion of each state.\<close>

fun ck_completion :: "chunk_state \<Rightarrow> nat \<Rightarrow> byte list" where
  "ck_completion sw_chunk_start sz = [b_0, CR, LF, CR, LF]"
| "ck_completion sw_chunk_size sz = [CR, LF] @ (if sz = 0 then [CR, LF]
     else replicate sz 0 @ [CR, LF, b_0, CR, LF, CR, LF])"
| "ck_completion sw_chunk_extension sz = [CR, LF] @ replicate sz 0 @ [CR, LF, b_0, CR, LF, CR, LF]"
| "ck_completion sw_chunk_extension_almost_done sz =
     [LF] @ replicate sz 0 @ [CR, LF, b_0, CR, LF, CR, LF]"
| "ck_completion sw_chunk_data sz = replicate sz 0 @ [CR, LF, b_0, CR, LF, CR, LF]"
| "ck_completion sw_after_data sz = [CR, LF, b_0, CR, LF, CR, LF]"
| "ck_completion sw_after_data_almost_done sz = [LF, b_0, CR, LF, CR, LF]"
| "ck_completion sw_last_chunk_extension sz = [CR, LF, CR, LF]"
| "ck_completion sw_last_chunk_extension_almost_done sz = [LF, CR, LF]"
| "ck_completion sw_trailer sz = [CR, LF]"
| "ck_completion sw_trailer_almost_done sz = [LF]"
| "ck_completion sw_trailer_header sz = [CR, LF, CR, LF]"
| "ck_completion sw_trailer_header_almost_done sz = [LF, CR, LF]"

lemma hex_digit_0 [simp]: "hex_digit b_0 = Some 0"
  by (simp add: hex_digit_def is_digit_def digit_val_def)

lemma ck_completion_dechunk:
  assumes "ck_ok (st, sz)" "sz \<le> MAX_OFF_T div 16"
  shows "length (ck_completion st sz) = ck_length_of st sz
     \<and> (\<exists>out. dechunk (st, sz) (ck_completion st sz) = Some (out, []))"
  using assms by (cases st) (auto simp: ck_ok_def dechunk_data)

section \<open>The parser against the decoder\<close>

lemma ck_step_buf: "ck_step keep buf p c s = ck_step keep [] 0 c s"
  by (cases s; cases "fst s") (auto split: option.split)

lemma run_dechunk:
  "run_bytes (ck_step False) buf p s = (res, q, s') \<Longrightarrow> p \<le> length buf
     \<Longrightarrow> dechunk s (drop p buf @ w) =
       (case res of
          None \<Rightarrow> dechunk s' w
        | Some CK_data \<Rightarrow> dechunk s' (drop q buf @ w)
        | Some CK_done \<Rightarrow> Some ([], drop (Suc q) buf @ w)
        | Some CK_invalid \<Rightarrow> None)"
proof (induction "length buf - p" arbitrary: p s)
  case 0
  then show ?case by simp
next
  case (Suc n)
  then have p: "p < length buf" by simp
  obtain st sz where s: "s = (st, sz)" by fastforce
  have dp: "drop p buf @ w = buf ! p # (drop (Suc p) buf @ w)" using p by (simp add: Cons_nth_drop_Suc)
  show ?case
  proof (cases "ck_step False buf p (buf ! p) s")
    case (Next t)
    with Suc p have IH: "dechunk t (drop (Suc p) buf @ w) =
       (case res of
          None \<Rightarrow> dechunk s' w
        | Some CK_data \<Rightarrow> dechunk s' (drop q buf @ w)
        | Some CK_done \<Rightarrow> Some ([], drop (Suc q) buf @ w)
        | Some CK_invalid \<Rightarrow> None)"
      by (intro Suc.hyps(1)) (auto simp: run_bytes_Next)
    have "st \<noteq> sw_chunk_data" using Next s by auto
    moreover have "ck_step False [] 0 (buf ! p) (st, sz) = Next t"
      using Next s ck_step_buf by metis
    ultimately show ?thesis unfolding dp IH [symmetric] s by simp
  next
    case (Stop r t)
    with Suc.prems p have r: "res = Some r" "q = p" "s' = t" by (simp_all add: run_bytes_Stop)
    show ?thesis
    proof (cases "st = sw_chunk_data")
      case True
      with Stop r s show ?thesis by auto
    next
      case False
      then have "r \<noteq> CK_data" using Stop s by (cases st) (auto split: option.splits if_splits)
      moreover have "ck_step False [] 0 (buf ! p) (st, sz) = Stop r t"
        using Stop s ck_step_buf by metis
      ultimately show ?thesis unfolding dp using False s r by (cases r) simp_all
    qed
  qed
qed

lemma dechunk_size_overflow: "sz > MAX_OFF_T div 16 \<Longrightarrow> dechunk (sw_chunk_size, sz) w = None"
  by (cases w) auto

lemma map_apfst_append:
  "map_option (apfst ((@) (xs @ ys))) z = map_option (apfst ((@) xs)) (map_option (apfst ((@) ys)) z)"
  by (cases z) auto

lemma map_apfst_Nil [simp]: "map_option (apfst ((@) [])) z = z"
  by (cases z) auto

lemma dechunk_consume:
  assumes "0 < sz" "length ys \<le> sz"
  shows "dechunk (sw_chunk_data, sz) (ys @ w) = map_option (apfst ((@) ys))
     (dechunk (if length ys = sz then sw_after_data else sw_chunk_data, sz - length ys) w)"
proof (cases "length ys = sz")
  case True
  with assms show ?thesis by (simp add: dechunk_data)
next
  case False
  with assms have "0 < sz - length ys" by simp
  with False assms show ?thesis
    by (auto simp: dechunk_data map_apfst_append)
qed

text \<open>
  What one call of the parser does to a body, for every possible continuation \<open>w\<close> of the bytes
  in the buffer. On \<open>NGX_OK\<close> the parser stands at the first byte of chunk data.
\<close>

lemma parse_chunked_dechunk:
  assumes "ck_valid ctx" "b_pos b \<le> length (b_data b)"
    and "ngx_http_parse_chunked False b ctx = (rc, b', ctx')"
  shows "(rc = NGX_OK \<longrightarrow> b_data b' = b_data b \<and> b_pos b \<le> b_pos b' \<and> b_pos b' < length (b_data b)
           \<and> 0 < ck_size ctx' \<and> ck_size ctx' \<le> MAX_OFF_T div 16 \<and> ck_state ctx' = sw_chunk_data
           \<and> (\<forall>w. dechunk (ck_entry ctx) (drop (b_pos b) (b_data b) @ w)
                = dechunk (sw_chunk_data, ck_size ctx') (drop (b_pos b') (b_data b) @ w)))
    \<and> (rc = NGX_AGAIN \<longrightarrow> b_data b' = b_data b \<and> b_pos b' = length (b_data b)
           \<and> ck_valid ctx' \<and> ck_length ctx' = ck_length_of (ck_state ctx') (ck_size ctx')
           \<and> ck_entry ctx' = (ck_state ctx', ck_size ctx')
           \<and> (\<forall>w. dechunk (ck_entry ctx) (drop (b_pos b) (b_data b) @ w) = dechunk (ck_entry ctx') w))
    \<and> (rc = NGX_DONE \<longrightarrow> b_data b' = b_data b \<and> b_pos b < b_pos b' \<and> b_pos b' \<le> length (b_data b)
           \<and> (\<forall>w. dechunk (ck_entry ctx) (drop (b_pos b) (b_data b) @ w)
                = Some ([], drop (b_pos b') (b_data b) @ w)))
    \<and> (rc = NGX_ERROR \<longrightarrow> (\<forall>w. dechunk (ck_entry ctx) (drop (b_pos b) (b_data b) @ w) = None))
    \<and> rc \<in> {NGX_OK, NGX_AGAIN, NGX_DONE, NGX_ERROR}"
proof -
  obtain res q st sz where run:
      "run_bytes (ck_step False) (b_data b) (b_pos b) (ck_entry ctx) = (res, q, st, sz)"
    by (metis prod_cases4)
  note dc = run_dechunk [OF run assms(2)]
  have ok: "ck_ok (st, sz)" "b_pos b \<le> q" "q \<le> length (b_data b)"
    using parse_chunked_run [OF assms(1,2) run] by auto
  have big: "\<forall>w. dechunk (st, sz) w = None" if "sz > MAX_OFF_T - 9"
    using that ok(1) dechunk_size_overflow [of sz]
    by (cases "st = sw_chunk_size") (auto simp: ck_ok_def)
  have entry: "ck_entry (ctx\<lparr>ck_state := st, ck_size := sz, ck_length := l\<rparr>) = (st, sz)" for l
    using ok(1) by (auto simp: ck_entry_def ck_ok_def)
  consider (again) "res = None" | (data) "res = Some CK_data" | (fin) "res = Some CK_done"
    | (inv) "res = Some CK_invalid"
    by (metis ck_exit.exhaust option.exhaust)
  then show ?thesis
  proof cases
    case again
    then have "q = length (b_data b)"
      using cki.run_again [OF run [unfolded again]] assms(1,2) by (simp add: ck_valid_def)
    with again dc big ok entry show ?thesis
      using assms(3) run
      by (auto simp: ngx_http_parse_chunked_def ck_data_def Let_def ck_ok_def split: if_splits)
  next
    case data
    from run_bytes_Some [OF run [unfolded this]] obtain t where
      "q < length (b_data b)" "ck_step False (b_data b) q (b_data b ! q) t = Stop CK_data (st, sz)" by blast
    then have q: "q < length (b_data b)" "st = sw_chunk_data"
      by (auto elim!: ck_step.elims split: option.splits if_splits)
    with data dc big ok show ?thesis
      using assms(3) run
      by (auto simp: ngx_http_parse_chunked_def ck_data_def Let_def ck_ok_def split: if_splits)
  next
    case fin
    from run_bytes_Some [OF run [unfolded this]] have "q < length (b_data b)" by blast
    with fin dc ok show ?thesis
      using assms(3) run by (auto simp: ngx_http_parse_chunked_def)
  next
    case inv
    with dc show ?thesis
      using assms(3) run by (auto simp: ngx_http_parse_chunked_def)
  qed
qed

text \<open>
  C20: When the chunked parser asks for more data, \<open>ctx->length\<close> is the least number of bytes
  that can complete the body: no continuation is a complete body with fewer bytes, so a read of
  that many bytes never takes from the next request; and unless the size line has already
  overflowed, some continuation of exactly that length completes it.
\<close>

theorem chunked_length_exact:
  assumes "ck_valid ctx" "b_pos b \<le> length (b_data b)"
    and "ngx_http_parse_chunked False b ctx = (NGX_AGAIN, b', ctx')"
  shows "(\<forall>w out rest. dechunk (ck_entry ctx') w = Some (out, rest)
            \<longrightarrow> ck_length ctx' + length rest \<le> length w)
    \<and> (ck_size ctx' \<le> MAX_OFF_T div 16
         \<longrightarrow> (\<exists>w out. length w = ck_length ctx' \<and> dechunk (ck_entry ctx') w = Some (out, [])))"
proof -
  let ?st = "ck_state ctx'" and ?sz = "ck_size ctx'"
  have facts: "ck_ok (?st, ?sz)" "ck_length ctx' = ck_length_of ?st ?sz" "ck_entry ctx' = (?st, ?sz)"
    using parse_chunked_dechunk [OF assms] by (auto simp: ck_valid_def)
  show ?thesis
    using dechunk_length [of "(?st, ?sz)"] ck_completion_dechunk [OF facts(1)] facts by fastforce
qed

theorem chunked_length_exact_witness:
  "\<exists>b' ctx'. ngx_http_parse_chunked False \<lparr>b_data = [53, 13], b_pos = 0\<rparr> fresh_chunked
      = (NGX_AGAIN, b', ctx') \<and> ck_length ctx' = 13
      \<and> (\<forall>w out rest. dechunk (ck_entry ctx') w = Some (out, rest) \<longrightarrow> 13 + length rest \<le> length w)
      \<and> (\<exists>w out. length w = 13 \<and> dechunk (ck_entry ctx') w = Some (out, []))"
  using chunked_length_exact [OF fresh_chunked_valid _ sample_size_line] sample_size_line by simp

end
