(* ===== verification/Http_Body.thy ===== *)
theory Http_Body
  imports Http_Chunked_Spec
begin

text \<open>
  Reading a request body: the filters of \<open>src/http/ngx_http_request_body.c\<close> that turn received
  buffers into body data. The chunked filter removes the chunk headers in place: small chunks
  are moved down inside the received buffer to join the previous output buffer. Its loop is
  modelled on a mutable buffer, with output buffers as ranges of it, and shown to deliver
  exactly the payload that the grammar of chunked bodies assigns to the bytes received, however
  they were split into reads.
\<close>

section \<open>The chunked filter\<close>

text \<open>The part of \<open>ngx_http_request_body_t\<close> and \<open>headers_in\<close> the filters use, and the two
  directives they consult: \<open>client_max_body_size\<close> and the size of
  \<open>large_client_header_buffers\<close>.\<close>

record request_body =
  rb_rest :: int
  rb_chunked :: ngx_http_chunked
  rb_content_length_n :: int

record body_conf =
  client_max_body_size :: nat
  large_client_header_size :: int

abbreviation (input) NGX_HTTP_BAD_REQUEST :: nat where "NGX_HTTP_BAD_REQUEST \<equiv> 400"
abbreviation (input) NGX_HTTP_REQUEST_ENTITY_TOO_LARGE :: nat
  where "NGX_HTTP_REQUEST_ENTITY_TOO_LARGE \<equiv> 413"
abbreviation (input) NGX_HTTP_INTERNAL_SERVER_ERROR :: nat
  where "NGX_HTTP_INTERNAL_SERVER_ERROR \<equiv> 500"

text \<open>An output buffer handed to the next filter: its bytes and \<open>last_buf\<close>.\<close>

record out_buf =
  ob_bytes :: "byte list"
  ob_last_buf :: bool

text \<open>\<open>while (rb->chunked->size) { *b->last++ = *cl->buf->pos++; rb->chunked->size--; }\<close> and
  \<open>ngx_memmove\<close>, inside one buffer: \<open>n\<close> bytes from offset \<open>src\<close> to offset \<open>dst\<close>.\<close>

fun copy_bytes :: "nat \<Rightarrow> nat \<Rightarrow> nat \<Rightarrow> byte list \<Rightarrow> byte list" where
  "copy_bytes 0 dst src data = data"
| "copy_bytes (Suc n) dst src data = copy_bytes n (Suc dst) (Suc src) (data[dst := data ! src])"

fun write_at :: "nat \<Rightarrow> byte list \<Rightarrow> byte list \<Rightarrow> byte list" where
  "write_at i [] data = data"
| "write_at i (x # xs) data = write_at (Suc i) xs (data[i := x])"

definition ngx_memmove :: "nat \<Rightarrow> nat \<Rightarrow> nat \<Rightarrow> byte list \<Rightarrow> byte list" where
  "ngx_memmove n dst src data = write_at dst (slice src (src + n) data) data"

lemma length_copy_bytes [simp]: "length (copy_bytes n dst src data) = length data"
  by (induction n arbitrary: dst src data) simp_all

lemma length_write_at [simp]: "length (write_at i xs data) = length data"
  by (induction xs arbitrary: i data) simp_all

lemma length_ngx_memmove [simp]: "length (ngx_memmove n dst src data) = length data"
  by (simp add: ngx_memmove_def)

text \<open>The locals of the loop over one received buffer: the buffer itself, the chunk context,
  \<open>content_length_n\<close> and the output buffers made from it so far, as ranges \<open>(pos, last)\<close>. The
  local \<open>b\<close> is the last of them, \<open>NULL\<close> before the first.\<close>

record chunk_loop =
  cl_buf :: ngx_buf
  cl_ctx :: ngx_http_chunked
  cl_length_n :: int
  cl_out :: "(nat \<times> nat) list"

datatype chunk_loop_res = CL_again chunk_loop | CL_done chunk_loop | CL_error nat

text \<open>A chunk of at most 128 bytes that is complete in the buffer joins the output buffer \<open>b\<close>.\<close>

definition cl_merge :: "ngx_buf \<Rightarrow> ngx_http_chunked \<Rightarrow> chunk_loop \<Rightarrow> chunk_loop" where
  "cl_merge b ctx s =
     (let sz = ck_size ctx; (p, l) = last (cl_out s);
          copy = (if sz < 8 then copy_bytes else ngx_memmove)
      in s\<lparr>cl_buf := b\<lparr>b_data := copy sz l (b_pos b) (b_data b), b_pos := b_pos b + sz\<rparr>,
           cl_ctx := ctx\<lparr>ck_size := 0\<rparr>,
           cl_length_n := cl_length_n s + int sz,
           cl_out := butlast (cl_out s) @ [(p, l + sz)]\<rparr>)"

text \<open>Otherwise a new output buffer takes what the buffer has of the chunk.\<close>

definition cl_new_buf :: "ngx_buf \<Rightarrow> ngx_http_chunked \<Rightarrow> chunk_loop \<Rightarrow> chunk_loop" where
  "cl_new_buf b ctx s =
     (let avail = length (b_data b) - b_pos b; sz = ck_size ctx in
      if avail > sz then
        s\<lparr>cl_buf := b\<lparr>b_pos := b_pos b + sz\<rparr>, cl_ctx := ctx\<lparr>ck_size := 0\<rparr>,
          cl_length_n := cl_length_n s + int sz, cl_out := cl_out s @ [(b_pos b, b_pos b + sz)]\<rparr>
      else
        s\<lparr>cl_buf := b\<lparr>b_pos := length (b_data b)\<rparr>, cl_ctx := ctx\<lparr>ck_size := sz - avail\<rparr>,
          cl_length_n := cl_length_n s + int avail,
          cl_out := cl_out s @ [(b_pos b, length (b_data b))]\<rparr>)"

lemma parse_chunked_ok_progress:
  assumes "ngx_http_parse_chunked keep b ctx = (NGX_OK, b', ctx')"
  shows "b_data b' = b_data b \<and> b_pos b \<le> b_pos b' \<and> b_pos b' < length (b_data b)
     \<and> (ck_size ctx' = 0 \<longrightarrow> b_pos b < b_pos b')"
proof -
  obtain res q st sz where run:
      "run_bytes (ck_step keep) (b_data b) (b_pos b) (ck_entry ctx) = (res, q, st, sz)"
    by (metis prod_cases4)
  with assms have res: "res = Some CK_data" "b' = b\<lparr>b_pos := q\<rparr>" "ck_size ctx' = sz"
    by (auto simp: ngx_http_parse_chunked_def ck_data_def Let_def
        split: option.splits ck_exit.splits if_splits)
  have q: "b_pos b \<le> q" "q < length (b_data b)"
    using run_bytes_Some [OF run [unfolded res(1)]] by auto
  have "b_pos b < q" if "sz = 0"
  proof (rule ccontr)
    assume "\<not> b_pos b < q"
    with q have "q = b_pos b" by simp
    have "ck_step keep (b_data b) (b_pos b) (b_data b ! b_pos b) (ck_entry ctx)
        = Stop CK_data (st, sz)"
    proof (cases "ck_step keep (b_data b) (b_pos b) (b_data b ! b_pos b) (ck_entry ctx)")
      case (Next t)
      with run q res(1) \<open>q = b_pos b\<close> show ?thesis
        using run_bytes_Some [of "ck_step keep" "b_data b" "Suc (b_pos b)" t CK_data q "(st, sz)"]
        by (auto simp: run_bytes_Next)
    next
      case (Stop r t)
      with run q res(1) \<open>q = b_pos b\<close> show ?thesis by (auto simp: run_bytes_Stop)
    qed
    then have "ck_entry ctx = (sw_chunk_data, 0)"
      using that by (auto elim!: ck_step.elims split: option.splits if_splits)
    then show False by (auto simp: ck_entry_def split: if_splits)
  qed
  with q res show ?thesis by simp
qed

definition cl_left :: "chunk_loop \<Rightarrow> nat" where
  "cl_left s = length (b_data (cl_buf s)) - b_pos (cl_buf s)"

lemma cl_left_less:
  assumes "ngx_http_parse_chunked False (cl_buf s) (cl_ctx s) = (NGX_OK, b, ctx)"
  shows "cl_left (cl_merge b ctx s) < cl_left s" "cl_left (cl_new_buf b ctx s) < cl_left s"
  using parse_chunked_ok_progress [OF assms]
  by (auto simp: cl_left_def cl_merge_def cl_new_buf_def Let_def split: prod.split)

function cl_run :: "body_conf \<Rightarrow> (nat \<Rightarrow> bool) \<Rightarrow> chunk_loop \<Rightarrow> chunk_loop_res" where
  "cl_run conf alloc_ok s =
     (case ngx_http_parse_chunked False (cl_buf s) (cl_ctx s) of (rc, b, ctx) \<Rightarrow>
        if rc = NGX_OK then
          (if client_max_body_size conf \<noteq> 0
              \<and> int (client_max_body_size conf) - cl_length_n s < int (ck_size ctx)
           then CL_error NGX_HTTP_REQUEST_ENTITY_TOO_LARGE
           else if cl_out s \<noteq> [] \<and> ck_size ctx \<le> 128 \<and> ck_size ctx \<le> length (b_data b) - b_pos b
           then cl_run conf alloc_ok (cl_merge b ctx s)
           else if \<not> alloc_ok (length (cl_out s)) then CL_error NGX_HTTP_INTERNAL_SERVER_ERROR
           else cl_run conf alloc_ok (cl_new_buf b ctx s))
        else if rc = NGX_DONE then CL_done (s\<lparr>cl_buf := b, cl_ctx := ctx\<rparr>)
        else if rc = NGX_AGAIN then CL_again (s\<lparr>cl_buf := b, cl_ctx := ctx\<rparr>)
        else CL_error NGX_HTTP_BAD_REQUEST)"
  by pat_completeness auto
termination
  by (relation "measure (\<lambda>(conf, alloc_ok, s). cl_left s)") (auto simp: cl_left_less)

declare cl_run.simps [simp del]

text \<open>The buffers of a chain in turn. The argument \<open>k\<close> counts the output buffers so far:
  \<open>alloc_ok i\<close> says whether \<open>ngx_chain_get_free_buf\<close> finds the \<open>i\<close>-th of this call.\<close>

definition cl_start :: "request_body \<Rightarrow> ngx_buf \<Rightarrow> chunk_loop" where
  "cl_start rb b = \<lparr>cl_buf = b, cl_ctx = rb_chunked rb, cl_length_n = rb_content_length_n rb, cl_out = []\<rparr>"

definition cl_bufs :: "chunk_loop \<Rightarrow> out_buf list" where
  "cl_bufs s = map (\<lambda>(p, l). \<lparr>ob_bytes = slice p l (b_data (cl_buf s)), ob_last_buf = False\<rparr>) (cl_out s)"

definition cl_store :: "int \<Rightarrow> chunk_loop \<Rightarrow> request_body" where
  "cl_store rest s = \<lparr>rb_rest = rest, rb_chunked = cl_ctx s, rb_content_length_n = cl_length_n s\<rparr>"

type_synonym filter_res = "nat + out_buf list \<times> request_body \<times> ngx_buf list"

definition filter_cons :: "out_buf list \<Rightarrow> ngx_buf \<Rightarrow> filter_res \<Rightarrow> filter_res" where
  "filter_cons out b r = map_sum id (\<lambda>(out', rb, bs). (out @ out', rb, b # bs)) r"

definition last_out_buf :: out_buf where
  "last_out_buf = \<lparr>ob_bytes = [], ob_last_buf = True\<rparr>"

fun chunked_chain :: "body_conf \<Rightarrow> (nat \<Rightarrow> bool) \<Rightarrow> nat \<Rightarrow> request_body \<Rightarrow> ngx_buf list \<Rightarrow> filter_res" where
  "chunked_chain conf alloc_ok k rb [] = Inr ([], rb, [])"
| "chunked_chain conf alloc_ok k rb (b # bs) =
     (case cl_run conf (\<lambda>i. alloc_ok (k + i)) (cl_start rb b) of
        CL_error e \<Rightarrow> Inl e
      | CL_done s \<Rightarrow>
          if \<not> alloc_ok (k + length (cl_out s)) then Inl NGX_HTTP_INTERNAL_SERVER_ERROR
          else filter_cons (cl_bufs s @ [last_out_buf]) (cl_buf s)
                 (chunked_chain conf alloc_ok (k + length (cl_out s) + 1) (cl_store 0 s) bs)
      | CL_again s \<Rightarrow>
          filter_cons (cl_bufs s) (cl_buf s)
            (chunked_chain conf alloc_ok (k + length (cl_out s))
               (cl_store (max (int (ck_length (cl_ctx s))) (large_client_header_size conf)) s) bs))"

definition ngx_http_request_body_chunked_filter ::
    "body_conf \<Rightarrow> bool \<Rightarrow> (nat \<Rightarrow> bool) \<Rightarrow> request_body \<Rightarrow> ngx_buf list \<Rightarrow> filter_res" where
  "ngx_http_request_body_chunked_filter conf pcalloc_ok alloc_ok rb in_bufs =
     (if rb_rest rb = - 1 then
        (if \<not> pcalloc_ok then Inl NGX_HTTP_INTERNAL_SERVER_ERROR
         else chunked_chain conf alloc_ok 0
                \<lparr>rb_rest = large_client_header_size conf, rb_chunked = fresh_chunked,
                 rb_content_length_n = 0\<rparr> in_bufs)
      else chunked_chain conf alloc_ok 0 rb in_bufs)"

section \<open>The length filter\<close>

fun length_chain :: "(nat \<Rightarrow> bool) \<Rightarrow> nat \<Rightarrow> request_body \<Rightarrow> ngx_buf list \<Rightarrow> filter_res" where
  "length_chain alloc_ok k rb [] = Inr ([], rb, [])"
| "length_chain alloc_ok k rb (b # bs) =
     (if rb_rest rb = 0 then Inr ([], rb, b # bs)
      else if \<not> alloc_ok k then Inl NGX_HTTP_INTERNAL_SERVER_ERROR
      else
        (let sz = length (b_data b) - b_pos b in
         if int sz < rb_rest rb then
           filter_cons [\<lparr>ob_bytes = drop (b_pos b) (b_data b), ob_last_buf = False\<rparr>]
             (b\<lparr>b_pos := length (b_data b)\<rparr>)
             (length_chain alloc_ok (Suc k) (rb\<lparr>rb_rest := rb_rest rb - int sz\<rparr>) bs)
         else
           (let n = nat (rb_rest rb) in
            filter_cons [\<lparr>ob_bytes = slice (b_pos b) (b_pos b + n) (b_data b), ob_last_buf = True\<rparr>]
              (b\<lparr>b_pos := b_pos b + n\<rparr>)
              (length_chain alloc_ok (Suc k) (rb\<lparr>rb_rest := 0\<rparr>) bs))))"

definition ngx_http_request_body_length_filter ::
    "(nat \<Rightarrow> bool) \<Rightarrow> request_body \<Rightarrow> ngx_buf list \<Rightarrow> filter_res" where
  "ngx_http_request_body_length_filter alloc_ok rb in_bufs =
     (if rb_rest rb = - 1 then
        (let rb' = rb\<lparr>rb_rest := rb_content_length_n rb\<rparr> in
         if rb_rest rb' = 0 then
           (if \<not> alloc_ok 0 then Inl NGX_HTTP_INTERNAL_SERVER_ERROR
            else map_sum id (\<lambda>(out, r). (last_out_buf # out, r)) (length_chain alloc_ok 1 rb' in_bufs))
         else length_chain alloc_ok 0 rb' in_bufs)
      else length_chain alloc_ok 0 rb in_bufs)"

definition ngx_http_request_body_filter ::
    "body_conf \<Rightarrow> bool \<Rightarrow> bool \<Rightarrow> (nat \<Rightarrow> bool) \<Rightarrow> request_body \<Rightarrow> ngx_buf list \<Rightarrow> filter_res" where
  "ngx_http_request_body_filter conf is_chunked pcalloc_ok alloc_ok rb in_bufs =
     (if is_chunked then ngx_http_request_body_chunked_filter conf pcalloc_ok alloc_ok rb in_bufs
      else ngx_http_request_body_length_filter alloc_ok rb in_bufs)"

section \<open>Discarding a body\<close>

function discard_chunked :: "int \<Rightarrow> ngx_buf \<Rightarrow> ngx_http_chunked
    \<Rightarrow> nat + int \<times> ngx_buf \<times> ngx_http_chunked" where
  "discard_chunked lch b0 ctx0 =
     (case ngx_http_parse_chunked False b0 ctx0 of (rc, b, ctx) \<Rightarrow>
        if rc = NGX_OK then
          (let sz = length (b_data b) - b_pos b in
           if sz > ck_size ctx
           then discard_chunked lch (b\<lparr>b_pos := b_pos b + ck_size ctx\<rparr>) (ctx\<lparr>ck_size := 0\<rparr>)
           else discard_chunked lch (b\<lparr>b_pos := length (b_data b)\<rparr>) (ctx\<lparr>ck_size := ck_size ctx - sz\<rparr>))
        else if rc = NGX_DONE then Inr (0, b, ctx)
        else if rc = NGX_AGAIN then Inr (max (int (ck_length ctx)) lch, b, ctx)
        else Inl NGX_HTTP_BAD_REQUEST)"
  by pat_completeness auto
termination
  by (relation "measure (\<lambda>(lch, b, ctx). length (b_data b) - b_pos b)")
    (auto dest!: parse_chunked_ok_progress [OF sym])

declare discard_chunked.simps [simp del]

text \<open>The second component of the result is \<open>content_length_n\<close>, the number of bytes still to
  discard.\<close>

definition ngx_http_discard_request_body_filter :: "int \<Rightarrow> bool \<Rightarrow> ngx_buf \<Rightarrow> ngx_http_chunked \<Rightarrow> int
    \<Rightarrow> nat + int \<times> ngx_buf \<times> ngx_http_chunked" where
  "ngx_http_discard_request_body_filter lch is_chunked b ctx content_length_n =
     (if is_chunked then discard_chunked lch b ctx
      else
        (let sz = length (b_data b) - b_pos b in
         if int sz > content_length_n
         then Inr (0, b\<lparr>b_pos := b_pos b + nat content_length_n\<rparr>, ctx)
         else Inr (content_length_n - int sz, b\<lparr>b_pos := length (b_data b)\<rparr>, ctx)))"

section \<open>Moving chunk data down inside the buffer\<close>

text \<open>Both ways of moving a chunk down give the same buffer, as the destination is not after the
  source.\<close>

definition splice :: "nat \<Rightarrow> nat \<Rightarrow> nat \<Rightarrow> byte list \<Rightarrow> byte list" where
  "splice n dst src data = take dst data @ slice src (src + n) data @ drop (dst + n) data"

lemma write_at_eq:
  "i + length xs \<le> length data \<Longrightarrow> write_at i xs data = take i data @ xs @ drop (i + length xs) data"
proof (induction xs arbitrary: i data)
  case (Cons x xs)
  then have "write_at (Suc i) xs (data[i := x])
      = take (Suc i) (data[i := x]) @ xs @ drop (Suc i + length xs) (data[i := x])"
    by simp
  also have "take (Suc i) (data[i := x]) = take i data @ [x]"
    using Cons.prems by (simp add: take_Suc_conv_app_nth)
  finally show ?case by simp
qed simp

lemma ngx_memmove_eq:
  "dst \<le> src \<Longrightarrow> src + n \<le> length data \<Longrightarrow> ngx_memmove n dst src data = splice n dst src data"
  by (simp add: ngx_memmove_def splice_def write_at_eq length_slice)

lemma copy_bytes_eq:
  "dst \<le> src \<Longrightarrow> src + n \<le> length data \<Longrightarrow> copy_bytes n dst src data = splice n dst src data"
proof (induction n arbitrary: dst src data)
  case 0
  then show ?case by (simp add: splice_def)
next
  case (Suc n)
  let ?d = "data[dst := data ! src]"
  have "copy_bytes n (Suc dst) (Suc src) ?d = splice n (Suc dst) (Suc src) ?d"
    using Suc by simp
  also have "take (Suc dst) ?d = take dst data @ [data ! src]"
    using Suc.prems by (simp add: take_Suc_conv_app_nth)
  then have "splice n (Suc dst) (Suc src) ?d = splice (Suc n) dst src data"
    using Suc.prems slice_Cons [of src "src + Suc n" data] by (simp add: splice_def slice_def)
  finally show ?case by simp
qed

lemma slice_take: "e \<le> n \<Longrightarrow> slice u e (take n xs) = slice u e xs"
  by (simp add: slice_def drop_take min_def)

lemma slice_splice_before:
  "e \<le> dst \<Longrightarrow> dst \<le> length data \<Longrightarrow> slice u e (splice n dst src data) = slice u e data"
  by (simp add: splice_def slice_append_left slice_take)

lemma slice_splice_moved:
  assumes "dst \<le> src" "src + n \<le> length data"
  shows "slice dst (dst + n) (splice n dst src data) = slice src (src + n) data"
  using assms by (simp add: splice_def slice_def)

lemma drop_splice:
  assumes "dst \<le> src" "src + n \<le> length data" "src + n \<le> i"
  shows "drop i (splice n dst src data) = drop i data"
  using assms by (simp add: splice_def length_slice)

lemma length_splice [simp]:
  "dst \<le> src \<Longrightarrow> src + n \<le> length data \<Longrightarrow> length (splice n dst src data) = length data"
  by (simp add: splice_def length_slice)

text \<open>The output buffers are disjoint ranges in ascending order, before the read position.\<close>

fun segs_ok :: "nat \<Rightarrow> (nat \<times> nat) list \<Rightarrow> nat \<Rightarrow> bool" where
  "segs_ok lo [] hi \<longleftrightarrow> lo \<le> hi"
| "segs_ok lo ((p, l) # segs) hi \<longleftrightarrow> lo \<le> p \<and> p \<le> l \<and> segs_ok l segs hi"

lemma segs_ok_bound: "segs_ok lo segs hi \<Longrightarrow> lo \<le> hi"
  by (induction lo segs hi rule: segs_ok.induct) auto

lemma segs_ok_mono: "segs_ok lo segs hi \<Longrightarrow> hi \<le> hi' \<Longrightarrow> segs_ok lo segs hi'"
  by (induction lo segs hi rule: segs_ok.induct) auto

lemma segs_ok_snoc:
  "segs_ok lo (segs @ [(p, l)]) hi \<longleftrightarrow> segs_ok lo segs p \<and> p \<le> l \<and> l \<le> hi"
  by (induction lo segs hi rule: segs_ok.induct) auto

lemma segs_ok_before: "segs_ok lo segs hi \<Longrightarrow> (p, l) \<in> set segs \<Longrightarrow> l \<le> hi"
  by (induction lo segs hi rule: segs_ok.induct) (auto dest: segs_ok_bound)

definition segs_bytes :: "byte list \<Rightarrow> (nat \<times> nat) list \<Rightarrow> byte list" where
  "segs_bytes data segs = concat (map (\<lambda>(p, l). slice p l data) segs)"

lemma segs_bytes_snoc [simp]: "segs_bytes data (segs @ [(p, l)]) = segs_bytes data segs @ slice p l data"
  by (simp add: segs_bytes_def)

lemma segs_bytes_splice:
  assumes "segs_ok lo segs dst" "dst \<le> length data"
  shows "segs_bytes (splice n dst src data) segs = segs_bytes data segs"
proof -
  have "slice p l (splice n dst src data) = slice p l data" if "(p, l) \<in> set segs" for p l
    using segs_ok_before [OF assms(1) that] assms(2) by (rule slice_splice_before)
  then show ?thesis by (auto simp: segs_bytes_def intro!: arg_cong [of _ _ concat])
qed

lemma segs_bytes_merge:
  assumes "segs_ok lo (segs @ [(p, l)]) src" "src + n \<le> length data"
  shows "segs_bytes (splice n l src data) (segs @ [(p, l + n)])
     = segs_bytes data (segs @ [(p, l)]) @ slice src (src + n) data"
proof -
  have ord: "segs_ok lo segs l" "p \<le> l" "l \<le> src" "l \<le> length data"
    using assms by (auto simp: segs_ok_snoc intro: segs_ok_mono)
  have "slice p (l + n) (splice n l src data)
      = slice p l data @ slice src (src + n) data"
    using slice_split [of p l "l + n" "splice n l src data"] ord assms(2)
    by (simp add: slice_splice_before slice_splice_moved)
  then show ?thesis using segs_bytes_splice [OF ord(1,4)] by simp
qed

section \<open>The loop delivers the payload\<close>

definition cl_ok :: "chunk_loop \<Rightarrow> bool" where
  "cl_ok s \<longleftrightarrow> ck_valid (cl_ctx s) \<and> b_pos (cl_buf s) \<le> length (b_data (cl_buf s))
     \<and> segs_ok 0 (cl_out s) (b_pos (cl_buf s))"

abbreviation (input) cl_unread :: "chunk_loop \<Rightarrow> byte list" where
  "cl_unread s \<equiv> drop (b_pos (cl_buf s)) (b_data (cl_buf s))"

abbreviation (input) cl_bytes :: "chunk_loop \<Rightarrow> byte list" where
  "cl_bytes s \<equiv> segs_bytes (b_data (cl_buf s)) (cl_out s)"

text \<open>One round of the loop from \<open>s\<close> to \<open>s'\<close> outputs \<open>x\<close>: the remaining bytes decode to \<open>x\<close>
  followed by what they decode to from \<open>s'\<close>.\<close>

definition cl_moves :: "chunk_loop \<Rightarrow> byte list \<Rightarrow> chunk_loop \<Rightarrow> bool" where
  "cl_moves s x s' \<longleftrightarrow> cl_ok s' \<and> cl_bytes s' = cl_bytes s @ x
     \<and> cl_length_n s' = cl_length_n s + int (length x)
     \<and> (\<forall>w. dechunk (ck_entry (cl_ctx s)) (cl_unread s @ w)
           = map_option (apfst ((@) x)) (dechunk (ck_entry (cl_ctx s')) (cl_unread s' @ w)))"

lemma cl_moves_trans: "cl_moves s x s' \<Longrightarrow> cl_moves s' y s'' \<Longrightarrow> cl_moves s (x @ y) s''"
  by (auto simp: cl_moves_def map_apfst_append)

lemma ck_entry_consumed:
  assumes "ck_state ctx = sw_chunk_data" "n \<le> ck_size ctx" "0 < ck_size ctx"
    "ck_size ctx \<le> MAX_OFF_T div 16"
  shows "ck_entry (ctx\<lparr>ck_size := ck_size ctx - n\<rparr>)
      = (if n = ck_size ctx then sw_after_data else sw_chunk_data, ck_size ctx - n)
    \<and> ck_valid (ctx\<lparr>ck_size := ck_size ctx - n\<rparr>)"
  using assms by (auto simp: ck_entry_def ck_valid_def ck_ok_def)

lemma cl_merge_moves:
  assumes "cl_ok s" "ngx_http_parse_chunked False (cl_buf s) (cl_ctx s) = (NGX_OK, b, ctx)"
    and "cl_out s \<noteq> []" "ck_size ctx \<le> length (b_data b) - b_pos b"
  shows "\<exists>x. cl_moves s x (cl_merge b ctx s) \<and> length x = ck_size ctx"
proof -
  let ?data = "b_data (cl_buf s)" and ?n = "ck_size ctx"
  have parse: "b_data b = ?data" "b_pos (cl_buf s) \<le> b_pos b" "b_pos b < length ?data"
      "0 < ?n" "?n \<le> MAX_OFF_T div 16" "ck_state ctx = sw_chunk_data"
      "\<And>w. dechunk (ck_entry (cl_ctx s)) (cl_unread s @ w)
         = dechunk (sw_chunk_data, ?n) (drop (b_pos b) ?data @ w)"
    using parse_chunked_dechunk [OF _ _ assms(2)] assms(1) by (auto simp: cl_ok_def)
  obtain segs p l where out: "cl_out s = segs @ [(p, l)]"
    using assms(3) by (metis old.prod.exhaust rev_exhaust)
  have ord: "segs_ok 0 (segs @ [(p, l)]) (b_pos b)"
    using assms(1) parse(2) out by (auto simp: cl_ok_def intro: segs_ok_mono)
  then have l: "l \<le> b_pos b" by (simp add: segs_ok_snoc)
  have fits: "b_pos b + ?n \<le> length ?data" using assms(4) parse(1,3) by simp
  define x where "x = slice (b_pos b) (b_pos b + ?n) ?data"
  have x: "length x = ?n" "drop (b_pos b) ?data = x @ drop (b_pos b + ?n) ?data"
    using fits by (simp_all add: x_def length_slice slice_def add.commute flip: drop_drop)
  let ?s' = "cl_merge b ctx s"
  have copy: "(if ?n < 8 then copy_bytes else ngx_memmove) ?n l (b_pos b) ?data
      = splice ?n l (b_pos b) ?data"
    using l fits by (simp add: copy_bytes_eq ngx_memmove_eq)
  have s': "b_data (cl_buf ?s') = splice ?n l (b_pos b) ?data"
      "b_pos (cl_buf ?s') = b_pos b + ?n" "cl_ctx ?s' = ctx\<lparr>ck_size := ?n - ?n\<rparr>"
      "cl_length_n ?s' = cl_length_n s + int ?n" "cl_out ?s' = segs @ [(p, l + ?n)]"
    using copy by (simp_all add: cl_merge_def out parse(1) Let_def)
  have dec: "dechunk (ck_entry (cl_ctx s)) (cl_unread s @ w)
      = map_option (apfst ((@) x)) (dechunk (ck_entry (cl_ctx ?s')) (cl_unread ?s' @ w))" for w
    using dechunk_consume [of ?n x "drop (b_pos b + ?n) ?data @ w"] parse(4-7) x s'
      ck_entry_consumed [of ctx ?n] drop_splice [OF l fits] by simp
  have "cl_ok ?s'"
    using ord fits l parse(4-6) s' ck_entry_consumed [of ctx ?n]
    by (auto simp: cl_ok_def segs_ok_snoc)
  moreover have "cl_bytes ?s' = cl_bytes s @ x"
    using segs_bytes_merge [OF ord fits] s' out by (simp add: x_def)
  ultimately have "cl_moves s x ?s'"
    using dec s'(4) x(1) by (simp add: cl_moves_def)
  with x(1) show ?thesis by blast
qed

lemma cl_new_buf_moves:
  assumes "cl_ok s" "ngx_http_parse_chunked False (cl_buf s) (cl_ctx s) = (NGX_OK, b, ctx)"
  shows "\<exists>x. cl_moves s x (cl_new_buf b ctx s) \<and> length x \<le> ck_size ctx"
proof -
  let ?data = "b_data (cl_buf s)" and ?sz = "ck_size ctx"
  define n where "n = min ?sz (length ?data - b_pos b)"
  have parse: "b_data b = ?data" "b_pos (cl_buf s) \<le> b_pos b" "b_pos b < length ?data"
      "0 < ?sz" "?sz \<le> MAX_OFF_T div 16" "ck_state ctx = sw_chunk_data"
      "\<And>w. dechunk (ck_entry (cl_ctx s)) (cl_unread s @ w)
         = dechunk (sw_chunk_data, ?sz) (drop (b_pos b) ?data @ w)"
    using parse_chunked_dechunk [OF _ _ assms(2)] assms(1) by (auto simp: cl_ok_def)
  have fits: "b_pos b + n \<le> length ?data" "n \<le> ?sz" using parse(3) by (auto simp: n_def)
  define x where "x = slice (b_pos b) (b_pos b + n) ?data"
  have x: "length x = n" "drop (b_pos b) ?data = x @ drop (b_pos b + n) ?data"
    using fits by (simp_all add: x_def length_slice slice_def add.commute flip: drop_drop)
  let ?s' = "cl_new_buf b ctx s"
  have s': "b_data (cl_buf ?s') = ?data" "b_pos (cl_buf ?s') = b_pos b + n"
      "cl_ctx ?s' = ctx\<lparr>ck_size := ?sz - n\<rparr>" "cl_length_n ?s' = cl_length_n s + int n"
      "cl_out ?s' = cl_out s @ [(b_pos b, b_pos b + n)]"
    using parse(1,3) by (auto simp: cl_new_buf_def Let_def n_def min_def)
  have dec: "dechunk (ck_entry (cl_ctx s)) (cl_unread s @ w)
      = map_option (apfst ((@) x)) (dechunk (ck_entry (cl_ctx ?s')) (cl_unread ?s' @ w))" for w
    using dechunk_consume [of ?sz x "drop (b_pos b + n) ?data @ w"] parse(4-7) x fits(2) s'
      ck_entry_consumed [of ctx n] by simp
  have "segs_ok 0 (cl_out s) (b_pos b)"
    using assms(1) parse(2) by (auto simp: cl_ok_def intro: segs_ok_mono)
  then have "cl_ok ?s'"
    using fits parse(4-6) s' ck_entry_consumed [of ctx n] by (auto simp: cl_ok_def segs_ok_snoc)
  then have "cl_moves s x ?s'"
    using dec s' x(1) by (simp add: cl_moves_def x_def)
  with x(1) fits(2) show ?thesis by blast
qed

text \<open>
  The outcome of the loop over one received buffer. Either it asks for more bytes or it has read
  the whole body; in both cases the output buffers hold what the bytes read decode to. Or it
  fails: because no output buffer could be allocated, or because the bytes cannot be continued to
  a body within the limit \<open>client_max_body_size\<close>.
\<close>

definition cl_within :: "body_conf \<Rightarrow> int \<Rightarrow> bool" where
  "cl_within conf n \<longleftrightarrow> client_max_body_size conf = 0 \<or> n \<le> int (client_max_body_size conf)"

fun cl_post :: "body_conf \<Rightarrow> (nat \<Rightarrow> bool) \<Rightarrow> chunk_loop \<Rightarrow> chunk_loop_res \<Rightarrow> bool" where
  "cl_post conf alloc_ok s (CL_again s') \<longleftrightarrow> (\<exists>x. cl_moves s x s') \<and> cl_unread s' = []
     \<and> 0 < ck_length (cl_ctx s') \<and> cl_within conf (cl_length_n s')"
| "cl_post conf alloc_ok s (CL_done s') \<longleftrightarrow> (\<exists>x. cl_bytes s' = cl_bytes s @ x
     \<and> cl_length_n s' = cl_length_n s + int (length x) \<and> cl_within conf (cl_length_n s')
     \<and> (\<forall>w. dechunk (ck_entry (cl_ctx s)) (cl_unread s @ w) = Some (x, cl_unread s' @ w)))"
| "cl_post conf alloc_ok s (CL_error e) \<longleftrightarrow>
     (e = NGX_HTTP_INTERNAL_SERVER_ERROR \<and> (\<exists>n. \<not> alloc_ok n))
     \<or> (\<forall>w x rest. dechunk (ck_entry (cl_ctx s)) (cl_unread s @ w) = Some (x, rest)
          \<longrightarrow> \<not> cl_within conf (cl_length_n s + int (length x)))"

lemma cl_post_moves:
  assumes "cl_moves s x s'" "cl_post conf alloc_ok s' r"
  shows "cl_post conf alloc_ok s r"
proof (cases r)
  case (CL_again t)
  with assms show ?thesis by (auto intro: cl_moves_trans)
next
  case (CL_done t)
  then obtain y where y: "cl_bytes t = cl_bytes s' @ y" "cl_length_n t = cl_length_n s' + int (length y)"
      "cl_within conf (cl_length_n t)"
      "\<And>w. dechunk (ck_entry (cl_ctx s')) (cl_unread s' @ w) = Some (y, cl_unread t @ w)"
    using assms(2) by auto
  show ?thesis
    unfolding CL_done cl_post.simps
    by (rule exI [of _ "x @ y"]) (use y assms(1) in \<open>simp add: cl_moves_def\<close>)
next
  case (CL_error e)
  have "\<not> cl_within conf (cl_length_n s + int (length y))"
    if err: "\<forall>w x rest. dechunk (ck_entry (cl_ctx s')) (cl_unread s' @ w) = Some (x, rest)
          \<longrightarrow> \<not> cl_within conf (cl_length_n s' + int (length x))"
      and y: "dechunk (ck_entry (cl_ctx s)) (cl_unread s @ w) = Some (y, rest)" for w y rest
  proof -
    obtain z where "dechunk (ck_entry (cl_ctx s')) (cl_unread s' @ w) = Some (z, rest)" "y = x @ z"
      using assms(1) y by (auto simp: cl_moves_def)
    with err assms(1) show ?thesis by (fastforce simp: cl_moves_def add.assoc)
  qed
  with assms(2) CL_error show ?thesis by auto
qed

lemma cl_run_post:
  "cl_ok s \<Longrightarrow> cl_within conf (cl_length_n s) \<Longrightarrow> cl_post conf alloc_ok s (cl_run conf alloc_ok s)"
proof (induction "cl_left s" arbitrary: s rule: less_induct)
  case less
  obtain rc b ctx where parse: "ngx_http_parse_chunked False (cl_buf s) (cl_ctx s) = (rc, b, ctx)"
    by (metis prod_cases3)
  have pos: "ck_valid (cl_ctx s)" "b_pos (cl_buf s) \<le> length (b_data (cl_buf s))"
    using less.prems(1) by (auto simp: cl_ok_def)
  note facts = parse_chunked_dechunk [OF pos parse]
  consider (OK) "rc = NGX_OK" | (AGAIN) "rc = NGX_AGAIN" | (DONE) "rc = NGX_DONE"
    | (ERROR) "rc = NGX_ERROR"
    using facts by auto
  then show ?case
  proof cases
    case OK
    note ok = parse [unfolded OK]
    have within: "cl_within conf (cl_length_n s')"
      if "cl_moves s x s'" "length x \<le> ck_size ctx"
        "\<not> (client_max_body_size conf \<noteq> 0
           \<and> int (client_max_body_size conf) - cl_length_n s < int (ck_size ctx))" for x s'
      using that by (auto simp: cl_moves_def cl_within_def)
    have large: "\<not> cl_within conf (cl_length_n s + int (length x))"
      if "client_max_body_size conf \<noteq> 0"
        "int (client_max_body_size conf) - cl_length_n s < int (ck_size ctx)"
        "dechunk (ck_entry (cl_ctx s)) (cl_unread s @ w) = Some (x, rest)" for w x rest
    proof -
      have "dechunk (sw_chunk_data, ck_size ctx) (drop (b_pos b) (b_data (cl_buf s)) @ w) = Some (x, rest)"
        using facts OK that(3) by simp
      then have "ck_size ctx \<le> length x"
        using facts OK by (auto simp: dechunk_data split: if_splits)
      then show ?thesis using that(1,2) by (auto simp: cl_within_def)
    qed
    have merge: "cl_post conf alloc_ok s (cl_run conf alloc_ok (cl_merge b ctx s))"
      if small: "\<not> (client_max_body_size conf \<noteq> 0
           \<and> int (client_max_body_size conf) - cl_length_n s < int (ck_size ctx))"
        and join: "cl_out s \<noteq> []" "ck_size ctx \<le> length (b_data b) - b_pos b"
    proof -
      obtain x where x: "cl_moves s x (cl_merge b ctx s)" "length x = ck_size ctx"
        using cl_merge_moves [OF less.prems(1) ok join] by blast
      with less.hyps [OF cl_left_less(1) [OF ok]] within [OF x(1) _ small] show ?thesis
        by (intro cl_post_moves [OF x(1)]) (simp add: cl_moves_def)
    qed
    have new: "cl_post conf alloc_ok s (cl_run conf alloc_ok (cl_new_buf b ctx s))"
      if small: "\<not> (client_max_body_size conf \<noteq> 0
           \<and> int (client_max_body_size conf) - cl_length_n s < int (ck_size ctx))"
    proof -
      obtain x where x: "cl_moves s x (cl_new_buf b ctx s)" "length x \<le> ck_size ctx"
        using cl_new_buf_moves [OF less.prems(1) ok] by blast
      with less.hyps [OF cl_left_less(2) [OF ok]] within [OF x small] show ?thesis
        by (intro cl_post_moves [OF x(1)]) (simp add: cl_moves_def)
    qed
    show ?thesis
      using large merge new by (subst cl_run.simps) (auto simp: ok)
  next
    case AGAIN
    then have "cl_moves s [] (s\<lparr>cl_buf := b, cl_ctx := ctx\<rparr>)"
      using facts less.prems(1) by (auto simp: cl_moves_def cl_ok_def intro: segs_ok_mono)
    moreover have "0 < ck_length ctx"
      using facts AGAIN by (cases "ck_state ctx") auto
    ultimately show ?thesis
      using AGAIN facts less.prems(2) by (subst cl_run.simps) (auto simp: parse)
  next
    case DONE
    with facts less.prems(2) show ?thesis by (subst cl_run.simps) (auto simp: parse)
  next
    case ERROR
    with facts show ?thesis by (subst cl_run.simps) (auto simp: parse)
  qed
qed

section \<open>Reading a whole body\<close>

text \<open>
  The reads of one request body: the connection delivers \<open>pieces\<close>, each of which
  \<open>ngx_http_do_read_client_request_body\<close> passes to the filter as a chain of one buffer, until
  \<open>rb->rest == 0\<close> and the last buffer has been saved. The result is the body and the bytes left
  over for the next request on the connection.
\<close>

datatype body_read = Body_error nat | Body_more | Body_done "byte list" "byte list"

definition body_cons :: "byte list \<Rightarrow> body_read \<Rightarrow> body_read" where
  "body_cons x r = (case r of Body_done out left \<Rightarrow> Body_done (x @ out) left | _ \<Rightarrow> r)"

definition out_bytes :: "out_buf list \<Rightarrow> byte list" where
  "out_bytes out = concat (map ob_bytes out)"

definition unread :: "ngx_buf list \<Rightarrow> byte list" where
  "unread bs = concat (map (\<lambda>b. drop (b_pos b) (b_data b)) bs)"

abbreviation (input) received :: "byte list \<Rightarrow> ngx_buf" where
  "received p \<equiv> \<lparr>b_data = p, b_pos = 0\<rparr>"

fun read_body :: "body_conf \<Rightarrow> bool \<Rightarrow> request_body \<Rightarrow> byte list list \<Rightarrow> body_read" where
  "read_body conf is_chunked rb [] = Body_more"
| "read_body conf is_chunked rb (p # ps) =
     (case ngx_http_request_body_filter conf is_chunked True (\<lambda>i. True) rb [received p] of
        Inl e \<Rightarrow> Body_error e
      | Inr (out, rb', bs) \<Rightarrow>
          if rb_rest rb' = 0 \<and> (\<exists>b \<in> set out. ob_last_buf b)
          then Body_done (out_bytes out) (unread bs @ concat ps)
          else body_cons (out_bytes out) (read_body conf is_chunked rb' ps))"

lemma out_bytes_cl_bufs: "out_bytes (cl_bufs s) = cl_bytes s"
  by (simp add: out_bytes_def cl_bufs_def segs_bytes_def comp_def split_def)

lemma cl_bufs_not_last: "b \<in> set (cl_bufs s) \<Longrightarrow> \<not> ob_last_buf b"
  by (auto simp: cl_bufs_def)

lemma out_bytes_last: "out_bytes (out @ [last_out_buf]) = out_bytes out"
  by (simp add: out_bytes_def last_out_buf_def)

lemma last_out_buf_last [simp]: "ob_last_buf last_out_buf"
  by (simp add: last_out_buf_def)

lemma cl_start_ok:
  "ck_valid (rb_chunked rb) \<Longrightarrow> cl_ok (cl_start rb (received p)) \<and> cl_bytes (cl_start rb (received p)) = []"
  by (simp add: cl_start_def cl_ok_def segs_bytes_def)

text \<open>One call of the filter with one received piece.\<close>

lemma chunked_filter_call:
  assumes "ck_valid (rb_chunked rb)" "cl_within conf (rb_content_length_n rb)"
  shows "case chunked_chain conf (\<lambda>i. True) 0 rb [received p] of
      Inl e \<Rightarrow> (\<forall>w x rest. dechunk (ck_entry (rb_chunked rb)) (p @ w) = Some (x, rest)
        \<longrightarrow> \<not> cl_within conf (rb_content_length_n rb + int (length x)))
    | Inr (out, rb', bs) \<Rightarrow>
        rb_content_length_n rb' = rb_content_length_n rb + int (length (out_bytes out))
        \<and> cl_within conf (rb_content_length_n rb')
        \<and> (if rb_rest rb' = 0 \<and> (\<exists>b \<in> set out. ob_last_buf b)
           then (\<forall>w. dechunk (ck_entry (rb_chunked rb)) (p @ w) = Some (out_bytes out, unread bs @ w))
           else ck_valid (rb_chunked rb') \<and> rb_rest rb' \<noteq> - 1
             \<and> (\<forall>w. dechunk (ck_entry (rb_chunked rb)) (p @ w)
                 = map_option (apfst ((@) (out_bytes out))) (dechunk (ck_entry (rb_chunked rb')) w)))"
proof -
  let ?s = "cl_start rb (received p)"
  have s: "cl_ctx ?s = rb_chunked rb" "cl_length_n ?s = rb_content_length_n rb" "cl_unread ?s = p"
      "cl_bytes ?s = []"
    by (simp_all add: cl_start_def segs_bytes_def)
  have post: "cl_post conf (\<lambda>i. True) ?s (cl_run conf (\<lambda>i. True) ?s)"
    using assms cl_start_ok [of rb p] s(2) by (intro cl_run_post) auto
  show ?thesis
  proof (cases "cl_run conf (\<lambda>i. True) ?s")
    case (CL_again t)
    with post obtain x where x: "cl_moves ?s x t" "cl_unread t = []" "0 < ck_length (cl_ctx t)"
        "cl_within conf (cl_length_n t)"
      by auto
    then have "ck_valid (cl_ctx t)" "cl_bytes t = x" using s(4) by (simp_all add: cl_moves_def cl_ok_def)
    with x s CL_again show ?thesis
      by (auto simp: filter_cons_def cl_store_def out_bytes_cl_bufs cl_bufs_not_last cl_moves_def
          cl_ok_def)
  next
    case (CL_done t)
    with post s show ?thesis
      by (auto simp: filter_cons_def cl_store_def out_bytes_cl_bufs out_bytes_last unread_def)
  next
    case (CL_error e)
    with post s show ?thesis by auto
  qed
qed

lemma read_chunked_body:
  assumes "rb_rest rb \<noteq> - 1" "ck_valid (rb_chunked rb)" "cl_within conf (rb_content_length_n rb)"
  shows "read_body conf True rb ps = Body_done out left
     \<longleftrightarrow> dechunk (ck_entry (rb_chunked rb)) (concat ps) = Some (out, left)
         \<and> cl_within conf (rb_content_length_n rb + int (length out))"
  using assms
proof (induction ps arbitrary: rb out)
  case Nil
  obtain st sz where "ck_entry (rb_chunked rb) = (st, sz)" by fastforce
  then show ?case by simp
next
  case (Cons p ps)
  note call = chunked_filter_call [OF Cons.prems(2,3), of p]
  have filter: "ngx_http_request_body_filter conf True True (\<lambda>i. True) rb [received p]
      = chunked_chain conf (\<lambda>i. True) 0 rb [received p]"
    using Cons.prems(1)
    by (simp add: ngx_http_request_body_filter_def ngx_http_request_body_chunked_filter_def)
  show ?case
  proof (cases "chunked_chain conf (\<lambda>i. True) 0 rb [received p]")
    case (Inl e)
    with call filter show ?thesis by auto
  next
    case (Inr r)
    obtain o1 rb' bs where r: "r = (o1, rb', bs)" by (metis prod_cases3)
    show ?thesis
    proof (cases "rb_rest rb' = 0 \<and> (\<exists>b \<in> set o1. ob_last_buf b)")
      case True
      with call filter Inr r show ?thesis by auto
    next
      case False
      with call Inr r have nxt: "ck_valid (rb_chunked rb')" "rb_rest rb' \<noteq> - 1"
          "cl_within conf (rb_content_length_n rb')"
          "rb_content_length_n rb' = rb_content_length_n rb + int (length (out_bytes o1))"
          "dechunk (ck_entry (rb_chunked rb)) (p @ concat ps)
             = map_option (apfst ((@) (out_bytes o1))) (dechunk (ck_entry (rb_chunked rb')) (concat ps))"
        by auto
      have "read_body conf True rb (p # ps) = body_cons (out_bytes o1) (read_body conf True rb' ps)"
        using False filter Inr r by auto
      moreover have "body_cons x t = Body_done out left
          \<longleftrightarrow> (\<exists>y. t = Body_done y left \<and> out = x @ y)" for x t
        by (cases t) (auto simp: body_cons_def)
      ultimately show ?thesis
        using Cons.IH [OF nxt(2,1,3)] nxt(4,5) by (auto simp: add.assoc)
    qed
  qed
qed

text \<open>The state in which \<open>ngx_http_read_client_request_body\<close> starts.\<close>

definition fresh_body :: "int \<Rightarrow> request_body" where
  "fresh_body content_length_n =
     \<lparr>rb_rest = - 1, rb_chunked = fresh_chunked, rb_content_length_n = content_length_n\<rparr>"

lemma read_body_fresh_chunked:
  "read_body conf True (fresh_body n) ps = read_body conf True
     \<lparr>rb_rest = - 2, rb_chunked = fresh_chunked, rb_content_length_n = 0\<rparr> ps"
proof (cases ps)
  case (Cons p ps')
  show ?thesis
    unfolding Cons read_body.simps ngx_http_request_body_filter_def
      ngx_http_request_body_chunked_filter_def fresh_body_def
    by (simp add: cl_start_def)
qed simp

text \<open>
  C2: A chunked request body is exactly what the grammar says, and the connection stays in step.
  However the bytes arrive, split into reads at any point, the chunked filter completes with body
  \<open>out\<close> and leaves \<open>left\<close> for the next request if and only if what arrived is a chunked body with
  payload \<open>out\<close> followed by \<open>left\<close>, and \<open>out\<close> is within \<open>client_max_body_size\<close>. In particular the
  in-place merging of small chunks neither loses nor overwrites a byte.
\<close>

theorem chunked_body_read:
  "read_body conf True (fresh_body n) pieces = Body_done out left
     \<longleftrightarrow> (\<exists>wire. concat pieces = wire @ left \<and> chunked_body wire out
           \<and> (client_max_body_size conf = 0 \<or> length out \<le> client_max_body_size conf))"
proof -
  have "cl_within conf 0" by (simp add: cl_within_def)
  then have "read_body conf True (fresh_body n) pieces = Body_done out left
      \<longleftrightarrow> dechunk (ck_entry fresh_chunked) (concat pieces) = Some (out, left)
        \<and> cl_within conf (int (length out))"
    unfolding read_body_fresh_chunked
    using read_chunked_body [of "\<lparr>rb_rest = - 2, rb_chunked = fresh_chunked, rb_content_length_n = 0\<rparr>"
        conf pieces out left]
    by simp
  also have "ck_entry fresh_chunked = (sw_chunk_start, 0)"
    by (simp add: ck_entry_def fresh_chunked_def)
  finally show ?thesis by (auto simp: dechunk_iff cl_within_def)
qed

section \<open>Bodies with a content length, and discarded bodies\<close>

lemma split_inside:
  assumes "n \<le> length p"
  shows "p @ r = out @ left \<and> length out = n \<longleftrightarrow> out = take n p \<and> left = drop n p @ r"
proof -
  have "p @ r = out @ left \<and> length out = n \<longleftrightarrow> out = take n (p @ r) \<and> left = drop n (p @ r)"
    using assms by (metis append_eq_conv_conj append_take_drop_id length_append length_take
        min.absorb2 trans_le_add1)
  then show ?thesis using assms by simp
qed

lemma split_after:
  assumes "length p < n"
  shows "(\<exists>out. p @ r = out @ left \<and> length out = n \<and> P out)
     \<longleftrightarrow> (\<exists>y. r = y @ left \<and> length y = n - length p \<and> P (p @ y))"
proof
  assume "\<exists>out. p @ r = out @ left \<and> length out = n \<and> P out"
  then obtain out where out: "p @ r = out @ left" "length out = n" "P out" by blast
  then have "take (length p) out = p" and r: "r = drop (length p) out @ left"
    using assms by (auto simp: append_eq_append_conv_if)
  then have "out = p @ drop (length p) out" by (metis append_take_drop_id)
  with out r show "\<exists>y. r = y @ left \<and> length y = n - length p \<and> P (p @ y)"
    by (intro exI [of _ "drop (length p) out"]) auto
next
  assume "\<exists>y. r = y @ left \<and> length y = n - length p \<and> P (p @ y)"
  then show "\<exists>out. p @ r = out @ left \<and> length out = n \<and> P out" using assms by auto
qed

lemma length_filter_call:
  assumes "0 < n"
  shows "length_chain (\<lambda>i. True) 0 (rb\<lparr>rb_rest := int n\<rparr>) [received p] = Inr
    (if length p < n
     then ([\<lparr>ob_bytes = p, ob_last_buf = False\<rparr>], rb\<lparr>rb_rest := int (n - length p)\<rparr>,
           [(received p)\<lparr>b_pos := length p\<rparr>])
     else ([\<lparr>ob_bytes = take n p, ob_last_buf = True\<rparr>], rb\<lparr>rb_rest := 0\<rparr>,
           [(received p)\<lparr>b_pos := n\<rparr>]))"
  using assms by (auto simp: filter_cons_def slice_def Let_def of_nat_diff)

lemma read_length_body:
  assumes "0 < n"
  shows "read_body conf False (rb\<lparr>rb_rest := int n\<rparr>) ps = Body_done out left
     \<longleftrightarrow> concat ps = out @ left \<and> length out = n"
  using assms
proof (induction ps arbitrary: n out)
  case Nil
  then show ?case by simp
next
  case (Cons p ps)
  have filter: "ngx_http_request_body_filter conf False True (\<lambda>i. True) (rb\<lparr>rb_rest := int n\<rparr>) [received p]
      = length_chain (\<lambda>i. True) 0 (rb\<lparr>rb_rest := int n\<rparr>) [received p]"
    using Cons.prems
    by (simp add: ngx_http_request_body_filter_def ngx_http_request_body_length_filter_def)
  show ?case
  proof (cases "length p < n")
    case True
    then have "read_body conf False (rb\<lparr>rb_rest := int n\<rparr>) (p # ps)
        = body_cons p (read_body conf False (rb\<lparr>rb_rest := int (n - length p)\<rparr>) ps)"
      using filter length_filter_call [OF Cons.prems, of rb p] by (simp add: out_bytes_def)
    moreover have "body_cons p t = Body_done out left \<longleftrightarrow> (\<exists>y. t = Body_done y left \<and> out = p @ y)" for t
      by (cases t) (auto simp: body_cons_def)
    ultimately show ?thesis
      using Cons.IH [of "n - length p"] True
        split_after [of p n "concat ps" left "\<lambda>x. x = out"] by auto
  next
    case False
    then have "read_body conf False (rb\<lparr>rb_rest := int n\<rparr>) (p # ps)
        = Body_done (take n p) (drop n p @ concat ps)"
      using filter length_filter_call [OF Cons.prems, of rb p] by (simp add: out_bytes_def unread_def)
    with False show ?thesis using split_inside [of n p "concat ps" out left] by auto
  qed
qed

lemma read_body_fresh_length:
  "read_body conf False (fresh_body (int n)) ps = Body_done out left
     \<longleftrightarrow> ps \<noteq> [] \<and> concat ps = out @ left \<and> length out = n"
proof (cases ps)
  case (Cons p ps')
  show ?thesis
  proof (cases "n = 0")
    case True
    then show ?thesis
      by (auto simp: Cons ngx_http_request_body_filter_def ngx_http_request_body_length_filter_def
          fresh_body_def Let_def out_bytes_def unread_def last_out_buf_def)
  next
    case False
    then have "read_body conf False (fresh_body (int n)) ps
        = read_body conf False ((fresh_body (int n))\<lparr>rb_rest := int n\<rparr>) ps"
      unfolding Cons read_body.simps ngx_http_request_body_filter_def
        ngx_http_request_body_length_filter_def
      by (simp add: fresh_body_def Let_def)
    with False show ?thesis
      using read_length_body [of n conf "fresh_body (int n)" ps out left] by (simp only: Cons) simp
  qed
qed simp

text \<open>What \<open>ngx_http_read_discarded_request_body\<close> does with the pieces: until
  \<open>content_length_n\<close> is zero, pass them to the discarding filter.\<close>

fun discard_body :: "int \<Rightarrow> bool \<Rightarrow> ngx_http_chunked \<Rightarrow> int \<Rightarrow> byte list list \<Rightarrow> byte list option" where
  "discard_body lch is_chunked ctx n [] = None"
| "discard_body lch is_chunked ctx n (p # ps) =
     (case ngx_http_discard_request_body_filter lch is_chunked (received p) ctx n of
        Inl e \<Rightarrow> None
      | Inr (n', b, ctx') \<Rightarrow>
          if n' = 0 then Some (unread [b] @ concat ps) else discard_body lch is_chunked ctx' n' ps)"

fun discard_post :: "ngx_buf \<Rightarrow> ngx_http_chunked \<Rightarrow> nat + int \<times> ngx_buf \<times> ngx_http_chunked \<Rightarrow> bool" where
  "discard_post b ctx (Inl e)
     \<longleftrightarrow> (\<forall>w. dechunk (ck_entry ctx) (drop (b_pos b) (b_data b) @ w) = None)"
| "discard_post b ctx (Inr (n, b', ctx')) \<longleftrightarrow>
     (if n = 0
      then \<exists>x. \<forall>w. dechunk (ck_entry ctx) (drop (b_pos b) (b_data b) @ w) = Some (x, unread [b'] @ w)
      else ck_valid ctx' \<and> (\<exists>x. \<forall>w. dechunk (ck_entry ctx) (drop (b_pos b) (b_data b) @ w)
         = map_option (apfst ((@) x)) (dechunk (ck_entry ctx') w)))"

lemma discard_post_consume:
  assumes "\<And>w. dechunk (ck_entry ctx) (drop (b_pos b) (b_data b) @ w)
      = map_option (apfst ((@) x)) (dechunk (ck_entry ctx1) (drop (b_pos b1) (b_data b1) @ w))"
    and "discard_post b1 ctx1 r"
  shows "discard_post b ctx r"
proof (cases "(b, ctx, r)" rule: discard_post.cases)
  case (2 _ _ n b' ctx')
  show ?thesis
  proof (cases "n = 0")
    case True
    with assms(2) 2 obtain y where
      "\<And>w. dechunk (ck_entry ctx1) (drop (b_pos b1) (b_data b1) @ w) = Some (y, unread [b'] @ w)" by auto
    with assms(1) True 2 show ?thesis by (auto intro!: exI [of _ "x @ y"])
  next
    case False
    with assms(2) 2 obtain y where "ck_valid ctx'"
      "\<And>w. dechunk (ck_entry ctx1) (drop (b_pos b1) (b_data b1) @ w)
        = map_option (apfst ((@) y)) (dechunk (ck_entry ctx') w)" by auto
    with assms(1) False 2 show ?thesis by (auto intro!: exI [of _ "x @ y"] simp: map_apfst_append)
  qed
qed (use assms in auto)

lemma discard_chunked_post:
  "ck_valid ctx \<Longrightarrow> b_pos b \<le> length (b_data b) \<Longrightarrow> discard_post b ctx (discard_chunked lch b ctx)"
proof (induction "length (b_data b) - b_pos b" arbitrary: b ctx rule: less_induct)
  case less
  obtain rc b1 ctx1 where parse: "ngx_http_parse_chunked False b ctx = (rc, b1, ctx1)"
    by (metis prod_cases3)
  note facts = parse_chunked_dechunk [OF less.prems parse]
  consider (OK) "rc = NGX_OK" | (AGAIN) "rc = NGX_AGAIN" | (DONE) "rc = NGX_DONE"
    | (ERROR) "rc = NGX_ERROR"
    using facts by auto
  then show ?case
  proof cases
    case OK
    let ?data = "b_data b" and ?sz = "ck_size ctx1"
    define n where "n = min ?sz (length ?data - b_pos b1)"
    have ok: "b_data b1 = ?data" "b_pos b \<le> b_pos b1" "b_pos b1 < length ?data" "0 < ?sz"
        "?sz \<le> MAX_OFF_T div 16" "ck_state ctx1 = sw_chunk_data"
        "\<And>w. dechunk (ck_entry ctx) (drop (b_pos b) ?data @ w)
           = dechunk (sw_chunk_data, ?sz) (drop (b_pos b1) ?data @ w)"
      using facts OK by auto
    have n: "0 < n" "n \<le> ?sz" "b_pos b1 + n \<le> length ?data" using ok(3,4) by (auto simp: n_def)
    let ?b2 = "b1\<lparr>b_pos := b_pos b1 + n\<rparr>" and ?ctx2 = "ctx1\<lparr>ck_size := ?sz - n\<rparr>"
    have run: "discard_chunked lch b ctx = discard_chunked lch ?b2 ?ctx2"
      using ok(1,3) by (subst discard_chunked.simps) (auto simp: parse OK n_def Let_def min_def)
    define x where "x = slice (b_pos b1) (b_pos b1 + n) ?data"
    have x: "length x = n" "drop (b_pos b1) ?data = x @ drop (b_pos b1 + n) ?data"
      using n(3) by (simp_all add: x_def length_slice slice_def add.commute flip: drop_drop)
    have "dechunk (ck_entry ctx) (drop (b_pos b) ?data @ w)
        = map_option (apfst ((@) x)) (dechunk (ck_entry ?ctx2) (drop (b_pos ?b2) (b_data ?b2) @ w))" for w
      using dechunk_consume [of ?sz x "drop (b_pos b1 + n) ?data @ w"] ok x n(2)
        ck_entry_consumed [of ctx1 n] by simp
    moreover have "discard_post ?b2 ?ctx2 (discard_chunked lch ?b2 ?ctx2)"
      using ok n ck_entry_consumed [of ctx1 n] by (intro less.hyps) auto
    ultimately show ?thesis unfolding run by (rule discard_post_consume)
  next
    case AGAIN
    then have "0 < ck_length ctx1" using facts by (cases "ck_state ctx1") auto
    with AGAIN facts show ?thesis
      by (subst discard_chunked.simps) (auto simp: parse intro!: exI [of _ "[]"])
  next
    case DONE
    with facts show ?thesis by (subst discard_chunked.simps) (auto simp: parse unread_def)
  next
    case ERROR
    with facts show ?thesis by (subst discard_chunked.simps) (simp add: parse)
  qed
qed

lemma discard_chunked_body:
  assumes "ck_valid ctx"
  shows "discard_body lch True ctx n ps = Some left
     \<longleftrightarrow> (\<exists>out. dechunk (ck_entry ctx) (concat ps) = Some (out, left))"
  using assms
proof (induction ps arbitrary: ctx n)
  case Nil
  obtain st sz where "ck_entry ctx = (st, sz)" by fastforce
  then show ?case by simp
next
  case (Cons p ps)
  have post: "discard_post (received p) ctx (discard_chunked lch (received p) ctx)"
    using Cons.prems by (intro discard_chunked_post) simp_all
  show ?case
  proof (cases "discard_chunked lch (received p) ctx")
    case (Inl e)
    with post show ?thesis by (simp add: ngx_http_discard_request_body_filter_def)
  next
    case (Inr r)
    obtain n' b' ctx' where r: "r = (n', b', ctx')" by (metis prod_cases3)
    show ?thesis
    proof (cases "n' = 0")
      case True
      with post Inr r show ?thesis by (auto simp: ngx_http_discard_request_body_filter_def)
    next
      case False
      with post Inr r obtain x where x: "ck_valid ctx'"
          "dechunk (ck_entry ctx) (p @ concat ps)
             = map_option (apfst ((@) x)) (dechunk (ck_entry ctx') (concat ps))"
        by auto
      show ?thesis
        using False Inr r x(2) Cons.IH [OF x(1), of n']
        by (auto simp: ngx_http_discard_request_body_filter_def)
    qed
  qed
qed

lemma discard_length_body:
  "discard_body lch False ctx (int n) ps = Some left
     \<longleftrightarrow> ps \<noteq> [] \<and> (\<exists>out. concat ps = out @ left \<and> length out = n)"
proof (induction ps arbitrary: n)
  case Nil
  then show ?case by simp
next
  case (Cons p ps)
  show ?case
  proof (cases "n \<le> length p")
    case True
    then have "discard_body lch False ctx (int n) (p # ps) = Some (drop n p @ concat ps)"
      by (auto simp: ngx_http_discard_request_body_filter_def unread_def Let_def)
    with True show ?thesis by (auto simp: split_inside)
  next
    case False
    then have "discard_body lch False ctx (int n) (p # ps)
        = discard_body lch False ctx (int (n - length p)) ps"
      by (auto simp: ngx_http_discard_request_body_filter_def Let_def of_nat_diff)
    then show ?thesis
      using Cons.IH [of "n - length p"] False split_after [of p n "concat ps" left "\<lambda>x. True"]
      by auto
  qed
qed

text \<open>
  C8: Whether the body of a request is read or discarded, the next request on the connection
  starts at the same byte: for every way the bytes arrive, with chunked coding or with a content
  length, discarding ends with \<open>left\<close> over if and only if reading the body (with no size limit)
  completes with \<open>left\<close> over.
\<close>

theorem discard_agrees_with_read:
  "discard_body lch is_chunked fresh_chunked (int n) pieces = Some left
     \<longleftrightarrow> (\<exists>out. read_body \<lparr>client_max_body_size = 0, large_client_header_size = lch\<rparr> is_chunked
           (fresh_body (int n)) pieces = Body_done out left)"
proof (cases is_chunked)
  case True
  let ?conf = "\<lparr>client_max_body_size = 0, large_client_header_size = lch\<rparr>"
  have "read_body ?conf True (fresh_body (int n)) pieces = Body_done out left
      \<longleftrightarrow> dechunk (ck_entry fresh_chunked) (concat pieces) = Some (out, left)" for out
    unfolding read_body_fresh_chunked by (subst read_chunked_body) (simp_all add: cl_within_def)
  with True show ?thesis by (simp add: discard_chunked_body)
next
  case False
  then show ?thesis by (auto simp: discard_length_body read_body_fresh_length)
qed

end
