(* ===== verification/Upstream_Round_Robin.thy ===== *)
theory Upstream_Round_Robin
  imports Ngx_Prelude
begin

text \<open>
  The round robin balancer of \<open>src/http/ngx_http_upstream_round_robin.c\<close>, in Tengine's default
  configuration (random start peer, constant-time selection for unweighted groups, sticky
  sessions, shared zones). A peers set is a list of peers; \<open>last_peer\<close> and \<open>rrp->current\<close> are
  positions in it. A group has a primary and possibly a backup set.
\<close>

section \<open>Peers\<close>

record rr_peer =
  current_weight :: int
  effective_weight :: int
  weight :: int
  conns :: u64
  max_conns :: u64
  fails :: u64
  accessed :: int
  checked :: int
  max_fails :: u64
  fail_timeout :: int
  down :: u64
  check_index :: u64
  sid :: "byte list"
  refs :: u64

text \<open>\<open>NGX_CONF_UNSET_UINT\<close> in \<open>init_number\<close> and \<open>last_number\<close> is \<open>None\<close>, as are a \<open>NULL\<close>
  \<open>last_peer\<close> and a \<open>NULL\<close> \<open>config\<close>; \<open>peers->number\<close> is the length of the list.\<close>

record rr_peers =
  rp_peer :: "rr_peer list"
  rp_config :: "nat option"
  rp_init_number :: "nat option"
  rp_last_number :: "nat option"
  rp_last_peer :: "nat option"
  rp_last_config :: nat
  rp_total_weight :: int
  rp_tries :: nat
  rp_single :: bool
  rp_weighted :: bool

abbreviation (input) rp_number :: "rr_peers \<Rightarrow> nat" where
  "rp_number peers \<equiv> length (rp_peer peers)"

text \<open>The state of a request. \<open>rrp->peers\<close> is the set the request draws from, the primary or the
  backup set; \<open>rrp_backup\<close> tells which.\<close>

record rr_data =
  rrp_config :: nat
  rrp_backup :: bool
  rrp_current :: "nat option"
  rrp_tried :: "u64 list"

text \<open>What the selection reads from outside: the clock, the verdict of the health checker, the
  session hint, the values \<open>ngx_random()\<close> returns for the start peer and for the number of
  discarded rounds, and \<open>rr_discarded_range\<close>.\<close>

record rr_env =
  env_now :: int
  env_check_down :: "u64 \<Rightarrow> bool"
  env_hint :: "byte list option"
  env_rnd_init :: nat
  env_rnd_discard :: nat
  env_discarded_range :: "nat option"

section \<open>The bitmap of tried peers\<close>

definition is_tried :: "u64 list \<Rightarrow> nat \<Rightarrow> bool" where
  "is_tried tried i \<longleftrightarrow> tried ! (i div 64) AND push_bit (i mod 64) 1 \<noteq> 0"

definition set_tried :: "u64 list \<Rightarrow> nat \<Rightarrow> u64 list" where
  "set_tried tried i = tried[i div 64 := tried ! (i div 64) OR push_bit (i mod 64) 1]"

definition tried_words :: "nat \<Rightarrow> nat" where
  "tried_words n = (n + 63) div 64"

section \<open>Selecting a peer\<close>

abbreviation (input) NGX_HTTP_UPSTREAM_DRAINING :: u64 where "NGX_HTTP_UPSTREAM_DRAINING \<equiv> 8"

definition peer_failed :: "int \<Rightarrow> rr_peer \<Rightarrow> bool" where
  "peer_failed now peer \<longleftrightarrow>
     max_fails peer \<noteq> 0 \<and> fails peer \<ge> max_fails peer \<and> now - checked peer \<le> fail_timeout peer"

definition peer_full :: "rr_peer \<Rightarrow> bool" where
  "peer_full peer \<longleftrightarrow> max_conns peer \<noteq> 0 \<and> conns peer \<ge> max_conns peer"

text \<open>The tests of the scan: a peer that fails one is passed over.\<close>

definition peer_usable :: "rr_env \<Rightarrow> u64 list \<Rightarrow> nat \<Rightarrow> rr_peer \<Rightarrow> bool" where
  "peer_usable env tried i peer \<longleftrightarrow>
     \<not> is_tried tried i \<and> down peer = 0 \<and> \<not> env_check_down env (check_index peer)
     \<and> \<not> peer_failed (env_now env) peer \<and> \<not> peer_full peer"

definition ngx_http_upstream_get_rr_peer_by_sid ::
    "rr_env \<Rightarrow> rr_peers \<Rightarrow> u64 list \<Rightarrow> nat option" where
  "ngx_http_upstream_get_rr_peer_by_sid env peers tried =
     (case env_hint env of
        None \<Rightarrow> None
      | Some hint \<Rightarrow>
          (case find (\<lambda>i. sid (rp_peer peers ! i) = hint) [0..<rp_number peers] of
             None \<Rightarrow> None
           | Some i \<Rightarrow>
               let peer = rp_peer peers ! i in
               if is_tried tried i \<or> down peer AND NOT NGX_HTTP_UPSTREAM_DRAINING \<noteq> 0
                 \<or> peer_failed (env_now env) peer \<or> peer_full peer
               then None else Some i))"

text \<open>The positions a scan visits: once round the ring, from \<open>begin_number\<close>.\<close>

definition rr_ring :: "nat \<Rightarrow> nat \<Rightarrow> nat list" where
  "rr_ring begin_number number = map (\<lambda>k. (begin_number + k) mod number) [0..<number]"

text \<open>One round of smooth weighting over the positions \<open>is\<close>: the usable peers gain their
  effective weight, and the first with the greatest current weight is the best.\<close>

definition rr_better :: "rr_peer list \<Rightarrow> nat \<Rightarrow> nat option \<Rightarrow> nat option" where
  "rr_better ps i best =
     (case best of
        None \<Rightarrow> Some i
      | Some b \<Rightarrow> if current_weight (ps ! i) > current_weight (ps ! b) then Some i else best)"

definition rr_gain :: "rr_peer \<Rightarrow> rr_peer" where
  "rr_gain peer = peer\<lparr>current_weight := current_weight peer + effective_weight peer,
     effective_weight := (if effective_weight peer < weight peer
                          then effective_weight peer + 1 else effective_weight peer)\<rparr>"

fun rr_scan :: "(nat \<Rightarrow> rr_peer \<Rightarrow> bool) \<Rightarrow> nat list \<Rightarrow> rr_peer list \<Rightarrow> int \<Rightarrow> nat option
    \<Rightarrow> rr_peer list \<times> int \<times> nat option" where
  "rr_scan usable [] ps tot best = (ps, tot, best)"
| "rr_scan usable (i # is) ps tot best =
     (if \<not> usable i (ps ! i) then rr_scan usable is ps tot best
      else
        (let ps' = ps[i := rr_gain (ps ! i)] in
         rr_scan usable is ps' (tot + effective_weight (ps ! i)) (rr_better ps' i best)))"

text \<open>\<open>ngx_http_upstream_adapte_rr_peer_weight\<close>: a round whose choice is thrown away, over all
  peers, without raising the effective weights.\<close>

fun rr_adapt_scan :: "nat list \<Rightarrow> rr_peer list \<Rightarrow> int \<Rightarrow> nat option \<Rightarrow> rr_peer list \<times> int \<times> nat option" where
  "rr_adapt_scan [] ps tot best = (ps, tot, best)"
| "rr_adapt_scan (i # is) ps tot best =
     (let peer = ps ! i;
          ps' = ps[i := peer\<lparr>current_weight := current_weight peer + effective_weight peer\<rparr>] in
      rr_adapt_scan is ps' (tot + effective_weight peer) (rr_better ps' i best))"

definition lower_weight :: "nat \<Rightarrow> int \<Rightarrow> rr_peer list \<Rightarrow> rr_peer list" where
  "lower_weight b tot ps = ps[b := (ps ! b)\<lparr>current_weight := current_weight (ps ! b) - tot\<rparr>]"

definition ngx_http_upstream_adapte_rr_peer_weight :: "rr_env \<Rightarrow> rr_peers \<Rightarrow> int \<times> rr_peers" where
  "ngx_http_upstream_adapte_rr_peer_weight env peers =
     (let number = rp_number peers;
          init = (case rp_init_number peers of None \<Rightarrow> env_rnd_init env mod number | Some k \<Rightarrow> k);
          (ps, tot, best) = rr_adapt_scan (rr_ring (init mod number) number) (rp_peer peers) 0 None
      in case best of
           None \<Rightarrow> (NGX_ERROR, peers\<lparr>rp_init_number := Some init, rp_peer := ps\<rparr>)
         | Some b \<Rightarrow> (NGX_OK, peers\<lparr>rp_init_number := Some init, rp_peer := lower_weight b tot ps\<rparr>))"

text \<open>Where the scan starts: at \<open>init_number\<close>, brought back into range if the set has shrunk, or,
  in an unweighted group, after the peer selected last.\<close>

definition rr_init_number :: "rr_env \<Rightarrow> rr_peers \<Rightarrow> nat" where
  "rr_init_number env peers =
     (case rp_init_number peers of
        None \<Rightarrow> env_rnd_init env mod rp_number peers
      | Some k \<Rightarrow> if k \<ge> rp_number peers then k mod rp_number peers else k)"

definition rr_begin :: "rr_peers \<Rightarrow> nat \<Rightarrow> nat" where
  "rr_begin peers init =
     (if \<not> rp_weighted peers then
        (case rp_last_number peers of
           None \<Rightarrow> init
         | Some l \<Rightarrow>
             (case rp_last_peer peers of
                Some lp \<Rightarrow>
                  if l < rp_number peers
                    \<and> (rp_config peers = None \<or> Some (rp_last_config peers) = rp_config peers)
                    \<and> lp + 1 < rp_number peers
                  then (l + 1) mod rp_number peers else 0
              | None \<Rightarrow> 0))
      else init)"

text \<open>\<open>best_chosen\<close>: the chosen peer becomes current and tried.\<close>

definition rr_chosen :: "rr_env \<Rightarrow> nat \<Rightarrow> rr_peers \<Rightarrow> rr_data \<Rightarrow> rr_peers \<times> rr_data" where
  "rr_chosen env b peers rrp =
     (let peer = rp_peer peers ! b;
          peer' = peer\<lparr>refs := refs peer + 1,
            checked := (if env_now env - checked peer > fail_timeout peer
                        then env_now env else checked peer)\<rparr>
      in (peers\<lparr>rp_peer := (rp_peer peers)[b := peer']\<rparr>,
          rrp\<lparr>rrp_current := Some b, rrp_tried := set_tried (rrp_tried rrp) b\<rparr>))"

definition rr_select :: "rr_env \<Rightarrow> nat \<Rightarrow> rr_peers \<Rightarrow> u64 list \<Rightarrow> rr_peers \<times> int \<times> nat option" where
  "rr_select env begin_number peers tried =
     (let ring = rr_ring begin_number (rp_number peers) in
      if \<not> rp_weighted peers then
        (case find (\<lambda>i. peer_usable env tried i (rp_peer peers ! i)) ring of
           None \<Rightarrow> (peers, 0, None)
         | Some i \<Rightarrow>
             (peers\<lparr>rp_last_peer := Some i, rp_last_number := Some i,
                rp_last_config := (case rp_config peers of None \<Rightarrow> 0 | Some c \<Rightarrow> c)\<rparr>, 0, Some i))
      else
        (case rr_scan (peer_usable env tried) ring (rp_peer peers) 0 None of
           (ps, tot, best) \<Rightarrow> (peers\<lparr>rp_peer := ps\<rparr>, tot, best)))"

definition ngx_http_upstream_get_peer :: "rr_env \<Rightarrow> rr_peers \<Rightarrow> rr_data
    \<Rightarrow> nat option \<times> rr_peers \<times> rr_data" where
  "ngx_http_upstream_get_peer env peers rrp =
     (if rp_number peers = 0 then (None, peers, rrp)
      else
        (let st_peer = ngx_http_upstream_get_rr_peer_by_sid env peers (rrp_tried rrp) in
         case st_peer of
           Some b \<Rightarrow>
             if current_weight (rp_peer peers ! b) \<le> - (rp_total_weight peers - weight (rp_peer peers ! b))
             then (Some b, rr_chosen env b peers rrp)
             else
               (let init = rr_init_number env peers;
                    peers' = peers\<lparr>rp_init_number := Some init\<rparr>;
                    (peers'', tot, best) = rr_select env (rr_begin peers' init) peers' (rrp_tried rrp)
                in (Some b, rr_chosen env b
                      (peers''\<lparr>rp_peer := lower_weight b tot (rp_peer peers'')\<rparr>) rrp))
         | None \<Rightarrow>
             (let init = rr_init_number env peers;
                  peers' = peers\<lparr>rp_init_number := Some init\<rparr>;
                  (peers'', tot, best) = rr_select env (rr_begin peers' init) peers' (rrp_tried rrp)
              in case best of
                   None \<Rightarrow> (None, peers'', rrp)
                 | Some b \<Rightarrow> (Some b, rr_chosen env b
                     (peers''\<lparr>rp_peer := lower_weight b tot (rp_peer peers'')\<rparr>) rrp))))"

text \<open>\<open>ngx_http_upstream_get_round_robin_peer\<close> for one peers set: everything before the \<open>failed\<close>
  label. The flag \<open>ngx_rr_discarded_init\<close> of the worker is threaded through.\<close>

definition rr_discard_rounds :: "rr_env \<Rightarrow> rr_peers \<Rightarrow> nat" where
  "rr_discard_rounds env peers =
     (let range = (case env_discarded_range env of None \<Rightarrow> rp_number peers | Some k \<Rightarrow> k);
          n = env_rnd_discard env mod rp_number peers
      in Suc (if range \<noteq> 0 then n mod range else n))"

definition rr_discard :: "rr_env \<Rightarrow> bool \<Rightarrow> rr_peers \<Rightarrow> bool \<times> rr_peers" where
  "rr_discard env discarded peers =
     (if \<not> discarded \<and> rp_weighted peers \<and> rp_number peers \<noteq> 0
      then (True, ((\<lambda>p. snd (ngx_http_upstream_adapte_rr_peer_weight env p))
                     ^^ rr_discard_rounds env peers) peers)
      else (discarded, peers))"

definition rr_inc_conns :: "nat \<Rightarrow> rr_peers \<Rightarrow> rr_peers" where
  "rr_inc_conns b peers =
     peers\<lparr>rp_peer := (rp_peer peers)[b := (rp_peer peers ! b)\<lparr>conns := conns (rp_peer peers ! b) + 1\<rparr>]\<rparr>"

text \<open>The outcome of the attempt on one set: the peer taken, or \<open>goto failed\<close>, or \<open>goto busy\<close>.\<close>

datatype rr_attempt = RR_peer nat | RR_failed | RR_busy

definition rr_take_single :: "nat \<Rightarrow> rr_peers \<Rightarrow> rr_data \<Rightarrow> rr_peers \<times> rr_data" where
  "rr_take_single i peers rrp =
     (let peer = rp_peer peers ! i in
      (rr_inc_conns i (peers\<lparr>rp_peer := (rp_peer peers)[i := peer\<lparr>refs := refs peer + 1\<rparr>]\<rparr>),
       rrp\<lparr>rrp_current := Some i\<rparr>))"

text \<open>The peers set has been modified since the request started.\<close>

definition rr_config_changed :: "rr_peers \<Rightarrow> rr_data \<Rightarrow> bool" where
  "rr_config_changed peers rrp \<longleftrightarrow>
     rp_config peers \<noteq> None \<and> Some (rrp_config rrp) \<noteq> rp_config peers"

definition rr_try_peers :: "rr_env \<Rightarrow> bool \<Rightarrow> rr_peers \<Rightarrow> rr_data
    \<Rightarrow> rr_attempt \<times> bool \<times> rr_peers \<times> rr_data" where
  "rr_try_peers env discarded peers rrp =
     (if rr_config_changed peers rrp
      then (RR_busy, discarded, peers, rrp)
      else if rp_single peers then
        (case ngx_http_upstream_get_rr_peer_by_sid env peers (rrp_tried rrp) of
           None \<Rightarrow>
             (let peer = rp_peer peers ! 0 in
              if down peer \<noteq> 0 \<or> peer_full peer \<or> env_check_down env (check_index peer)
              then (RR_failed, discarded, peers, rrp)
              else (RR_peer 0, discarded, rr_take_single 0 peers rrp))
         | Some i \<Rightarrow> (RR_peer i, discarded, rr_take_single i peers rrp))
      else
        (let (discarded', peers') = rr_discard env discarded peers in
         case ngx_http_upstream_get_peer env peers' rrp of
           (None, peers'', rrp') \<Rightarrow> (RR_failed, discarded', peers'', rrp')
         | (Some b, peers'', rrp') \<Rightarrow> (RR_peer b, discarded', rr_inc_conns b peers'', rrp')))"

text \<open>A group is the primary set and, behind its \<open>peers->next\<close>, the backup set; the backup set has
  no successor.\<close>

record rr_upstream =
  us_primary :: rr_peers
  us_backup :: "rr_peers option"

definition rr_set_of :: "rr_upstream \<Rightarrow> bool \<Rightarrow> rr_peers option" where
  "rr_set_of us backup = (if backup then us_backup us else Some (us_primary us))"

definition rr_put_set :: "bool \<Rightarrow> rr_peers \<Rightarrow> rr_upstream \<Rightarrow> rr_upstream" where
  "rr_put_set backup peers us =
     (if backup then us\<lparr>us_backup := Some peers\<rparr> else us\<lparr>us_primary := peers\<rparr>)"

definition rr_next_set :: "rr_upstream \<Rightarrow> bool \<Rightarrow> rr_peers option" where
  "rr_next_set us backup = (if backup then None else us_backup us)"

definition clear_tried :: "nat \<Rightarrow> u64 list \<Rightarrow> u64 list" where
  "clear_tried n tried = replicate n 0 @ drop n tried"

text \<open>The whole call, on the set of the request. On failure the request moves to the next set, if
  there is one, with the tried bits of that set cleared, and the call is repeated; the request
  stays with that set. The result is the set and position of the peer taken, or \<open>None\<close> for
  \<open>NGX_BUSY\<close>.\<close>

function ngx_http_upstream_get_round_robin_peer :: "rr_env \<Rightarrow> bool \<Rightarrow> rr_upstream \<Rightarrow> rr_data
    \<Rightarrow> (bool \<times> nat) option \<times> bool \<times> rr_upstream \<times> rr_data" where
  "ngx_http_upstream_get_round_robin_peer env discarded us rrp =
     (case rr_set_of us (rrp_backup rrp) of
        None \<Rightarrow> (None, discarded, us, rrp)
      | Some peers \<Rightarrow>
          (case rr_try_peers env discarded peers rrp of
             (RR_peer b, d, peers', rrp1) \<Rightarrow>
               (Some (rrp_backup rrp, b), d, rr_put_set (rrp_backup rrp) peers' us, rrp1)
           | (RR_busy, d, peers', rrp1) \<Rightarrow> (None, d, rr_put_set (rrp_backup rrp) peers' us, rrp1)
           | (RR_failed, d, peers', rrp1) \<Rightarrow>
               (let us1 = rr_put_set (rrp_backup rrp) peers' us in
                case rr_next_set us1 (rrp_backup rrp) of
                  None \<Rightarrow> (None, d, us1, rrp1)
                | Some backup \<Rightarrow>
                    ngx_http_upstream_get_round_robin_peer env d us1
                      (rrp1\<lparr>rrp_backup := True,
                         rrp_tried := clear_tried (tried_words (rp_number backup)) (rrp_tried rrp1)\<rparr>))))"
  by pat_completeness auto
termination
  by (relation "measure (\<lambda>(env, d, us, rrp). if rrp_backup rrp then 0 else 1)")
    (auto simp: rr_next_set_def split: if_splits)

declare ngx_http_upstream_get_round_robin_peer.simps [simp del]

section \<open>Releasing a peer\<close>

abbreviation (input) NGX_PEER_FAILED :: u64 where "NGX_PEER_FAILED \<equiv> 4"

definition rr_release_failed :: "int \<Rightarrow> rr_peer \<Rightarrow> rr_peer" where
  "rr_release_failed now peer =
     (let ew = (if max_fails peer \<noteq> 0 then effective_weight peer - weight peer div uint (max_fails peer)
                else effective_weight peer)
      in peer\<lparr>fails := fails peer + 1, accessed := now, checked := now,
              effective_weight := (if ew < 0 then 0 else ew)\<rparr>)"

definition rr_release :: "bool \<Rightarrow> u64 \<Rightarrow> int \<Rightarrow> rr_peer \<Rightarrow> rr_peer" where
  "rr_release single state now peer =
     (let peer' =
        (if single then (if fails peer \<noteq> 0 then peer\<lparr>fails := 0\<rparr> else peer)
         else if state AND NGX_PEER_FAILED \<noteq> 0 then rr_release_failed now peer
         else if accessed peer < checked peer then peer\<lparr>fails := 0\<rparr>
         else peer)
      in peer'\<lparr>conns := conns peer' - 1, refs := refs peer' - 1\<rparr>)"

text \<open>The peer \<open>rrp->current\<close> of the set \<open>rrp->peers\<close> is released. The result is \<open>pc->tries\<close> and the
  group; a request that holds no peer would follow a null pointer, which is \<open>None\<close>.\<close>

definition ngx_http_upstream_free_round_robin_peer :: "u64 \<Rightarrow> int \<Rightarrow> nat \<Rightarrow> rr_upstream \<Rightarrow> rr_data
    \<Rightarrow> (nat \<times> rr_upstream) option" where
  "ngx_http_upstream_free_round_robin_peer state now tries us rrp =
     (case (rr_set_of us (rrp_backup rrp), rrp_current rrp) of
        (Some peers, Some b) \<Rightarrow>
          Some (if rp_single peers then 0 else if tries \<noteq> 0 then tries - 1 else tries,
            rr_put_set (rrp_backup rrp)
              (peers\<lparr>rp_peer := (rp_peer peers)[b := rr_release (rp_single peers) state now (rp_peer peers ! b)]\<rparr>)
              us)
      | _ \<Rightarrow> None)"

section \<open>Starting a request\<close>

text \<open>\<open>ngx_http_upstream_init_round_robin_peer\<close>: no peer tried yet, in a bitmap large enough for
  the primary and the backup set.\<close>

definition ngx_http_upstream_init_round_robin_peer :: "rr_upstream \<Rightarrow> rr_data" where
  "ngx_http_upstream_init_round_robin_peer us =
     (let n = (case us_backup us of
                 None \<Rightarrow> rp_number (us_primary us)
               | Some backup \<Rightarrow>
                   if rp_number backup > rp_number (us_primary us) then rp_number backup
                   else rp_number (us_primary us))
      in \<lparr>rrp_config = (case rp_config (us_primary us) of None \<Rightarrow> 0 | Some c \<Rightarrow> c),
          rrp_backup = False, rrp_current = None,
          rrp_tried = (if n \<le> 64 then [0] else replicate (tried_words n) 0)\<rparr>)"

section \<open>Setting up a group\<close>

text \<open>
  \<open>ngx_http_upstream_init_round_robin\<close> for a group with \<open>server\<close> directives. A server with a host
  name to be resolved at run time goes to the list \<open>peers->resolve\<close>, which selection never reads;
  only its effect on the checks is modelled. The session identifiers and the indices of the health
  checker come from other modules and are parameters.
\<close>

record rr_server =
  srv_naddrs :: nat
  srv_weight :: nat
  srv_max_conns :: u64
  srv_max_fails :: u64
  srv_fail_timeout :: int
  srv_down :: u64
  srv_backup :: bool
  srv_resolve :: bool

record rr_setup =
  set_zone :: bool
  set_modify :: bool
  set_resolver :: bool
  set_backup :: bool

definition rr_new_peer :: "rr_server \<Rightarrow> byte list \<Rightarrow> u64 \<Rightarrow> rr_peer" where
  "rr_new_peer srv peer_sid check =
     \<lparr>current_weight = 0, effective_weight = int (srv_weight srv), weight = int (srv_weight srv),
      conns = 0, max_conns = srv_max_conns srv, fails = 0, accessed = 0, checked = 0,
      max_fails = srv_max_fails srv, fail_timeout = srv_fail_timeout srv, down = srv_down srv,
      check_index = (if srv_down srv = 0 then check else - 1), sid = peer_sid, refs = 0\<rparr>"

text \<open>The servers of one set, primary or backup, that have addresses.\<close>

definition rr_static :: "bool \<Rightarrow> rr_server list \<Rightarrow> rr_server list" where
  "rr_static backup servers = filter (\<lambda>s. srv_backup s = backup \<and> \<not> srv_resolve s) servers"

definition rr_new_peers :: "(nat \<Rightarrow> byte list) \<Rightarrow> (nat \<Rightarrow> u64) \<Rightarrow> rr_server list \<Rightarrow> rr_peer list" where
  "rr_new_peers sids checks servers =
     map (\<lambda>(i, srv). rr_new_peer srv (sids i) (checks i))
       (enumerate 0 (concat (map (\<lambda>srv. replicate (srv_naddrs srv) srv) servers)))"

definition rr_new_set :: "bool \<Rightarrow> rr_server list \<Rightarrow> rr_peer list \<Rightarrow> rr_peers" where
  "rr_new_set single servers ps =
     (let n = (\<Sum>s \<leftarrow> servers. srv_naddrs s);
          w = (\<Sum>s \<leftarrow> servers. srv_naddrs s * srv_weight s);
          t = (\<Sum>s \<leftarrow> servers. if srv_down s = 0 then srv_naddrs s else 0)
      in \<lparr>rp_peer = ps, rp_config = None, rp_init_number = None, rp_last_number = None,
          rp_last_peer = None, rp_last_config = 0, rp_total_weight = int w, rp_tries = t,
          rp_single = single, rp_weighted = (w \<noteq> n)\<rparr>)"

definition ngx_http_upstream_init_round_robin :: "rr_setup \<Rightarrow> (nat \<Rightarrow> byte list) \<Rightarrow> (nat \<Rightarrow> u64)
    \<Rightarrow> (nat \<Rightarrow> byte list) \<Rightarrow> (nat \<Rightarrow> u64) \<Rightarrow> rr_server list \<Rightarrow> rr_upstream option" where
  "ngx_http_upstream_init_round_robin setup sids checks bsids bchecks servers =
     (let resolve = (\<exists>s \<in> set servers. srv_resolve s);
          prim = rr_static False servers; back = rr_static True servers;
          n = (\<Sum>s \<leftarrow> prim. srv_naddrs s); bn = (\<Sum>s \<leftarrow> back. srv_naddrs s);
          r = length (filter (\<lambda>s. \<not> srv_backup s \<and> srv_resolve s) servers);
          br = length (filter (\<lambda>s. srv_backup s \<and> srv_resolve s) servers)
      in if set_zone setup \<and> resolve \<and> (\<not> set_modify setup \<or> \<not> set_resolver setup) then None
         else if \<not> set_zone setup \<and> resolve then None
         else if n + r = 0 then None
         else if (bn = 0 \<and> \<not> resolve) \<or> (bn + br = 0 \<and> \<not> set_backup setup) then
           Some \<lparr>us_primary = rr_new_set (n = 1) prim (rr_new_peers sids checks prim), us_backup = None\<rparr>
         else
           Some \<lparr>us_primary = rr_new_set (n = 1 \<and> bn = 0) prim (rr_new_peers sids checks prim),
                 us_backup = Some (rr_new_set False back (rr_new_peers bsids bchecks back))\<rparr>)"

end
