(* ===== verification/Smooth_Wrr.thy ===== *)
theory Smooth_Wrr
  imports Ngx_Prelude
begin

text \<open>
  The contract of smooth weighted round robin, apart from any data structure: each round raises
  the current weight of every peer by its weight, takes a peer whose raised weight is greatest
  (the weights alone decide which, also between equals) and lowers it by the sum of the weights.
  The consequences for a client, for rounds that start from zero current weights: no current
  weight ever reaches minus the sum of the weights, the current weights add up to zero, and any
  consecutive rounds, as many as the sum of the weights, take every peer exactly as often as its
  weight says.
\<close>

text \<open>A run of rounds, with the peers they take.\<close>

fun wrr_run :: "('s \<Rightarrow> nat \<Rightarrow> 's \<Rightarrow> bool) \<Rightarrow> 's \<Rightarrow> nat list \<Rightarrow> 's \<Rightarrow> bool" where
  "wrr_run round s [] s' \<longleftrightarrow> s' = s"
| "wrr_run round s (b # bs) s' \<longleftrightarrow> (\<exists>u. round s b u \<and> wrr_run round u bs s')"

lemma wrr_run_append:
  "wrr_run round s (xs @ ys) s' \<longleftrightarrow> (\<exists>u. wrr_run round s xs u \<and> wrr_run round u ys s')"
  by (induction xs arbitrary: s) auto

locale smooth_wrr =
  fixes n :: nat
    and w :: "nat \<Rightarrow> int"
    and inv :: "'s \<Rightarrow> bool"
    and cw :: "'s \<Rightarrow> nat \<Rightarrow> int"
    and round :: "'s \<Rightarrow> nat \<Rightarrow> 's \<Rightarrow> bool"
  assumes inv_peers: "inv s \<Longrightarrow> 0 < n \<and> (\<forall>i<n. 0 < w i)"
    and round_inv: "inv s \<Longrightarrow> round s b s' \<Longrightarrow> inv s' \<and> b < n"
    and round_best: "inv s \<Longrightarrow> round s b s' \<Longrightarrow> i < n \<Longrightarrow> cw s i + w i \<le> cw s b + w b"
    and round_weights: "inv s \<Longrightarrow> round s b s' \<Longrightarrow> i < n
      \<Longrightarrow> cw s' i = cw s i + w i - (if i = b then (\<Sum>j<n. w j) else 0)"
    and round_choice: "inv s \<Longrightarrow> inv t \<Longrightarrow> (\<And>i. i < n \<Longrightarrow> cw s i = cw t i)
      \<Longrightarrow> round s b s' \<Longrightarrow> round t c t' \<Longrightarrow> b = c"
begin

abbreviation (input) W :: int where "W \<equiv> (\<Sum>j<n. w j)"

lemma W_pos: "inv s \<Longrightarrow> 0 < W"
  using inv_peers by (intro sum_pos) auto

lemma sum_counts:
  assumes "set bs \<subseteq> {..<n}"
  shows "(\<Sum>j<n. int (count_list bs j)) = int (length bs)"
proof -
  have "(\<Sum>j<n. count_list bs j) = (\<Sum>j\<in>set bs. count_list bs j)"
    using assms by (intro sum.mono_neutral_right) (auto simp: count_list_0_iff)
  then show ?thesis by (simp add: sum_count_set flip: of_nat_sum)
qed

text \<open>The weights after a run that starts from zero.\<close>

definition run_state :: "nat list \<Rightarrow> 's \<Rightarrow> bool" where
  "run_state bs s \<longleftrightarrow> inv s \<and> set bs \<subseteq> {..<n}
     \<and> (\<forall>i<n. cw s i = int (length bs) * w i - int (count_list bs i) * W) \<and> (\<forall>i<n. - W < cw s i)"

lemma run_state_sum: "run_state bs s \<Longrightarrow> (\<Sum>j<n. cw s j) = 0"
proof -
  assume r: "run_state bs s"
  then have "(\<Sum>j<n. cw s j) = (\<Sum>j<n. int (length bs) * w j - int (count_list bs j) * W)"
    by (intro sum.cong) (auto simp: run_state_def)
  also have "\<dots> = int (length bs) * W - (\<Sum>j<n. int (count_list bs j)) * W"
    by (simp add: sum_subtractf flip: sum_distrib_left sum_distrib_right)
  finally show ?thesis using r sum_counts [of bs] by (simp add: run_state_def)
qed

lemma run_state_round:
  assumes "run_state bs s" "round s b s'"
  shows "run_state (bs @ [b]) s'"
proof -
  have s: "inv s" using assms(1) by (simp add: run_state_def)
  have b: "b < n" "inv s'" using round_inv [OF s assms(2)] by auto
  have pos: "\<And>i. i < n \<Longrightarrow> 0 < w i" using inv_peers [OF s] by auto
  have upd: "cw s' i = cw s i + w i - (if i = b then W else 0)" if "i < n" for i
    using round_weights [OF s assms(2) that] by simp
  have top: "0 < cw s b + w b"
  proof (rule ccontr)
    assume "\<not> 0 < cw s b + w b"
    then have "\<forall>j \<in> {..<n}. cw s j + w j \<le> 0"
      using round_best [OF s assms(2)] by force
    then have "(\<Sum>j<n. cw s j + w j) \<le> 0" by (intro sum_nonpos) auto
    with run_state_sum [OF assms(1)] W_pos [OF s] show False by (simp add: sum.distrib)
  qed
  have "- W < cw s' i" if "i < n" for i
    using upd [OF that] pos [OF that] top assms(1) that by (cases "i = b") (auto simp: run_state_def)
  moreover have "cw s' i = int (length (bs @ [b])) * w i - int (count_list (bs @ [b]) i) * W"
    if "i < n" for i
    using upd [OF that] assms(1) that by (auto simp: run_state_def algebra_simps)
  ultimately show ?thesis using assms(1) b by (simp add: run_state_def)
qed

lemma run_state_run: "run_state xs s \<Longrightarrow> wrr_run round s bs s' \<Longrightarrow> run_state (xs @ bs) s'"
proof (induction bs arbitrary: xs s)
  case (Cons b bs)
  then obtain u where u: "round s b u" "wrr_run round u bs s'" by auto
  from Cons.IH [OF run_state_round [OF Cons.prems(1) u(1)] u(2)] show ?case by simp
qed simp

lemma run_weights:
  assumes "inv s" "\<And>i. i < n \<Longrightarrow> cw s i = 0" "wrr_run round s bs s'"
  shows "run_state bs s'"
proof -
  have "run_state [] s" using assms(1,2) W_pos [OF assms(1)] by (simp add: run_state_def)
  from run_state_run [OF this assms(3)] show ?thesis by simp
qed

text \<open>The first rounds, as many as the sum of the weights, are fair.\<close>

lemma run_fair:
  assumes "inv s" "\<And>i. i < n \<Longrightarrow> cw s i = 0" "wrr_run round s bs s'" "int (length bs) = W" "i < n"
  shows "int (count_list bs i) = w i \<and> cw s' i = 0"
proof -
  have run: "run_state bs s'" by (rule run_weights [OF assms(1-3)])
  have le: "int (count_list bs j) \<le> w j" if "j < n" for j
  proof -
    have "- W < W * w j - int (count_list bs j) * W" using run assms(4) that by (auto simp: run_state_def)
    then have "W * (int (count_list bs j) - w j) < W * 1" by (simp add: algebra_simps)
    with W_pos [OF assms(1)] have "int (count_list bs j) - w j < 1" by (simp only: mult_less_cancel_left_pos)
    then show ?thesis by simp
  qed
  have total: "(\<Sum>j<n. int (count_list bs j)) = W"
    using sum_counts [of bs] run assms(4) by (simp add: run_state_def)
  have "int (count_list bs i) = w i"
  proof (rule ccontr)
    assume "int (count_list bs i) \<noteq> w i"
    with le [OF assms(5)] have "int (count_list bs i) < w i" by simp
    then have "(\<Sum>j<n. int (count_list bs j)) < (\<Sum>j<n. w j)"
      using le assms(5) by (intro sum_strict_mono_ex1) auto
    with total show False by simp
  qed
  with run assms(4,5) show ?thesis by (simp add: run_state_def)
qed

text \<open>Equal weights have the same future.\<close>

lemma run_same:
  assumes "inv s" "inv t" "\<And>i. i < n \<Longrightarrow> cw s i = cw t i"
    and "wrr_run round s bs s'" "wrr_run round t cs t'" "length bs = length cs"
  shows "bs = cs \<and> (\<forall>i<n. cw s' i = cw t' i)"
  using assms
proof (induction bs arbitrary: s t cs)
  case (Cons b bs)
  obtain c cs0 where cs: "cs = c # cs0" using Cons.prems(6) by (cases cs) auto
  obtain u v where u: "round s b u" "wrr_run round u bs s'" and v: "round t c v" "wrr_run round v cs0 t'"
    using Cons.prems(4,5) cs by auto
  have c: "b = c" by (rule round_choice [OF Cons.prems(1-3) u(1) v(1)])
  have inv: "inv u" "inv v" using round_inv [OF Cons.prems(1) u(1)] round_inv [OF Cons.prems(2) v(1)] by auto
  have "cw u i = cw v i" if "i < n" for i
    using round_weights [OF Cons.prems(1) u(1) that] round_weights [OF Cons.prems(2) v(1) that]
      Cons.prems(3) [OF that] c by simp
  from Cons.IH [OF inv this u(2) v(2)] Cons.prems(6) c cs show ?case by simp
qed simp

text \<open>So every window of rounds that long is fair, wherever it begins.\<close>

lemma run_window_fair:
  assumes "inv s" "\<And>i. i < n \<Longrightarrow> cw s i = 0" "wrr_run round s (xs @ ys) s'"
    and "int (length ys) = W" "i < n"
  shows "int (count_list ys i) = w i"
proof -
  let ?k = "length ys"
  define zs vs where "zs = take ?k (xs @ ys)" and "vs = drop ?k (xs @ ys)"
  have split: "xs @ ys = zs @ vs" by (simp only: zs_def vs_def append_take_drop_id)
  have lens: "length zs = ?k" "length vs = length xs" by (simp_all add: zs_def vs_def)
  obtain m where m: "wrr_run round s xs m" using assms(3) by (auto simp: wrr_run_append)
  obtain z where z: "wrr_run round s zs z" "wrr_run round z vs s'"
    using assms(3) by (auto simp: split wrr_run_append)
  have len: "int (length zs) = W" using lens(1) assms(4) by simp
  have zero: "cw z j = 0" if "j < n" for j using run_fair [OF assms(1,2) z(1) len that] by simp
  have "run_state zs z" using run_weights [OF assms(1,2) z(1)] by blast
  then have "inv z" by (simp add: run_state_def)
  then have "xs = vs"
    using run_same [OF assms(1) _ _ m z(2)] assms(2) zero lens(2) by simp
  moreover have "count_list (xs @ ys) i = count_list (zs @ vs) i" by (simp only: split)
  ultimately have "count_list ys i = count_list zs i" by simp
  with run_fair [OF assms(1,2) z(1) len assms(5)] show ?thesis by simp
qed

end

end
