(* ===== verification/Upstream_Rr_Props.thy ===== *)
theory Upstream_Rr_Props
  imports Upstream_Round_Robin Smooth_Wrr
begin

text \<open>
  Properties of the round robin balancer: which peer a selection returns, what a selection keeps of the
  peers, and the accounting of connections while any number of requests take and release peers.
\<close>

section \<open>The ring and the bitmap\<close>

lemma length_rr_ring [simp]: "length (rr_ring b n) = n"
  by (simp add: rr_ring_def)

lemma rr_ring_less: "i \<in> set (rr_ring b n) \<Longrightarrow> i < n"
  by (auto simp: rr_ring_def)

lemma rr_ring_nth: "i < n \<Longrightarrow> rr_ring b n ! i = (b + i) mod n"
  by (simp add: rr_ring_def)

lemma add_mod_eq_le: "(b + x) mod n = (b + y) mod n \<Longrightarrow> x < n \<Longrightarrow> y \<le> x \<Longrightarrow> x = (y :: nat)"
proof -
  assume "(b + x) mod n = (b + y) mod n" "x < n" "y \<le> x"
  then have "n dvd x - y" using mod_eq_dvd_iff_nat [of "b + y" "b + x" n] by simp
  with \<open>x < n\<close> \<open>y \<le> x\<close> show ?thesis using dvd_imp_le [of n "x - y"] by (cases "x - y = 0") auto
qed

lemma distinct_rr_ring: "distinct (rr_ring b n)"
proof -
  have "inj_on (\<lambda>k. (b + k) mod n) {0..<n}"
    by (rule inj_onI) (metis add_mod_eq_le atLeastLessThan_iff nat_le_linear)
  then show ?thesis by (simp add: rr_ring_def distinct_map)
qed

lemma set_rr_ring: "set (rr_ring b n) = {..<n}"
proof (rule card_subset_eq)
  show "card (set (rr_ring b n)) = card {..<n}"
    using distinct_card [OF distinct_rr_ring, of b n] by simp
qed (auto dest: rr_ring_less)

lemma is_tried_set:
  assumes "i div 64 < length tried" "j div 64 < length tried"
  shows "is_tried (set_tried tried j) i \<longleftrightarrow> is_tried tried i \<or> i = j"
proof (cases "i div 64 = j div 64")
  case True
  then have "i = j \<longleftrightarrow> i mod 64 = j mod 64" by (metis div_mult_mod_eq)
  with True assms show ?thesis
    by (auto simp: is_tried_def set_tried_def and_exp_eq_0_iff_not_bit bit_or_iff bit_exp_iff)
next
  case False
  then have "i \<noteq> j" by auto
  with False show ?thesis by (simp add: is_tried_def set_tried_def)
qed

section \<open>The scan\<close>

lemma rr_better_Some:
  "\<exists>m. rr_better ps i best = Some m \<and> (m = i \<or> best = Some m)
     \<and> (\<forall>k. best = Some k \<or> k = i \<longrightarrow> current_weight (ps ! k) \<le> current_weight (ps ! m))"
  by (cases best) (auto simp: rr_better_def)

lemma rr_scan_spec:
  assumes "rr_scan usable is ps tot best = (ps', tot', best')"
    and "distinct is" "\<forall>i \<in> set is. i < length ps"
    and "\<And>b. best = Some b \<Longrightarrow> b < length ps \<and> b \<notin> set is"
  shows "length ps' = length ps
    \<and> (\<forall>j < length ps. ps' ! j
          = (if j \<in> set is \<and> usable j (ps ! j) then rr_gain (ps ! j) else ps ! j))
    \<and> tot' = tot + (\<Sum>i \<leftarrow> is. if usable i (ps ! i) then effective_weight (ps ! i) else 0)
    \<and> (best' = None \<longleftrightarrow> best = None \<and> (\<forall>i \<in> set is. \<not> usable i (ps ! i)))
    \<and> (\<forall>b. best' = Some b \<longrightarrow> (best = Some b \<or> b \<in> set is \<and> usable b (ps ! b))
          \<and> (\<forall>i. best = Some i \<or> i \<in> set is \<and> usable i (ps ! i)
               \<longrightarrow> current_weight (ps' ! i) \<le> current_weight (ps' ! b)))"
  using assms
proof (induction usable "is" ps tot best arbitrary: ps' tot' best' rule: rr_scan.induct)
  case (1 usable ps tot best)
  then show ?case by auto
next
  case (2 usable i "is" ps tot best)
  have dist: "i \<notin> set is" "distinct is" "i < length ps" "\<forall>j \<in> set is. j < length ps"
    using 2(4,5) by auto
  show ?case
  proof (cases "usable i (ps ! i)")
    case False
    with 2(3) have "rr_scan usable is ps tot best = (ps', tot', best')" by simp
    moreover have "\<And>b. best = Some b \<Longrightarrow> b < length ps \<and> b \<notin> set is" using 2(6) by auto
    ultimately have IH: "length ps' = length ps
      \<and> (\<forall>j < length ps. ps' ! j
            = (if j \<in> set is \<and> usable j (ps ! j) then rr_gain (ps ! j) else ps ! j))
      \<and> tot' = tot + (\<Sum>i \<leftarrow> is. if usable i (ps ! i) then effective_weight (ps ! i) else 0)
      \<and> (best' = None \<longleftrightarrow> best = None \<and> (\<forall>i \<in> set is. \<not> usable i (ps ! i)))
      \<and> (\<forall>b. best' = Some b \<longrightarrow> (best = Some b \<or> b \<in> set is \<and> usable b (ps ! b))
            \<and> (\<forall>i. best = Some i \<or> i \<in> set is \<and> usable i (ps ! i)
                 \<longrightarrow> current_weight (ps' ! i) \<le> current_weight (ps' ! b)))"
      using 2(1) [OF False] dist(2,4) by blast
    have pick: "\<And>j. j \<in> set (i # is) \<and> usable j (ps ! j) \<longleftrightarrow> j \<in> set is \<and> usable j (ps ! j)"
        "(\<forall>j \<in> set (i # is). \<not> usable j (ps ! j)) \<longleftrightarrow> (\<forall>j \<in> set is. \<not> usable j (ps ! j))"
      using False by auto
    have sums: "(\<Sum>j \<leftarrow> i # is. if usable j (ps ! j) then effective_weight (ps ! j) else 0)
        = (\<Sum>j \<leftarrow> is. if usable j (ps ! j) then effective_weight (ps ! j) else 0)"
      using False by simp
    show ?thesis unfolding pick sums by (rule IH)
  next
    case True
    let ?ps = "ps[i := rr_gain (ps ! i)]"
    have run: "rr_scan usable is ?ps (tot + effective_weight (ps ! i)) (rr_better ?ps i best)
        = (ps', tot', best')"
      using 2(3) True by (simp add: Let_def)
    obtain m where m: "rr_better ?ps i best = Some m" "m = i \<or> best = Some m"
        "\<And>k. best = Some k \<or> k = i \<Longrightarrow> current_weight (?ps ! k) \<le> current_weight (?ps ! m)"
      using rr_better_Some [of ?ps i best] by blast
    have m_in: "m < length ps" "m \<notin> set is" using m(2) 2(6) dist by auto
    then have best: "\<And>b. rr_better ?ps i best = Some b \<Longrightarrow> b < length ?ps \<and> b \<notin> set is"
      using m(1) by simp
    have IH: "length ps' = length ?ps"
      "\<And>j. j < length ?ps \<Longrightarrow> ps' ! j
          = (if j \<in> set is \<and> usable j (?ps ! j) then rr_gain (?ps ! j) else ?ps ! j)"
      "tot' = tot + effective_weight (ps ! i)
         + (\<Sum>i \<leftarrow> is. if usable i (?ps ! i) then effective_weight (?ps ! i) else 0)"
      "best' = None \<longleftrightarrow> rr_better ?ps i best = None \<and> (\<forall>i \<in> set is. \<not> usable i (?ps ! i))"
      "\<And>b. best' = Some b \<Longrightarrow> rr_better ?ps i best = Some b \<or> b \<in> set is \<and> usable b (?ps ! b)"
      "\<And>b k. best' = Some b \<Longrightarrow> rr_better ?ps i best = Some k \<or> k \<in> set is \<and> usable k (?ps ! k)
         \<Longrightarrow> current_weight (ps' ! k) \<le> current_weight (ps' ! b)"
      using 2(2) [OF _ refl run dist(2)] True dist(4) best by auto
    have same: "?ps ! j = ps ! j" if "j \<in> set is" for j using that dist(1) by (metis nth_list_update_neq)
    have sums: "(\<Sum>j \<leftarrow> is. if usable j (?ps ! j) then effective_weight (?ps ! j) else 0)
        = (\<Sum>j \<leftarrow> is. if usable j (ps ! j) then effective_weight (ps ! j) else 0)"
      by (rule arg_cong [of _ _ sum_list]) (simp add: same)
    have kept: "ps' ! k = ?ps ! k" if "k < length ps" "k \<notin> set is" for k using IH(2) that by simp
    have le: "current_weight (ps' ! k) \<le> current_weight (ps' ! b)"
      if b: "best' = Some b" and k: "best = Some k \<or> k = i" for b k
    proof -
      have "k < length ps" "k \<notin> set is" using k 2(6) dist by auto
      then have "current_weight (ps' ! k) \<le> current_weight (ps' ! m)"
        using m(3) [OF k] kept m_in by metis
      also have "\<dots> \<le> current_weight (ps' ! b)" using IH(6) [OF b] m(1) by blast
      finally show ?thesis .
    qed
    have in_set: "best = Some b \<or> b \<in> set (i # is) \<and> usable b (ps ! b)" if "best' = Some b" for b
      using IH(5) [OF that] True same m(1,2) by auto
    have some: "best' \<noteq> None" using IH(4) m(1) by simp
    have vals: "ps' ! j = (if j \<in> set (i # is) \<and> usable j (ps ! j) then rr_gain (ps ! j) else ps ! j)"
      if "j < length ps" for j
      using IH(2) [of j] that dist(1) True same by (cases "j = i") auto
    have le_all: "current_weight (ps' ! k) \<le> current_weight (ps' ! b)"
      if "best' = Some b" "best = Some k \<or> k \<in> set (i # is) \<and> usable k (ps ! k)" for b k
      using le [of b k] IH(6) [of b k] that same by auto
    have tots: "tot' = tot
        + (\<Sum>j \<leftarrow> i # is. if usable j (ps ! j) then effective_weight (ps ! j) else 0)"
      using IH(3) sums True by simp
    have none: "best' = None \<longleftrightarrow> best = None \<and> (\<forall>j \<in> set (i # is). \<not> usable j (ps ! j))"
      using some True by auto
    show ?thesis
      using IH(1) vals tots none in_set le_all by (intro conjI) (simp, blast+)
  qed
qed

section \<open>Which peer a selection returns\<close>

lemma rr_ring_usable:
  "(\<exists>i \<in> set (rr_ring b n). P i) \<longleftrightarrow> (\<exists>i<n. P i)"
  by (auto simp: set_rr_ring)

lemma rr_scan_ring:
  assumes "rr_scan usable (rr_ring b (length ps)) ps 0 None = (ps', tot, best)"
  shows "length ps' = length ps"
    "\<And>j. j < length ps \<Longrightarrow> ps' ! j = (if usable j (ps ! j) then rr_gain (ps ! j) else ps ! j)"
    "tot = (\<Sum>i<length ps. if usable i (ps ! i) then effective_weight (ps ! i) else 0)"
    "best = None \<longleftrightarrow> (\<forall>i<length ps. \<not> usable i (ps ! i))"
    "\<And>c. best = Some c \<Longrightarrow> c < length ps \<and> usable c (ps ! c)"
    "\<And>c i. best = Some c \<Longrightarrow> i < length ps \<Longrightarrow> usable i (ps ! i)
       \<Longrightarrow> current_weight (ps' ! i) \<le> current_weight (ps' ! c)"
proof -
  have sums: "(\<Sum>i \<leftarrow> rr_ring b (length ps). if usable i (ps ! i) then effective_weight (ps ! i) else 0)
      = (\<Sum>i<length ps. if usable i (ps ! i) then effective_weight (ps ! i) else 0)"
    using sum_list_distinct_conv_sum_set [OF distinct_rr_ring] by (simp add: set_rr_ring)
  have "length ps' = length ps
    \<and> (\<forall>j < length ps. ps' ! j
          = (if j \<in> {..<length ps} \<and> usable j (ps ! j) then rr_gain (ps ! j) else ps ! j))
    \<and> tot = 0 + (\<Sum>i<length ps. if usable i (ps ! i) then effective_weight (ps ! i) else 0)
    \<and> (best = None \<longleftrightarrow> None = None \<and> (\<forall>i \<in> {..<length ps}. \<not> usable i (ps ! i)))
    \<and> (\<forall>c. best = Some c \<longrightarrow> (None = Some c \<or> c \<in> {..<length ps} \<and> usable c (ps ! c))
          \<and> (\<forall>i. None = Some i \<or> i \<in> {..<length ps} \<and> usable i (ps ! i)
               \<longrightarrow> current_weight (ps' ! i) \<le> current_weight (ps' ! c)))"
    using rr_scan_spec [OF assms distinct_rr_ring] unfolding set_rr_ring sums by blast
  then show "length ps' = length ps"
    "\<And>j. j < length ps \<Longrightarrow> ps' ! j = (if usable j (ps ! j) then rr_gain (ps ! j) else ps ! j)"
    "tot = (\<Sum>i<length ps. if usable i (ps ! i) then effective_weight (ps ! i) else 0)"
    "best = None \<longleftrightarrow> (\<forall>i<length ps. \<not> usable i (ps ! i))"
    "\<And>c. best = Some c \<Longrightarrow> c < length ps \<and> usable c (ps ! c)"
    "\<And>c i. best = Some c \<Longrightarrow> i < length ps \<Longrightarrow> usable i (ps ! i)
       \<Longrightarrow> current_weight (ps' ! i) \<le> current_weight (ps' ! c)"
    by (simp, simp, simp, meson lessThan_iff, meson lessThan_iff option.simps(2), meson lessThan_iff)
qed

lemma rr_find_ring:
  "find P (rr_ring b n) = None \<longleftrightarrow> (\<forall>i<n. \<not> P i)"
  "find P (rr_ring b n) = Some c \<Longrightarrow> c < n \<and> P c"
  by (auto simp: find_None_iff find_Some_iff set_rr_ring rr_ring_nth)

lemma rr_select_best:
  assumes "rr_select env b peers tried = (peers', tot, best)"
  shows "(best = None \<longleftrightarrow> (\<forall>i<rp_number peers. \<not> peer_usable env tried i (rp_peer peers ! i)))
    \<and> (\<forall>c. best = Some c \<longrightarrow> c < rp_number peers \<and> peer_usable env tried c (rp_peer peers ! c))
    \<and> rp_number peers' = rp_number peers"
proof (cases "rp_weighted peers")
  case True
  obtain ps tot' best' where scan:
      "rr_scan (peer_usable env tried) (rr_ring b (rp_number peers)) (rp_peer peers) 0 None
        = (ps, tot', best')"
    by (metis prod_cases3)
  have "best' = best" "peers' = peers\<lparr>rp_peer := ps\<rparr>"
    using assms scan True by (simp_all add: rr_select_def)
  with rr_scan_ring [OF scan] show ?thesis by simp
next
  case False
  let ?found = "find (\<lambda>i. peer_usable env tried i (rp_peer peers ! i)) (rr_ring b (rp_number peers))"
  have "best = ?found \<and> rp_number peers' = rp_number peers"
    using assms False by (auto simp: rr_select_def Let_def split: option.splits)
  then show ?thesis
    using rr_find_ring [of "\<lambda>i. peer_usable env tried i (rp_peer peers ! i)" b "rp_number peers"]
    by auto
qed

lemma rr_chosen_simps [simp]:
  "rrp_current (snd (rr_chosen env b peers rrp)) = Some b"
  "rrp_tried (snd (rr_chosen env b peers rrp)) = set_tried (rrp_tried rrp) b"
  "rp_number (fst (rr_chosen env b peers rrp)) = rp_number peers"
  by (simp_all add: rr_chosen_def Let_def)

abbreviation (input) with_init :: "rr_env \<Rightarrow> rr_peers \<Rightarrow> rr_peers" where
  "with_init env peers \<equiv> peers\<lparr>rp_init_number := Some (rr_init_number env peers)\<rparr>"

lemma get_peer_no_hint:
  assumes "env_hint env = None" "0 < rp_number peers"
    and "ngx_http_upstream_get_peer env peers rrp = (res, peers', rrp')"
  shows "\<exists>peers2 tot.
    rr_select env (rr_begin (with_init env peers) (rr_init_number env peers)) (with_init env peers)
      (rrp_tried rrp) = (peers2, tot, res)
    \<and> (res = None \<longrightarrow> peers' = peers2 \<and> rrp' = rrp)
    \<and> (\<forall>b. res = Some b \<longrightarrow> (peers', rrp') = rr_chosen env b
         (peers2\<lparr>rp_peer := lower_weight b tot (rp_peer peers2)\<rparr>) rrp)"
proof -
  obtain peers2 tot best where sel:
      "rr_select env (rr_begin (with_init env peers) (rr_init_number env peers)) (with_init env peers)
         (rrp_tried rrp) = (peers2, tot, best)"
    by (metis prod_cases3)
  have "ngx_http_upstream_get_peer env peers rrp =
      (case best of
         None \<Rightarrow> (None, peers2, rrp)
       | Some b \<Rightarrow> (Some b, rr_chosen env b
           (peers2\<lparr>rp_peer := lower_weight b tot (rp_peer peers2)\<rparr>) rrp))"
    using assms(1,2) sel
    by (simp add: ngx_http_upstream_get_peer_def ngx_http_upstream_get_rr_peer_by_sid_def Let_def)
  with assms(3) have "best = res" "res = None \<longrightarrow> peers' = peers2 \<and> rrp' = rrp"
      "\<forall>b. res = Some b \<longrightarrow> (peers', rrp') = rr_chosen env b
         (peers2\<lparr>rp_peer := lower_weight b tot (rp_peer peers2)\<rparr>) rrp"
    by (auto split: option.splits)
  with sel show ?thesis by blast
qed

text \<open>
  C7: Round robin selects exactly the peers that may be used. Without a session hint,
  \<open>ngx_http_upstream_get_peer\<close> finds a peer if and only if some peer is untried, up, passes its
  health check, is not within its failure timeout and has a free connection; the peer it returns
  is such a peer, becomes \<open>rrp->current\<close>, and its tried bit is the only one that changes.
\<close>

theorem rr_get_peer_usable:
  assumes "env_hint env = None" "rp_number peers \<le> 64 * length (rrp_tried rrp)"
    and "ngx_http_upstream_get_peer env peers rrp = (res, peers', rrp')"
  shows "(res = None \<longleftrightarrow>
      (\<forall>i<rp_number peers. \<not> peer_usable env (rrp_tried rrp) i (rp_peer peers ! i)))
    \<and> (\<forall>b. res = Some b \<longrightarrow> b < rp_number peers
         \<and> peer_usable env (rrp_tried rrp) b (rp_peer peers ! b) \<and> rrp_current rrp' = Some b
         \<and> (\<forall>i<rp_number peers. is_tried (rrp_tried rrp') i \<longleftrightarrow> is_tried (rrp_tried rrp) i \<or> i = b))"
proof (cases "rp_number peers = 0")
  case True
  with assms(3) show ?thesis by (simp add: ngx_http_upstream_get_peer_def)
next
  case False
  then obtain peers2 tot where sel:
      "rr_select env (rr_begin (with_init env peers) (rr_init_number env peers)) (with_init env peers)
         (rrp_tried rrp) = (peers2, tot, res)"
      "\<And>b. res = Some b \<Longrightarrow> (peers', rrp') = rr_chosen env b
         (peers2\<lparr>rp_peer := lower_weight b tot (rp_peer peers2)\<rparr>) rrp"
    using get_peer_no_hint [OF assms(1) _ assms(3)] by blast
  have best: "(res = None \<longleftrightarrow>
        (\<forall>i<rp_number peers. \<not> peer_usable env (rrp_tried rrp) i (rp_peer peers ! i)))
      \<and> (\<forall>c. res = Some c \<longrightarrow> c < rp_number peers \<and> peer_usable env (rrp_tried rrp) c (rp_peer peers ! c))"
    using rr_select_best [OF sel(1)] by simp
  have word: "i div 64 < length (rrp_tried rrp)" if "i < rp_number peers" for i
    using that assms(2) by (simp add: less_mult_imp_div_less mult.commute)
  have "rrp_current rrp' = Some b
      \<and> (\<forall>i<rp_number peers. is_tried (rrp_tried rrp') i \<longleftrightarrow> is_tried (rrp_tried rrp) i \<or> i = b)"
    if "res = Some b" for b
  proof -
    have "b < rp_number peers" using best that by blast
    moreover have "rrp' = snd (rr_chosen env b (peers2\<lparr>rp_peer := lower_weight b tot (rp_peer peers2)\<rparr>) rrp)"
      using sel(2) [OF that] by (metis snd_conv)
    ultimately show ?thesis using word by (simp add: is_tried_set)
  qed
  with best show ?thesis by blast
qed

section \<open>What selection keeps\<close>

text \<open>The parts of a peer that only taking and releasing it may change, and the range of its
  effective weight.\<close>

definition peer_weights_ok :: "rr_peer \<Rightarrow> bool" where
  "peer_weights_ok p \<longleftrightarrow> 0 \<le> effective_weight p \<and> effective_weight p \<le> weight p"

definition peer_frame :: "rr_peer \<Rightarrow> rr_peer \<Rightarrow> bool" where
  "peer_frame p p' \<longleftrightarrow> conns p' = conns p \<and> refs p' = refs p \<and> max_conns p' = max_conns p
     \<and> down p' = down p \<and> check_index p' = check_index p \<and> fails p' = fails p
     \<and> max_fails p' = max_fails p \<and> weight p' = weight p
     \<and> (peer_weights_ok p \<longrightarrow> peer_weights_ok p')"

definition rr_frame :: "rr_peer list \<Rightarrow> rr_peer list \<Rightarrow> bool" where
  "rr_frame ps ps' \<longleftrightarrow> length ps' = length ps \<and> (\<forall>i<length ps. peer_frame (ps ! i) (ps' ! i))"

lemma peer_frame_refl [simp]: "peer_frame p p"
  by (simp add: peer_frame_def)

lemma rr_frame_refl [simp]: "rr_frame ps ps"
  by (simp add: rr_frame_def)

lemma rr_frame_trans: "rr_frame ps ps' \<Longrightarrow> rr_frame ps' ps'' \<Longrightarrow> rr_frame ps ps''"
  by (simp add: rr_frame_def peer_frame_def)

lemma rr_frame_update: "i < length ps \<Longrightarrow> peer_frame (ps ! i) p \<Longrightarrow> rr_frame ps (ps[i := p])"
  by (auto simp: rr_frame_def nth_list_update)

lemma peer_frame_gain [simp]: "peer_frame p (rr_gain p)"
  by (auto simp: peer_frame_def rr_gain_def peer_weights_ok_def)

lemma peer_frame_current [simp]: "peer_frame p (p\<lparr>current_weight := c\<rparr>)"
  by (auto simp: peer_frame_def peer_weights_ok_def)

lemma lower_weight_frame: "rr_frame ps (lower_weight b tot ps)"
  by (cases "b < length ps") (simp_all add: lower_weight_def rr_frame_update list_update_beyond)

lemma rr_scan_frame:
  "rr_scan usable is ps tot best = (ps', tot', best') \<Longrightarrow> rr_frame ps ps'"
proof (induction usable "is" ps tot best rule: rr_scan.induct)
  case (2 usable i "is" ps tot best)
  have "rr_frame ps (ps[i := rr_gain (ps ! i)])"
    by (cases "i < length ps") (simp_all add: rr_frame_update list_update_beyond)
  with 2 show ?case by (auto simp: Let_def intro: rr_frame_trans split: if_splits)
qed simp

lemma rr_adapt_scan_frame:
  "rr_adapt_scan is ps tot best = (ps', tot', best') \<Longrightarrow> rr_frame ps ps'"
proof (induction "is" ps tot best rule: rr_adapt_scan.induct)
  case (2 i "is" ps tot best)
  have "rr_frame ps (ps[i := (ps ! i)\<lparr>current_weight := c\<rparr>])" for c
    by (cases "i < length ps") (simp_all add: rr_frame_update list_update_beyond)
  with 2 show ?case by (auto simp: Let_def intro: rr_frame_trans)
qed simp

lemma rr_select_frame:
  "rr_select env b peers tried = (peers', tot, best) \<Longrightarrow> rr_frame (rp_peer peers) (rp_peer peers')"
  by (auto simp: rr_select_def Let_def split: if_splits option.splits prod.splits dest: rr_scan_frame)

lemma adapte_frame:
  "rr_frame (rp_peer peers) (rp_peer (snd (ngx_http_upstream_adapte_rr_peer_weight env peers)))"
  by (auto simp: ngx_http_upstream_adapte_rr_peer_weight_def Let_def split: prod.splits option.splits
      dest!: rr_adapt_scan_frame intro: rr_frame_trans lower_weight_frame)

lemma rr_discard_frame:
  "rr_frame (rp_peer peers) (rp_peer (snd (rr_discard env discarded peers)))"
proof -
  have "rr_frame (rp_peer peers)
      (rp_peer (((\<lambda>p. snd (ngx_http_upstream_adapte_rr_peer_weight env p)) ^^ k) peers))" for k
    by (induction k) (auto intro: rr_frame_trans adapte_frame)
  then show ?thesis by (simp add: rr_discard_def)
qed

section \<open>Connection accounting\<close>

text \<open>From \<open>ps\<close> to \<open>ps'\<close> the connection and reference counts grow by \<open>dc\<close> and \<open>dr\<close>, the limits and
  weights are unchanged and the effective weights stay in range.\<close>

definition rr_acct :: "(nat \<Rightarrow> u64) \<Rightarrow> (nat \<Rightarrow> u64) \<Rightarrow> rr_peer list \<Rightarrow> rr_peer list \<Rightarrow> bool" where
  "rr_acct dc dr ps ps' \<longleftrightarrow> length ps' = length ps \<and> (\<forall>i<length ps.
     conns (ps' ! i) = conns (ps ! i) + dc i \<and> refs (ps' ! i) = refs (ps ! i) + dr i
     \<and> max_conns (ps' ! i) = max_conns (ps ! i) \<and> weight (ps' ! i) = weight (ps ! i)
     \<and> (peer_weights_ok (ps ! i) \<longrightarrow> peer_weights_ok (ps' ! i)))"

definition at_peer :: "nat \<Rightarrow> nat \<Rightarrow> u64" where
  "at_peer b i = (if i = b then 1 else 0)"

lemma rr_frame_acct: "rr_frame ps ps' \<Longrightarrow> rr_acct (\<lambda>i. 0) (\<lambda>i. 0) ps ps'"
  by (simp add: rr_frame_def peer_frame_def rr_acct_def)

lemma rr_acct_trans:
  "rr_acct dc dr ps ps' \<Longrightarrow> rr_acct dc' dr' ps' ps''
     \<Longrightarrow> rr_acct (\<lambda>i. dc i + dc' i) (\<lambda>i. dr i + dr' i) ps ps''"
  by (simp add: rr_acct_def add.assoc)

lemma rr_chosen_acct:
  "rr_acct (\<lambda>i. 0) (at_peer b) (rp_peer peers) (rp_peer (fst (rr_chosen env b peers rrp)))"
  by (auto simp: rr_chosen_def Let_def rr_acct_def at_peer_def nth_list_update peer_weights_ok_def)

lemma rr_inc_conns_acct:
  "rr_acct (at_peer b) (\<lambda>i. 0) (rp_peer peers) (rp_peer (rr_inc_conns b peers))"
  by (auto simp: rr_inc_conns_def rr_acct_def at_peer_def nth_list_update peer_weights_ok_def)

lemma rr_take_single_acct:
  "rr_acct (at_peer b) (at_peer b) (rp_peer peers) (rp_peer (fst (rr_take_single b peers rrp)))"
  by (auto simp: rr_take_single_def rr_inc_conns_def Let_def rr_acct_def at_peer_def nth_list_update
      peer_weights_ok_def)

lemma get_by_sid:
  "ngx_http_upstream_get_rr_peer_by_sid env peers tried = Some b
     \<Longrightarrow> b < rp_number peers \<and> \<not> peer_full (rp_peer peers ! b)"
  by (auto simp: ngx_http_upstream_get_rr_peer_by_sid_def Let_def find_Some_iff
      split: option.splits if_splits)

lemma rr_select_single [simp]:
  "rr_select env b peers tried = (peers', tot, best) \<Longrightarrow> rp_single peers' = rp_single peers"
  by (auto simp: rr_select_def Let_def split: if_splits option.splits prod.splits)

lemma rr_chosen_single [simp]: "rp_single (fst (rr_chosen env b peers rrp)) = rp_single peers"
  by (simp add: rr_chosen_def Let_def)

text \<open>The end of a selection: a round of weights, then the chosen peer.\<close>

lemma rr_round_acct:
  assumes "rr_select env k peers tried = (peers2, tot, best)"
  shows "rr_acct (\<lambda>i. 0) (at_peer b) (rp_peer peers)
    (rp_peer (fst (rr_chosen env b (peers2\<lparr>rp_peer := lower_weight b tot (rp_peer peers2)\<rparr>) rrp)))"
proof -
  have "rr_acct (\<lambda>i. 0) (\<lambda>i. 0) (rp_peer peers) (lower_weight b tot (rp_peer peers2))"
    by (intro rr_frame_acct rr_frame_trans [OF rr_select_frame [OF assms] lower_weight_frame])
  from rr_acct_trans [OF this] show ?thesis
    using rr_chosen_acct [of b "peers2\<lparr>rp_peer := lower_weight b tot (rp_peer peers2)\<rparr>" env rrp]
    by simp
qed

lemma get_peer_acct:
  assumes "ngx_http_upstream_get_peer env peers rrp = (res, peers', rrp')"
  shows "rp_single peers' = rp_single peers \<and>
    (case res of
       None \<Rightarrow> rr_frame (rp_peer peers) (rp_peer peers')
     | Some b \<Rightarrow> b < rp_number peers \<and> \<not> peer_full (rp_peer peers ! b)
         \<and> rr_acct (\<lambda>i. 0) (at_peer b) (rp_peer peers) (rp_peer peers'))"
proof (cases "rp_number peers = 0")
  case True
  with assms show ?thesis by (auto simp: ngx_http_upstream_get_peer_def)
next
  case False
  let ?tried = "rrp_tried rrp" and ?init = "rr_init_number env peers"
  let ?peers1 = "with_init env peers"
  obtain peers2 tot best where sel:
      "rr_select env (rr_begin ?peers1 ?init) ?peers1 ?tried = (peers2, tot, best)"
    by (metis prod_cases3)
  have usable: "b < rp_number peers \<and> \<not> peer_full (rp_peer peers ! b)" if "best = Some b" for b
    using rr_select_best [OF sel] that by (simp add: peer_usable_def)
  have single: "rp_single peers2 = rp_single peers" using rr_select_single [OF sel] by simp
  note round = rr_round_acct [OF sel]
  show ?thesis
  proof (cases "ngx_http_upstream_get_rr_peer_by_sid env peers ?tried")
    case None
    have "ngx_http_upstream_get_peer env peers rrp =
      (case best of
         None \<Rightarrow> (None, peers2, rrp)
       | Some b \<Rightarrow> (Some b, rr_chosen env b
           (peers2\<lparr>rp_peer := lower_weight b tot (rp_peer peers2)\<rparr>) rrp))"
      using None False sel by (simp add: ngx_http_upstream_get_peer_def Let_def)
    then have "res = best" "best = None \<Longrightarrow> peers' = peers2"
        "\<And>b. best = Some b \<Longrightarrow> peers' = fst (rr_chosen env b
           (peers2\<lparr>rp_peer := lower_weight b tot (rp_peer peers2)\<rparr>) rrp)"
      using assms by (auto split: option.splits) (metis fst_conv)
    with usable single round rr_select_frame [OF sel] show ?thesis by (cases best) simp_all
  next
    case (Some b)
    have eq: "ngx_http_upstream_get_peer env peers rrp = (Some b,
        if current_weight (rp_peer peers ! b) \<le> - (rp_total_weight peers - weight (rp_peer peers ! b))
        then rr_chosen env b peers rrp
        else rr_chosen env b (peers2\<lparr>rp_peer := lower_weight b tot (rp_peer peers2)\<rparr>) rrp)"
      using Some False sel by (simp add: ngx_http_upstream_get_peer_def Let_def)
    have "res = Some b" "peers' = fst (snd (ngx_http_upstream_get_peer env peers rrp))"
      using assms by (simp_all add: eq)
    with get_by_sid [OF Some] single round [of b rrp] rr_chosen_acct [of b peers env rrp]
    show ?thesis by (simp add: eq)
  qed
qed

lemma rr_discard_single [simp]:
  "rp_single (snd (rr_discard env discarded peers)) = rp_single peers"
proof -
  have "rp_single (snd (ngx_http_upstream_adapte_rr_peer_weight env p)) = rp_single p" for p
    by (auto simp: ngx_http_upstream_adapte_rr_peer_weight_def Let_def split: prod.splits option.splits)
  then have "rp_single (((\<lambda>p. snd (ngx_http_upstream_adapte_rr_peer_weight env p)) ^^ k) peers)
      = rp_single peers" for k
    by (induction k) simp_all
  then show ?thesis by (simp add: rr_discard_def)
qed

lemma rr_inc_conns_single [simp]: "rp_single (rr_inc_conns b peers) = rp_single peers"
  by (simp add: rr_inc_conns_def)

lemma rr_take_single_single [simp]: "rp_single (fst (rr_take_single b peers rrp)) = rp_single peers"
  by (simp add: rr_take_single_def Let_def)

lemma peer_full_frame: "peer_frame p p' \<Longrightarrow> peer_full p' = peer_full p"
  by (simp add: peer_frame_def peer_full_def)

definition try_acct :: "rr_peers \<Rightarrow> rr_attempt \<Rightarrow> rr_peers \<Rightarrow> bool" where
  "try_acct peers a peers' \<longleftrightarrow> rp_single peers' = rp_single peers \<and>
     (case a of
        RR_peer b \<Rightarrow> b < rp_number peers \<and> \<not> peer_full (rp_peer peers ! b)
          \<and> rr_acct (at_peer b) (at_peer b) (rp_peer peers) (rp_peer peers')
      | _ \<Rightarrow> rr_frame (rp_peer peers) (rp_peer peers'))"

lemma try_peers_acct:
  assumes "rr_try_peers env discarded peers rrp = (a, d, peers', rrp')"
    and "rp_single peers \<Longrightarrow> rp_peer peers \<noteq> []"
  shows "try_acct peers a peers'"
proof (cases "rr_config_changed peers rrp")
  case True
  with assms(1) show ?thesis by (auto simp: rr_try_peers_def try_acct_def)
next
  case config: False
  show ?thesis
  proof (cases "rp_single peers")
    case True
    have take: "try_acct peers (RR_peer b) peers'"
      if "(RR_peer b, discarded, rr_take_single b peers rrp) = (a, d, peers', rrp')"
        "b < rp_number peers" "\<not> peer_full (rp_peer peers ! b)" for b
    proof -
      have "peers' = fst (rr_take_single b peers rrp)" using that(1) by (metis Pair_inject fst_conv)
      with that(2,3) rr_take_single_acct [of b peers rrp] show ?thesis by (simp add: try_acct_def)
    qed
    show ?thesis
    proof (cases "ngx_http_upstream_get_rr_peer_by_sid env peers (rrp_tried rrp)")
      case None
      let ?peer = "rp_peer peers ! 0"
      show ?thesis
      proof (cases "down ?peer \<noteq> 0 \<or> peer_full ?peer \<or> env_check_down env (check_index ?peer)")
        case bad: True
        with assms(1) config True None show ?thesis
          by (auto simp: rr_try_peers_def try_acct_def Let_def)
      next
        case ok: False
        with assms(1) config True None
        have "(RR_peer 0, discarded, rr_take_single 0 peers rrp) = (a, d, peers', rrp')"
          by (simp add: rr_try_peers_def Let_def)
        with take [OF this] assms(2) True ok show ?thesis by auto
      qed
    next
      case (Some b)
      with assms(1) config True
      have "(RR_peer b, discarded, rr_take_single b peers rrp) = (a, d, peers', rrp')"
        by (simp add: rr_try_peers_def Let_def)
      with take [OF this] get_by_sid [OF Some] show ?thesis by auto
    qed
  next
    case False
    obtain d1 peers1 where disc: "rr_discard env discarded peers = (d1, peers1)" by fastforce
    have frame: "rr_frame (rp_peer peers) (rp_peer peers1)" "rp_single peers1 = rp_single peers"
      using rr_discard_frame [of peers env discarded] rr_discard_single [of env discarded peers] disc
      by simp_all
    obtain res peers2 rrp2 where get: "ngx_http_upstream_get_peer env peers1 rrp = (res, peers2, rrp2)"
      by (metis prod_cases3)
    note acct = get_peer_acct [OF get]
    show ?thesis
    proof (cases res)
      case None
      with assms(1) config False disc get have "a = RR_failed" "peers' = peers2"
        by (simp_all add: rr_try_peers_def)
      with acct None frame rr_frame_trans show ?thesis by (auto simp: try_acct_def)
    next
      case (Some b)
      with assms(1) config False disc get have a: "a = RR_peer b" "peers' = rr_inc_conns b peers2"
        by (auto simp: rr_try_peers_def)
      have b: "b < rp_number peers" "\<not> peer_full (rp_peer peers ! b)"
        using acct Some frame by (auto simp: rr_frame_def peer_full_frame)
      have "rr_acct (\<lambda>i. 0) (at_peer b) (rp_peer peers) (rp_peer peers2)"
        using rr_acct_trans [OF rr_frame_acct [OF frame(1)]] acct Some by fastforce
      from rr_acct_trans [OF this rr_inc_conns_acct [of b]]
      have "rr_acct (at_peer b) (at_peer b) (rp_peer peers) (rp_peer peers')" by (simp add: a)
      with a b acct Some frame show ?thesis by (simp add: try_acct_def)
    qed
  qed
qed

section \<open>Requests in flight\<close>

lemma get_peer_data:
  "ngx_http_upstream_get_peer env peers rrp = (res, peers', rrp')
     \<Longrightarrow> rrp_backup rrp' = rrp_backup rrp \<and> (\<forall>b. res = Some b \<longrightarrow> rrp_current rrp' = Some b)"
  by (auto simp: ngx_http_upstream_get_peer_def rr_chosen_def Let_def
      split: if_splits option.splits prod.splits)

lemma try_peers_data:
  "rr_try_peers env d peers rrp = (a, d', peers', rrp')
     \<Longrightarrow> rrp_backup rrp' = rrp_backup rrp \<and> (\<forall>b. a = RR_peer b \<longrightarrow> rrp_current rrp' = Some b)"
  by (auto simp: rr_try_peers_def rr_take_single_def Let_def dest!: get_peer_data
      split: if_splits option.splits prod.splits)

text \<open>
  The life of an upstream group. The state is the group, the requests that hold no peer and the
  requests that hold one, each with its \<open>rrp\<close>. A request starts without a peer, may take one, give
  it back and try again with the same \<open>rrp\<close>, and ends when it holds none. Requests of several
  workers may share the group, so each call sees its own environment and discard flag.
\<close>

type_synonym rr_state = "rr_upstream \<times> rr_data multiset \<times> rr_data multiset"

inductive rr_step :: "rr_state \<Rightarrow> rr_state \<Rightarrow> bool" where
  rr_start: "rr_step (us, idle, held)
    (us, add_mset (ngx_http_upstream_init_round_robin_peer us) idle, held)"
| rr_take: "rrp \<in># idle
    \<Longrightarrow> ngx_http_upstream_get_round_robin_peer env d us rrp = (Some gb, d', us', rrp')
    \<Longrightarrow> rr_step (us, idle, held) (us', idle - {#rrp#}, add_mset rrp' held)"
| rr_none: "rrp \<in># idle
    \<Longrightarrow> ngx_http_upstream_get_round_robin_peer env d us rrp = (None, d', us', rrp')
    \<Longrightarrow> rr_step (us, idle, held) (us', add_mset rrp' (idle - {#rrp#}), held)"
| rr_free: "rrp \<in># held
    \<Longrightarrow> ngx_http_upstream_free_round_robin_peer state now tries us rrp = Some (tries', us')
    \<Longrightarrow> rr_step (us, idle, held) (us', add_mset rrp idle, held - {#rrp#})"
| rr_finish: "rrp \<in># idle \<Longrightarrow> rr_step (us, idle, held) (us, idle - {#rrp#}, held)"

inductive rr_steps :: "rr_state \<Rightarrow> rr_state \<Rightarrow> bool" where
  rr_steps_refl: "rr_steps s s"
| rr_steps_step: "rr_steps s s' \<Longrightarrow> rr_step s' s'' \<Longrightarrow> rr_steps s s''"

text \<open>The peer a request has taken, and how many requests hold a peer.\<close>

definition rr_holds :: "rr_data \<Rightarrow> bool \<times> nat option" where
  "rr_holds rrp = (rrp_backup rrp, rrp_current rrp)"

definition rr_holders :: "rr_data multiset \<Rightarrow> bool \<Rightarrow> nat \<Rightarrow> nat" where
  "rr_holders held g i = count (image_mset rr_holds held) (g, Some i)"

definition peer_accounted :: "nat \<Rightarrow> rr_peer \<Rightarrow> bool" where
  "peer_accounted n p \<longleftrightarrow> conns p = of_nat n \<and> refs p = of_nat n
     \<and> (max_conns p = 0 \<or> n \<le> unat (max_conns p)) \<and> peer_weights_ok p"

definition peers_accounted :: "(nat \<Rightarrow> nat) \<Rightarrow> rr_peers \<Rightarrow> bool" where
  "peers_accounted n peers \<longleftrightarrow> (rp_single peers \<longrightarrow> rp_peer peers \<noteq> [])
     \<and> (\<forall>i<rp_number peers. peer_accounted (n i) (rp_peer peers ! i))"

text \<open>A request that holds a peer points to a peer of the group.\<close>

definition rr_points :: "rr_upstream \<Rightarrow> rr_data \<Rightarrow> bool" where
  "rr_points us rrp \<longleftrightarrow> (\<exists>peers b. rr_set_of us (rrp_backup rrp) = Some peers
     \<and> rrp_current rrp = Some b \<and> b < rp_number peers)"

definition upstream_accounted :: "rr_upstream \<Rightarrow> rr_data multiset \<Rightarrow> bool" where
  "upstream_accounted us held \<longleftrightarrow> (\<forall>rrp \<in># held. rr_points us rrp)
     \<and> (\<forall>g peers. rr_set_of us g = Some peers \<longrightarrow> peers_accounted (rr_holders held g) peers)"

lemma peer_full_accounted:
  assumes "peer_accounted n p" "\<not> peer_full p"
  shows "max_conns p = 0 \<or> Suc n \<le> unat (max_conns p)"
proof (cases "max_conns p = 0")
  case False
  with assms have "n \<le> unat (max_conns p)" "(of_nat n :: u64) < max_conns p"
    by (auto simp: peer_accounted_def peer_full_def)
  moreover have "unat (max_conns p) < 2 ^ 64" using unsigned_less [of "max_conns p"] by simp
  ultimately have "n < unat (max_conns p)"
    by (simp add: word_less_nat_alt unat_of_nat take_bit_nat_eq_self)
  then show ?thesis by simp
qed simp

lemma frame_accounted:
  assumes "rr_frame (rp_peer peers) (rp_peer peers')" "rp_single peers' = rp_single peers"
    "peers_accounted n peers"
  shows "peers_accounted n peers'"
  using assms by (auto simp: peers_accounted_def rr_frame_def peer_frame_def peer_accounted_def)

lemma take_accounted:
  assumes "try_acct peers (RR_peer b) peers'" "peers_accounted n peers"
  shows "peers_accounted (n(b := Suc (n b))) peers'"
proof -
  have b: "b < rp_number peers" "\<not> peer_full (rp_peer peers ! b)" "rp_single peers' = rp_single peers"
      "rr_acct (at_peer b) (at_peer b) (rp_peer peers) (rp_peer peers')"
    using assms(1) by (simp_all add: try_acct_def)
  have "peer_accounted ((n(b := Suc (n b))) i) (rp_peer peers' ! i)" if "i < rp_number peers" for i
  proof -
    have "peer_accounted (n i) (rp_peer peers ! i)" using assms(2) that by (simp add: peers_accounted_def)
    moreover from this b(2) have "i = b \<Longrightarrow> max_conns (rp_peer peers ! i) = 0
        \<or> Suc (n i) \<le> unat (max_conns (rp_peer peers ! i))"
      using peer_full_accounted by blast
    ultimately show ?thesis
      using b(4) that by (auto simp: rr_acct_def at_peer_def peer_accounted_def add.commute)
  qed
  with assms(2) b(3,4) show ?thesis by (auto simp: peers_accounted_def rr_acct_def)
qed

lemma release_accounted:
  assumes "peer_accounted n p" "0 < n"
  shows "peer_accounted (n - 1) (rr_release single state now p)"
proof -
  have "effective_weight p - weight p div uint (max_fails p) \<le> weight p"
    if "peer_weights_ok p"
  proof -
    have "0 \<le> weight p div uint (max_fails p)"
      using that by (auto simp: peer_weights_ok_def div_int_pos_iff)
    then show ?thesis using that by (simp add: peer_weights_ok_def)
  qed
  then have "peer_weights_ok (rr_release single state now p)" if "peer_weights_ok p"
    using that by (auto simp: rr_release_def rr_release_failed_def Let_def peer_weights_ok_def)
  with assms show ?thesis
    by (auto simp: peer_accounted_def rr_release_def rr_release_failed_def Let_def of_nat_diff)
qed

lemma accounted_single: "peers_accounted n peers \<Longrightarrow> rp_single peers \<Longrightarrow> rp_peer peers \<noteq> []"
  by (simp add: peers_accounted_def)

lemma try_accounted:
  assumes "rr_try_peers env d peers rrp = (a, d', peers', rrp')" "peers_accounted n peers"
  shows "peers_accounted (case a of RR_peer b \<Rightarrow> n(b := Suc (n b)) | _ \<Rightarrow> n) peers'"
proof -
  have "try_acct peers a peers'"
    using try_peers_acct [OF assms(1)] accounted_single [OF assms(2)] by blast
  with assms(2) show ?thesis
    by (cases a) (auto intro: take_accounted frame_accounted simp: try_acct_def)
qed

lemma rr_set_of_put:
  "rr_set_of us g = Some peers
     \<Longrightarrow> rr_set_of (rr_put_set g peers' us) g' = (if g' = g then Some peers' else rr_set_of us g')"
  by (auto simp: rr_set_of_def rr_put_set_def)

lemma rr_points_put:
  "rr_points us rrp \<Longrightarrow> rr_set_of us g = Some peers \<Longrightarrow> rp_number peers' = rp_number peers
     \<Longrightarrow> rr_points (rr_put_set g peers' us) rrp"
  by (auto simp: rr_points_def rr_set_of_put)

text \<open>A call that changes one set and the requests that hold a peer of it.\<close>

lemma put_accounted:
  assumes "upstream_accounted us held" "rr_set_of us g = Some peers" "rp_number peers' = rp_number peers"
    and "peers_accounted (rr_holders held' g) peers'" "\<And>g'. g' \<noteq> g \<Longrightarrow> rr_holders held' g' = rr_holders held g'"
    and "\<And>rrp. rrp \<in># held' \<Longrightarrow> rrp \<in># held \<or> rr_points (rr_put_set g peers' us) rrp"
  shows "upstream_accounted (rr_put_set g peers' us) held'"
  using assms rr_points_put [OF _ assms(2,3)]
  by (auto simp: upstream_accounted_def rr_set_of_put [OF assms(2)])

lemma rr_holders_add:
  "rr_holds rrp = (g, Some b)
     \<Longrightarrow> rr_holders (add_mset rrp held) g' = (if g' = g then (rr_holders held g)(b := Suc (rr_holders held g b))
           else rr_holders held g')"
  by (rule ext) (auto simp: rr_holders_def)

lemma rr_holders_remove:
  assumes "rrp \<in># held" "rr_holds rrp = (g, Some b)"
  shows "0 < rr_holders held g b"
    and "rr_holders (held - {#rrp#}) g' = (if g' = g then (rr_holders held g)(b := rr_holders held g b - 1)
           else rr_holders held g')"
proof -
  obtain rest where held: "held = add_mset rrp rest" using assms(1) by (metis multi_member_split)
  show "0 < rr_holders held g b" using rr_holders_add [OF assms(2), of rest g] by (simp add: held)
  show "rr_holders (held - {#rrp#}) g' = (if g' = g then (rr_holders held g)(b := rr_holders held g b - 1)
           else rr_holders held g')"
    using rr_holders_add [OF assms(2), of rest] by (cases "g' = g") (simp_all add: held)
qed

lemma try_number:
  assumes "rr_try_peers env d peers rrp = (a, d', peers', rrp')" "peers_accounted n peers"
  shows "rp_number peers' = rp_number peers" "a = RR_peer b \<Longrightarrow> b < rp_number peers"
  using try_peers_acct [OF assms(1)] accounted_single [OF assms(2)]
  by (auto simp: try_acct_def rr_frame_def rr_acct_def split: rr_attempt.splits)

lemma get_accounted:
  assumes "ngx_http_upstream_get_round_robin_peer env d us rrp = (res, d', us', rrp')"
    and "upstream_accounted us held"
  shows "upstream_accounted us' (if res = None then held else add_mset rrp' held)
    \<and> (\<forall>g b. res = Some (g, b) \<longrightarrow> rr_holds rrp' = (g, Some b))"
  using assms
proof (induction env d us rrp arbitrary: res d' us' rrp' rule: ngx_http_upstream_get_round_robin_peer.induct)
  case (1 env d us rrp)
  let ?g = "rrp_backup rrp"
  show ?case
  proof (cases "rr_set_of us ?g")
    case None
    with 1(2,3) show ?thesis by (simp add: ngx_http_upstream_get_round_robin_peer.simps [of env d us rrp])
  next
    case (Some peers)
    obtain a d1 peers1 rrp1 where att: "rr_try_peers env d peers rrp = (a, d1, peers1, rrp1)"
      by (metis prod_cases4)
    have acct: "peers_accounted (rr_holders held ?g) peers"
      using 1(3) Some by (simp add: upstream_accounted_def)
    note tried = try_accounted [OF att acct] and num = try_number [OF att acct]
      and data = try_peers_data [OF att]
    have same: "upstream_accounted (rr_put_set ?g peers1 us) held" if "\<And>b. a \<noteq> RR_peer b"
      using tried that by (intro put_accounted [OF 1(3) Some num(1)]) (cases a; auto)+
    show ?thesis
    proof (cases a)
      case (RR_peer b)
      with 1(2) Some att have eq: "res = Some (?g, b)" "us' = rr_put_set ?g peers1 us" "rrp' = rrp1"
        by (simp_all add: ngx_http_upstream_get_round_robin_peer.simps [of env d us rrp])
      have holds: "rr_holds rrp1 = (?g, Some b)" using data RR_peer by (simp add: rr_holds_def)
      have points: "rr_points (rr_put_set ?g peers1 us) rrp1"
        using num RR_peer data by (auto simp: rr_points_def rr_set_of_put [OF Some])
      have "upstream_accounted (rr_put_set ?g peers1 us) (add_mset rrp1 held)"
        using tried RR_peer points
        by (intro put_accounted [OF 1(3) Some num(1)]) (auto simp: rr_holders_add [OF holds])
      with eq holds show ?thesis by simp
    next
      case RR_busy
      with 1(2) Some att same show ?thesis
        by (simp add: ngx_http_upstream_get_round_robin_peer.simps [of env d us rrp])
    next
      case RR_failed
      let ?us = "rr_put_set ?g peers1 us"
      show ?thesis
      proof (cases "rr_next_set ?us ?g")
        case None
        with 1(2) Some att RR_failed same show ?thesis
          by (simp add: ngx_http_upstream_get_round_robin_peer.simps [of env d us rrp])
      next
        case next_set: (Some backup)
        let ?rrp = "rrp1\<lparr>rrp_backup := True,
          rrp_tried := clear_tried (tried_words (rp_number backup)) (rrp_tried rrp1)\<rparr>"
        have "ngx_http_upstream_get_round_robin_peer env d1 ?us ?rrp = (res, d', us', rrp')"
          using 1(2) Some att RR_failed next_set
          by (simp add: ngx_http_upstream_get_round_robin_peer.simps [of env d us rrp])
        with 1(1) [OF Some att [symmetric] RR_failed refl refl refl next_set] RR_failed same
        show ?thesis by simp
      qed
    qed
  qed
qed

lemma free_accounted:
  assumes "ngx_http_upstream_free_round_robin_peer state now tries us rrp = Some (tries', us')"
    and "upstream_accounted us held" "rrp \<in># held"
  shows "upstream_accounted us' (held - {#rrp#})"
proof -
  let ?g = "rrp_backup rrp"
  obtain peers b where sel: "rr_set_of us ?g = Some peers" "rrp_current rrp = Some b"
    using assms(1) by (auto simp: ngx_http_upstream_free_round_robin_peer_def split: option.splits)
  define peers' where "peers' =
    peers\<lparr>rp_peer := (rp_peer peers)[b := rr_release (rp_single peers) state now (rp_peer peers ! b)]\<rparr>"
  have us': "us' = rr_put_set ?g peers' us"
    using assms(1) sel by (simp add: ngx_http_upstream_free_round_robin_peer_def peers'_def)
  have holds: "rr_holds rrp = (?g, Some b)" by (simp add: rr_holds_def sel)
  note rem = rr_holders_remove [OF assms(3) holds]
  have "peers_accounted (rr_holders held ?g) peers" using assms(2) sel by (simp add: upstream_accounted_def)
  then have "peers_accounted (rr_holders (held - {#rrp#}) ?g) peers'"
    using rem(1) release_accounted [of "rr_holders held ?g b" "rp_peer peers ! b"]
    by (auto simp: rem(2) peers_accounted_def peers'_def nth_list_update)
  then show ?thesis
    unfolding us' by (intro put_accounted [OF assms(2) sel(1)]) (auto simp: peers'_def rem(2) dest: in_diffD)
qed

lemma step_accounted:
  "rr_step (us, idle, held) (us', idle', held') \<Longrightarrow> upstream_accounted us held \<Longrightarrow> upstream_accounted us' held'"
  by (erule rr_step.cases) (auto dest: get_accounted intro: free_accounted)

lemma steps_accounted:
  assumes "rr_steps (us, {#}, {#}) (us', idle, held)" "upstream_accounted us {#}"
  shows "upstream_accounted us' held"
proof -
  have "rr_steps s s' \<Longrightarrow> upstream_accounted (fst s) (snd (snd s)) \<Longrightarrow> upstream_accounted (fst s') (snd (snd s'))" for s s'
  proof (induction rule: rr_steps.induct)
    case (rr_steps_step s s' s'')
    then show ?case
      using step_accounted [of "fst s'" "fst (snd s')" "snd (snd s')" "fst s''" "fst (snd s'')" "snd (snd s'')"]
      by simp
  qed simp
  from this [OF assms(1)] assms(2) show ?thesis by simp
qed

text \<open>Every request that holds a peer can give it back.\<close>

lemma free_defined:
  "upstream_accounted us held \<Longrightarrow> rrp \<in># held
     \<Longrightarrow> ngx_http_upstream_free_round_robin_peer state now tries us rrp \<noteq> None"
  by (auto simp: upstream_accounted_def rr_points_def ngx_http_upstream_free_round_robin_peer_def)

end
