(* ===== verification/Upstream_Rr_Fair.thy ===== *)
theory Upstream_Rr_Fair
  imports Upstream_Rr_Props
begin

text \<open>
  Groups as they are set up, and how they share the load: a new group satisfies the accounting
  invariant; a weighted group of healthy peers implements the contract \<open>smooth_wrr\<close>; an
  unweighted group takes its peers in turn.
\<close>

section \<open>A new group\<close>

lemma length_rr_new_peers: "length (rr_new_peers sids checks servers) = (\<Sum>s \<leftarrow> servers. srv_naddrs s)"
  by (simp add: rr_new_peers_def length_concat comp_def)

lemma rr_new_peers_new:
  "p \<in> set (rr_new_peers sids checks servers)
     \<Longrightarrow> \<exists>srv k c. srv \<in> set servers \<and> p = rr_new_peer srv k c"
proof -
  assume p: "p \<in> set (rr_new_peers sids checks servers)"
  define xs where "xs = concat (map (\<lambda>srv. replicate (srv_naddrs srv) srv) servers)"
  from p obtain i srv where srv: "(i, srv) \<in> set (enumerate 0 xs)" "p = rr_new_peer srv (sids i) (checks i)"
    by (auto simp: rr_new_peers_def xs_def)
  then have "i < length xs" "xs ! i = srv" by (simp_all add: in_set_enumerate_eq)
  then have "srv \<in> set xs" using nth_mem by blast
  then have "srv \<in> set servers" by (auto simp: xs_def)
  with srv(2) show ?thesis by blast
qed

lemma rr_new_set_simps [simp]:
  "rp_peer (rr_new_set single servers ps) = ps" "rp_single (rr_new_set single servers ps) = single"
  by (simp_all add: rr_new_set_def Let_def)

lemma rr_new_peers_accounted:
  "p \<in> set (rr_new_peers sids checks servers) \<Longrightarrow> peer_accounted 0 p"
  by (auto dest!: rr_new_peers_new simp: rr_new_peer_def peer_accounted_def peer_weights_ok_def)

lemma rr_new_set_accounted:
  assumes "single \<longrightarrow> (\<Sum>s \<leftarrow> servers. srv_naddrs s) = 1"
  shows "peers_accounted (\<lambda>i. 0) (rr_new_set single servers (rr_new_peers sids checks servers))"
proof -
  let ?ps = "rr_new_peers sids checks servers"
  have "peer_accounted 0 (?ps ! i)" if "i < length ?ps" for i
    using rr_new_peers_accounted nth_mem [OF that] by blast
  with assms length_rr_new_peers [of sids checks servers] show ?thesis
    by (auto simp: peers_accounted_def)
qed

lemma init_sets:
  assumes "ngx_http_upstream_init_round_robin setup sids checks bsids bchecks servers = Some us"
  shows "peers_accounted (\<lambda>i. 0) (us_primary us)
    \<and> (\<forall>peers. us_backup us = Some peers \<longrightarrow> peers_accounted (\<lambda>i. 0) peers)"
  using assms
  by (auto simp: ngx_http_upstream_init_round_robin_def Let_def intro!: rr_new_set_accounted split: if_splits)

lemma init_accounted:
  assumes "ngx_http_upstream_init_round_robin setup sids checks bsids bchecks servers = Some us"
  shows "upstream_accounted us {#}"
proof -
  have "rr_holders {#} g = (\<lambda>i. 0)" for g by (rule ext) (simp add: rr_holders_def)
  with init_sets [OF assms] show ?thesis by (simp add: upstream_accounted_def rr_set_of_def)
qed

text \<open>
  C4: Connection accounting of an upstream group. From the moment a group is set up, after any
  interleaving of requests that start, take a peer, give it back, try again (moving from the primary
  to the backup set, and staying there) and end, each peer's \<open>conns\<close> and \<open>refs\<close> are the number of
  requests that hold it, that number never exceeds a non-zero \<open>max_conns\<close>, every effective weight
  is between zero and the weight, and every request that holds a peer can give it back.
\<close>

theorem rr_accounting:
  assumes "ngx_http_upstream_init_round_robin setup sids checks bsids bchecks servers = Some us"
    and "rr_steps (us, {#}, {#}) (us', idle, held)"
  shows "(\<forall>g peers i. rr_set_of us' g = Some peers \<longrightarrow> i < rp_number peers
        \<longrightarrow> peer_accounted (rr_holders held g i) (rp_peer peers ! i))
    \<and> (\<forall>rrp state now tries. rrp \<in># held
        \<longrightarrow> ngx_http_upstream_free_round_robin_peer state now tries us' rrp \<noteq> None)"
proof -
  have acct: "upstream_accounted us' held"
    by (rule steps_accounted [OF assms(2) init_accounted [OF assms(1)]])
  then have "\<forall>g peers i. rr_set_of us' g = Some peers \<longrightarrow> i < rp_number peers
      \<longrightarrow> peer_accounted (rr_holders held g i) (rp_peer peers ! i)"
    by (simp add: upstream_accounted_def peers_accounted_def)
  with free_defined [OF acct] show ?thesis by blast
qed

section \<open>Smooth weights\<close>

text \<open>A healthy peer: it is up, passes its health check, has not failed too often, has its full effective
  weight and no limit of connections. In a healthy group all peers are, and requests bring no session
  hint.\<close>

definition peer_healthy :: "rr_env \<Rightarrow> nat \<Rightarrow> rr_peer \<Rightarrow> bool" where
  "peer_healthy env w p \<longleftrightarrow> weight p = int w \<and> effective_weight p = int w \<and> down p = 0
     \<and> \<not> env_check_down env (check_index p) \<and> (max_fails p = 0 \<or> fails p < max_fails p)
     \<and> max_conns p = 0"

definition rr_healthy :: "rr_env \<Rightarrow> nat list \<Rightarrow> rr_peers \<Rightarrow> bool" where
  "rr_healthy env ws peers \<longleftrightarrow> rp_number peers = length ws \<and> ws \<noteq> [] \<and> \<not> rp_single peers
     \<and> rp_weighted peers \<and> env_hint env = None
     \<and> (\<forall>i<length ws. 0 < ws ! i \<and> peer_healthy env (ws ! i) (rp_peer peers ! i))"

text \<open>The state of a new request: nothing tried, in the primary set.\<close>

lemma new_request_untried:
  assumes "i < rp_number (us_primary us)"
  shows "\<not> is_tried (rrp_tried (ngx_http_upstream_init_round_robin_peer us)) i"
proof -
  have "\<exists>m. rrp_tried (ngx_http_upstream_init_round_robin_peer us) = replicate m 0 \<and> i div 64 < m"
    using assms
    by (auto simp: ngx_http_upstream_init_round_robin_peer_def tried_words_def Let_def
        intro: exI [of _ 1] split: option.splits)
  then show ?thesis by (auto simp: is_tried_def)
qed

lemma new_request_config:
  "\<not> rr_config_changed (us_primary us) (ngx_http_upstream_init_round_robin_peer us)"
  by (cases "rp_config (us_primary us)") (simp_all add: rr_config_changed_def
      ngx_http_upstream_init_round_robin_peer_def Let_def)

lemma new_request_primary: "rrp_backup (ngx_http_upstream_init_round_robin_peer us) = False"
  by (simp add: ngx_http_upstream_init_round_robin_peer_def Let_def)

lemma healthy_usable:
  assumes "peer_healthy env w p" "\<not> is_tried tried i"
  shows "peer_usable env tried i p"
  using assms by (auto simp: peer_usable_def peer_healthy_def peer_failed_def peer_full_def)

lemma healthy_gain:
  "peer_healthy env w p \<Longrightarrow> rr_gain p = p\<lparr>current_weight := current_weight p + int w\<rparr>"
  by (simp add: rr_gain_def peer_healthy_def)

text \<open>A scan that passes over nobody, and what it chooses.\<close>

abbreviation (input) rr_scan_all :: "nat list \<Rightarrow> rr_peer list \<Rightarrow> int \<Rightarrow> nat option
    \<Rightarrow> rr_peer list \<times> int \<times> nat option" where
  "rr_scan_all \<equiv> rr_scan (\<lambda>i p. True)"

lemma rr_scan_usable:
  "distinct is \<Longrightarrow> \<forall>i \<in> set is. usable i (ps ! i)
     \<Longrightarrow> rr_scan usable is ps tot best = rr_scan_all is ps tot best"
proof (induction "is" arbitrary: ps tot best)
  case (Cons i "is")
  then have "\<forall>j \<in> set is. usable j (ps[i := rr_gain (ps ! i)] ! j)"
    by (metis distinct.simps(2) list.set_intros(2) nth_list_update_neq)
  with Cons show ?case by (simp add: Let_def)
qed simp

lemma rr_adapt_scan_all:
  "\<forall>i \<in> set is. weight (ps ! i) \<le> effective_weight (ps ! i) \<Longrightarrow> distinct is
     \<Longrightarrow> rr_adapt_scan is ps tot best = rr_scan_all is ps tot best"
proof (induction "is" arbitrary: ps tot best)
  case (Cons i "is")
  have gain: "rr_gain (ps ! i) = (ps ! i)\<lparr>current_weight := current_weight (ps ! i) + effective_weight (ps ! i)\<rparr>"
    using Cons.prems(1) by (simp add: rr_gain_def)
  have "\<forall>j \<in> set is. weight (ps[i := rr_gain (ps ! i)] ! j) \<le> effective_weight (ps[i := rr_gain (ps ! i)] ! j)"
    using Cons.prems by (metis distinct.simps(2) list.set_intros(2) nth_list_update_neq)
  with Cons gain show ?case by (simp add: Let_def)
qed simp

definition peers_weigh_same :: "rr_peer list \<Rightarrow> rr_peer list \<Rightarrow> bool" where
  "peers_weigh_same ps qs \<longleftrightarrow> length ps = length qs
     \<and> (\<forall>i<length ps. current_weight (ps ! i) = current_weight (qs ! i)
          \<and> effective_weight (ps ! i) = effective_weight (qs ! i) \<and> weight (ps ! i) = weight (qs ! i))"

lemma rr_scan_choice:
  assumes "peers_weigh_same ps qs" "\<forall>i \<in> set is. i < length ps" "\<forall>b. best = Some b \<longrightarrow> b < length ps"
  shows "snd (snd (rr_scan_all is ps tot best)) = snd (snd (rr_scan_all is qs tot' best))"
  using assms
proof (induction "is" arbitrary: ps qs tot tot' best)
  case (Cons i "is")
  let ?ps = "ps[i := rr_gain (ps ! i)]" and ?qs = "qs[i := rr_gain (qs ! i)]"
  have i: "i < length ps" using Cons.prems(2) by simp
  have len: "length ps = length qs" using Cons.prems(1) by (simp add: peers_weigh_same_def)
  have weigh: "current_weight (ps ! j) = current_weight (qs ! j)" "weight (ps ! j) = weight (qs ! j)"
      "effective_weight (ps ! j) = effective_weight (qs ! j)" if "j < length ps" for j
    using Cons.prems(1) that by (simp_all add: peers_weigh_same_def)
  have "current_weight (?ps ! j) = current_weight (?qs ! j) \<and> weight (?ps ! j) = weight (?qs ! j)
      \<and> effective_weight (?ps ! j) = effective_weight (?qs ! j)" if "j < length ps" for j
    using weigh [OF i] weigh [OF that] i that len by (cases "j = i") (simp_all add: rr_gain_def)
  then have same: "peers_weigh_same ?ps ?qs" using len by (simp add: peers_weigh_same_def)
  have "rr_better ?ps i best = rr_better ?qs i best"
    using same Cons.prems(2,3) by (auto simp: rr_better_def peers_weigh_same_def split: option.split)
  moreover have "\<forall>b. rr_better ?ps i best = Some b \<longrightarrow> b < length ?ps"
    using Cons.prems(2,3) by (auto simp: rr_better_def split: option.splits if_splits)
  ultimately show ?case using Cons.IH [OF same] Cons.prems(2) by (simp add: Let_def)
qed simp

text \<open>A round of the smooth weights in a group, on any of the occasions \<open>E\<close>: a discarded round, or
  a selection for a request that has tried nobody. \<open>k\<close> is the position where its scan starts.\<close>

definition rr_round :: "rr_env set \<Rightarrow> nat \<Rightarrow> rr_peers \<Rightarrow> nat \<Rightarrow> rr_peers \<Rightarrow> bool" where
  "rr_round E k peers b peers' \<longleftrightarrow> (\<exists>env \<in> E. rr_init_number env peers = k \<and>
     ((\<exists>ps tot. rr_adapt_scan (rr_ring k (rp_number peers)) (rp_peer peers) 0 None = (ps, tot, Some b)
         \<and> peers' = snd (ngx_http_upstream_adapte_rr_peer_weight env peers))
    \<or> (\<exists>rrp peers2 rrp'. (\<forall>i<rp_number peers. \<not> is_tried (rrp_tried rrp) i)
         \<and> ngx_http_upstream_get_peer env peers rrp = (Some b, peers2, rrp')
         \<and> peers' = rr_inc_conns b peers2)))"

definition rr_group :: "rr_env set \<Rightarrow> nat list \<Rightarrow> rr_peers \<Rightarrow> bool" where
  "rr_group E ws peers \<longleftrightarrow> E \<noteq> {} \<and> (\<forall>env \<in> E. rr_healthy env ws peers)"

text \<open>What a round leaves as it is, from \<open>ps\<close> to the group: everything but connections,
  references and the time of the last check.\<close>

definition peer_like :: "rr_peer \<Rightarrow> rr_peer \<Rightarrow> bool" where
  "peer_like p p' \<longleftrightarrow> current_weight p' = current_weight p \<and> effective_weight p' = effective_weight p
     \<and> weight p' = weight p \<and> down p' = down p \<and> check_index p' = check_index p
     \<and> fails p' = fails p \<and> max_fails p' = max_fails p \<and> max_conns p' = max_conns p"

definition rr_like :: "rr_peers \<Rightarrow> rr_peer list \<Rightarrow> rr_peers \<Rightarrow> bool" where
  "rr_like peers ps peers' \<longleftrightarrow> rp_number peers' = length ps \<and> rp_single peers' = rp_single peers
     \<and> rp_weighted peers' = rp_weighted peers \<and> (\<forall>i<length ps. peer_like (ps ! i) (rp_peer peers' ! i))"

lemma peer_like_refl [simp]: "peer_like p p"
  by (simp add: peer_like_def)

lemma peer_like_upd: "peer_like (ps ! b) p \<Longrightarrow> peer_like (ps ! i) (ps[b := p] ! i)"
  by (cases "b < length ps") (auto simp: nth_list_update list_update_beyond)

lemma peer_like_trans: "peer_like p q \<Longrightarrow> peer_like q r \<Longrightarrow> peer_like p r"
  by (simp add: peer_like_def)

lemma rr_inc_conns_like: "peer_like (rp_peer peers ! i) (rp_peer (rr_inc_conns b peers) ! i)"
  using peer_like_upd [of "rp_peer peers" b "(rp_peer peers ! b)\<lparr>conns := conns (rp_peer peers ! b) + 1\<rparr>" i]
  by (simp add: rr_inc_conns_def peer_like_def)

lemma rr_chosen_like: "peer_like (rp_peer peers ! i) (rp_peer (fst (rr_chosen env b peers rrp)) ! i)"
  by (auto simp: rr_chosen_def Let_def intro!: peer_like_upd) (simp_all add: peer_like_def)

lemma rr_like_chosen:
  assumes "rp_single peers1 = rp_single peers" "rp_weighted peers1 = rp_weighted peers"
  shows "rr_like peers (rp_peer peers1) (rr_inc_conns b (fst (rr_chosen env b peers1 rrp)))"
proof -
  have "peer_like (rp_peer peers1 ! i) (rp_peer (rr_inc_conns b (fst (rr_chosen env b peers1 rrp))) ! i)" for i
    by (rule peer_like_trans [OF rr_chosen_like rr_inc_conns_like])
  with assms show ?thesis by (simp add: rr_like_def rr_inc_conns_def rr_chosen_def Let_def)
qed

lemma rr_init_less: "0 < rp_number peers \<Longrightarrow> rr_init_number env peers < rp_number peers"
  by (simp add: rr_init_number_def split: option.split)

text \<open>The two kinds of rounds are the same scan.\<close>

lemma adapte_scan:
  assumes "rr_healthy env ws peers" "rr_init_number env peers = k"
    and "rr_adapt_scan (rr_ring k (rp_number peers)) (rp_peer peers) 0 None = (ps, tot, Some b)"
    and "peers' = snd (ngx_http_upstream_adapte_rr_peer_weight env peers)"
  shows "rr_scan_all (rr_ring k (rp_number peers)) (rp_peer peers) 0 None = (ps, tot, Some b)
    \<and> rr_like peers (lower_weight b tot ps) peers' \<and> (\<forall>env'. rr_init_number env' peers' = k)"
proof -
  let ?n = "rp_number peers"
  define init where "init = (case rp_init_number peers of None \<Rightarrow> env_rnd_init env mod ?n | Some j \<Rightarrow> j)"
  have n: "0 < ?n" "\<forall>i<?n. weight (rp_peer peers ! i) \<le> effective_weight (rp_peer peers ! i)"
    using assms(1) by (auto simp: rr_healthy_def peer_healthy_def)
  have init: "init mod ?n = k"
    using assms(2) n(1) by (auto simp: init_def rr_init_number_def split: option.splits if_splits)
  have all: "rr_adapt_scan (rr_ring k ?n) (rp_peer peers) 0 None = rr_scan_all (rr_ring k ?n) (rp_peer peers) 0 None"
    using n(2) by (intro rr_adapt_scan_all distinct_rr_ring) (simp add: set_rr_ring)
  have len: "length ps = ?n" using rr_adapt_scan_frame [OF assms(3)] by (simp add: rr_frame_def)
  have eq: "peers' = peers\<lparr>rp_init_number := Some init, rp_peer := lower_weight b tot ps\<rparr>"
    using assms(3,4) init by (simp add: ngx_http_upstream_adapte_rr_peer_weight_def Let_def flip: init_def)
  then have "rr_like peers (lower_weight b tot ps) peers'" by (simp add: rr_like_def peer_like_def)
  moreover have "rr_init_number env' peers' = k" for env'
    using init len by (cases "init < ?n") (simp_all add: eq rr_init_number_def lower_weight_def)
  ultimately show ?thesis using all assms(3) by simp
qed

lemma get_peer_scan:
  assumes "rr_healthy env ws peers" "rr_init_number env peers = k"
    and "\<forall>i<rp_number peers. \<not> is_tried (rrp_tried rrp) i"
  shows "\<exists>ps tot b peers2 rrp'.
    ngx_http_upstream_get_peer env peers rrp = (Some b, peers2, rrp')
    \<and> rr_scan_all (rr_ring k (rp_number peers)) (rp_peer peers) 0 None = (ps, tot, Some b)
    \<and> rr_like peers (lower_weight b tot ps) (rr_inc_conns b peers2)
    \<and> (\<forall>env'. rr_init_number env' (rr_inc_conns b peers2) = k)"
proof -
  let ?n = "rp_number peers" and ?ring = "rr_ring k (rp_number peers)"
  note h = assms(1) [unfolded rr_healthy_def]
  obtain ps tot best where scan: "rr_scan_all ?ring (rp_peer peers) 0 None = (ps, tot, best)"
    by (metis prod_cases3)
  note spec = rr_scan_ring [OF scan]
  have n: "0 < ?n" using h by simp
  with spec(4) obtain b where b: "best = Some b" by blast
  have usable: "\<forall>i \<in> set ?ring. peer_usable env (rrp_tried rrp) i (rp_peer peers ! i)"
    using h assms(3) by (auto simp: set_rr_ring intro: healthy_usable)
  have "rr_scan (peer_usable env (rrp_tried rrp)) ?ring (rp_peer peers) 0 None = (ps, tot, Some b)"
    using rr_scan_usable [of ?ring "peer_usable env (rrp_tried rrp)" "rp_peer peers" 0 None,
        OF distinct_rr_ring usable] scan b by simp
  then have get: "ngx_http_upstream_get_peer env peers rrp = (Some b,
      rr_chosen env b (peers\<lparr>rp_init_number := Some k, rp_peer := lower_weight b tot ps\<rparr>) rrp)"
    using h n assms(2)
    by (simp add: ngx_http_upstream_get_peer_def ngx_http_upstream_get_rr_peer_by_sid_def
        rr_select_def rr_begin_def Let_def)
  let ?set = "peers\<lparr>rp_init_number := Some k, rp_peer := lower_weight b tot ps\<rparr>"
  have like: "rr_like peers (lower_weight b tot ps) (rr_inc_conns b (fst (rr_chosen env b ?set rrp)))"
    using rr_like_chosen [of ?set peers b env rrp] by simp
  have "k < ?n" using rr_init_less [OF n] assms(2) by blast
  then have "rr_init_number env' (rr_inc_conns b (fst (rr_chosen env b ?set rrp))) = k" for env'
    using spec(1) by (simp add: rr_init_number_def rr_inc_conns_def rr_chosen_def lower_weight_def Let_def)
  with get scan b like show ?thesis by (metis prod.collapse)
qed

lemma rr_round_scan:
  assumes "rr_group E ws peers" "rr_round E k peers b peers'"
  obtains ps tot where
    "rr_scan_all (rr_ring k (rp_number peers)) (rp_peer peers) 0 None = (ps, tot, Some b)"
    "rr_like peers (lower_weight b tot ps) peers'" "\<And>env. rr_init_number env peers' = k"
proof -
  obtain env where env: "env \<in> E" "rr_init_number env peers = k"
    and either: "(\<exists>ps tot. rr_adapt_scan (rr_ring k (rp_number peers)) (rp_peer peers) 0 None = (ps, tot, Some b)
         \<and> peers' = snd (ngx_http_upstream_adapte_rr_peer_weight env peers))
    \<or> (\<exists>rrp peers2 rrp'. (\<forall>i<rp_number peers. \<not> is_tried (rrp_tried rrp) i)
         \<and> ngx_http_upstream_get_peer env peers rrp = (Some b, peers2, rrp')
         \<and> peers' = rr_inc_conns b peers2)"
    using assms(2) unfolding rr_round_def by blast
  have h: "rr_healthy env ws peers" using assms(1) env(1) by (simp add: rr_group_def)
  from either show ?thesis
  proof (elim disjE exE conjE)
    fix ps tot
    assume "rr_adapt_scan (rr_ring k (rp_number peers)) (rp_peer peers) 0 None = (ps, tot, Some b)"
      "peers' = snd (ngx_http_upstream_adapte_rr_peer_weight env peers)"
    from adapte_scan [OF h env(2) this] that show ?thesis by blast
  next
    fix rrp peers2 rrp'
    assume *: "\<forall>i<rp_number peers. \<not> is_tried (rrp_tried rrp) i"
      "ngx_http_upstream_get_peer env peers rrp = (Some b, peers2, rrp')" "peers' = rr_inc_conns b peers2"
    from get_peer_scan [OF h env(2) *(1)] *(2,3) that show ?thesis by auto
  qed
qed

lemma rr_round_healthy:
  assumes "rr_group E ws peers" "rr_round E k peers b peers'"
  shows "b < length ws \<and> rr_group E ws peers'
    \<and> (\<forall>i<length ws. current_weight (rp_peer peers ! i) + int (ws ! i)
         \<le> current_weight (rp_peer peers ! b) + int (ws ! b))
    \<and> (\<forall>i<length ws. current_weight (rp_peer peers' ! i)
         = current_weight (rp_peer peers ! i) + int (ws ! i)
           - (if i = b then \<Sum>j<length ws. int (ws ! j) else 0))"
proof -
  obtain ps tot where scan: "rr_scan_all (rr_ring k (rp_number peers)) (rp_peer peers) 0 None = (ps, tot, Some b)"
    and like: "rr_like peers (lower_weight b tot ps) peers'"
    using rr_round_scan [OF assms] by metis
  note spec = rr_scan_ring [OF scan]
  obtain env0 where "env0 \<in> E" "rr_healthy env0 ws peers" using assms(1) by (auto simp: rr_group_def)
  then have n: "rp_number peers = length ws" by (simp add: rr_healthy_def)
  have healthy: "peer_healthy env (ws ! i) (rp_peer peers ! i)" if "env \<in> E" "i < length ws" for env i
    using assms(1) that by (simp add: rr_group_def rr_healthy_def)
  have val: "ps ! i = (rp_peer peers ! i)\<lparr>current_weight := current_weight (rp_peer peers ! i) + int (ws ! i)\<rparr>"
    if "i < length ws" for i
    using spec(2) [of i] healthy_gain [OF healthy [OF \<open>env0 \<in> E\<close> that]] that n by simp
  have tot: "tot = (\<Sum>j<length ws. int (ws ! j))"
    using spec(3) healthy [OF \<open>env0 \<in> E\<close>] n by (auto simp: peer_healthy_def intro!: sum.cong)
  have b: "b < length ws" using spec(5) [of b] n by simp
  have final: "peer_like ((ps ! i)\<lparr>current_weight := current_weight (ps ! i) - (if i = b then tot else 0)\<rparr>)
      (rp_peer peers' ! i)" if "i < length ws" for i
    using like that spec(1) n b by (auto simp: rr_like_def lower_weight_def nth_list_update)
  have "peer_healthy env (ws ! i) (rp_peer peers' ! i)" if "env \<in> E" "i < length ws" for env i
    using final [OF that(2)] healthy [OF that] by (simp add: val [OF that(2)] peer_like_def peer_healthy_def)
  then have "rr_group E ws peers'"
    using assms(1) like spec(1) n by (auto simp: rr_group_def rr_healthy_def rr_like_def lower_weight_def)
  moreover have "current_weight (rp_peer peers' ! i) = current_weight (rp_peer peers ! i) + int (ws ! i)
      - (if i = b then \<Sum>j<length ws. int (ws ! j) else 0)" if "i < length ws" for i
    using final [OF that] by (simp add: val [OF that] peer_like_def tot)
  moreover have "current_weight (rp_peer peers ! i) + int (ws ! i)
      \<le> current_weight (rp_peer peers ! b) + int (ws ! b)" if "i < length ws" for i
    using spec(6) [of b i] val that b n by simp
  ultimately show ?thesis using b by simp
qed

lemma rr_round_choice:
  assumes "rr_group E ws peers" "rr_group E ws peers2"
    and "\<And>i. i < length ws \<Longrightarrow> current_weight (rp_peer peers ! i) = current_weight (rp_peer peers2 ! i)"
    and "rr_round E k peers b peers'" "rr_round E k peers2 c peers2'"
  shows "b = c"
proof -
  have same: "peers_weigh_same (rp_peer peers) (rp_peer peers2)"
    using assms(1-3) by (auto simp: rr_group_def rr_healthy_def peer_healthy_def peers_weigh_same_def)
  have "snd (snd (rr_scan_all (rr_ring k (rp_number peers)) (rp_peer peers) 0 None))
      = snd (snd (rr_scan_all (rr_ring k (rp_number peers)) (rp_peer peers2) 0 None))"
    by (rule rr_scan_choice [OF same]) (auto simp: set_rr_ring)
  moreover have "rp_number peers2 = rp_number peers" using same by (simp add: peers_weigh_same_def)
  ultimately show ?thesis
    using rr_round_scan [OF assms(1,4)] rr_round_scan [OF assms(2,5)] by (metis option.inject snd_conv)
qed

interpretation rr: smooth_wrr "length ws" "\<lambda>i. int (ws ! i)" "rr_group E ws"
    "\<lambda>peers i. current_weight (rp_peer peers ! i)" "rr_round E k"
  for E ws k
proof
  fix peers assume h: "rr_group E ws peers"
  then show "0 < length ws \<and> (\<forall>i<length ws. 0 < int (ws ! i))"
    by (auto simp: rr_group_def rr_healthy_def)
  fix b peers' assume round: "rr_round E k peers b peers'"
  show "rr_group E ws peers' \<and> b < length ws" using rr_round_healthy [OF h round] by simp
  fix i assume "i < length ws"
  then show "current_weight (rp_peer peers ! i) + int (ws ! i)
      \<le> current_weight (rp_peer peers ! b) + int (ws ! b)"
    "current_weight (rp_peer peers' ! i) = current_weight (rp_peer peers ! i) + int (ws ! i)
      - (if i = b then \<Sum>j<length ws. int (ws ! j) else 0)"
    using rr_round_healthy [OF h round] by auto
qed (rule rr_round_choice)

text \<open>New requests take peers, one after the other, each in its own circumstances.\<close>

fun rr_serve :: "rr_env list \<Rightarrow> bool \<Rightarrow> rr_upstream \<Rightarrow> (bool \<times> nat) option list \<times> bool \<times> rr_upstream" where
  "rr_serve [] d us = ([], d, us)"
| "rr_serve (env # envs) d us =
     (case ngx_http_upstream_get_round_robin_peer env d us (ngx_http_upstream_init_round_robin_peer us) of
        (res, d1, us1, rrp) \<Rightarrow>
          (case rr_serve envs d1 us1 of (picked, d2, us2) \<Rightarrow> (res # picked, d2, us2)))"

lemma adapte_round:
  assumes "rr_group E ws peers" "env \<in> E" "rr_init_number env peers = k"
  shows "\<exists>b. rr_round E k peers b (snd (ngx_http_upstream_adapte_rr_peer_weight env peers))"
proof -
  let ?n = "rp_number peers"
  have n: "0 < ?n" "\<forall>i<?n. weight (rp_peer peers ! i) \<le> effective_weight (rp_peer peers ! i)"
    using assms(1,2) by (auto simp: rr_group_def rr_healthy_def peer_healthy_def)
  obtain ps tot best where scan: "rr_adapt_scan (rr_ring k ?n) (rp_peer peers) 0 None = (ps, tot, best)"
    by (metis prod_cases3)
  moreover have "rr_adapt_scan (rr_ring k ?n) (rp_peer peers) 0 None = rr_scan_all (rr_ring k ?n) (rp_peer peers) 0 None"
    using n(2) by (intro rr_adapt_scan_all distinct_rr_ring) (simp add: set_rr_ring)
  ultimately have "best \<noteq> None" using rr_scan_ring(4) [of "\<lambda>i p. True" k "rp_peer peers" ps tot best] n(1) by auto
  with scan assms(2,3) show ?thesis by (auto simp: rr_round_def)
qed

lemma discard_run:
  assumes "rr_group E ws peers" "env \<in> E" "rr_init_number env peers = k"
  shows "\<exists>ds. length ds = m
    \<and> wrr_run (rr_round E k) peers ds (((\<lambda>p. snd (ngx_http_upstream_adapte_rr_peer_weight env p)) ^^ m) peers)
    \<and> rr_group E ws (((\<lambda>p. snd (ngx_http_upstream_adapte_rr_peer_weight env p)) ^^ m) peers)
    \<and> rr_init_number env (((\<lambda>p. snd (ngx_http_upstream_adapte_rr_peer_weight env p)) ^^ m) peers) = k"
proof (induction m)
  case (Suc m)
  define u where "u = ((\<lambda>p. snd (ngx_http_upstream_adapte_rr_peer_weight env p)) ^^ m) peers"
  obtain ds where ds: "length ds = m" "wrr_run (rr_round E k) peers ds u" "rr_group E ws u" "rr_init_number env u = k"
    using Suc.IH by (auto simp: u_def)
  obtain b where b: "rr_round E k u b (snd (ngx_http_upstream_adapte_rr_peer_weight env u))"
    using adapte_round [OF ds(3) assms(2) ds(4)] by blast
  have "wrr_run (rr_round E k) peers (ds @ [b]) (snd (ngx_http_upstream_adapte_rr_peer_weight env u))"
    using ds(2) b by (auto simp: wrr_run_append)
  moreover have "rr_group E ws (snd (ngx_http_upstream_adapte_rr_peer_weight env u))"
    using rr_round_healthy [OF ds(3) b] by blast
  moreover have "rr_init_number env (snd (ngx_http_upstream_adapte_rr_peer_weight env u)) = k"
    using rr_round_scan [OF ds(3) b] by metis
  ultimately show ?case using ds(1) by (auto simp: u_def intro!: exI [of _ "ds @ [b]"])
qed (use assms in simp)

text \<open>One request of a healthy group: the discarded rounds, if they are due, and one more.\<close>

lemma get_healthy:
  assumes "rr_group E ws (us_primary us)" "env \<in> E" "rr_init_number env (us_primary us) = k"
    and "ngx_http_upstream_get_round_robin_peer env d us (ngx_http_upstream_init_round_robin_peer us)
      = (res, d', us', rrp')"
  shows "\<exists>ds b. res = Some (False, b) \<and> d' \<and> length ds = (if d then 0 else rr_discard_rounds env (us_primary us))
    \<and> wrr_run (rr_round E k) (us_primary us) (ds @ [b]) (us_primary us')"
proof -
  let ?peers = "us_primary us" and ?rrp = "ngx_http_upstream_init_round_robin_peer us"
  let ?m = "if d then 0 else rr_discard_rounds env ?peers"
  have h: "rr_healthy env ws ?peers" using assms(1,2) by (simp add: rr_group_def)
  obtain ds where ds: "length ds = ?m" and run:
      "wrr_run (rr_round E k) ?peers ds (((\<lambda>p. snd (ngx_http_upstream_adapte_rr_peer_weight env p)) ^^ ?m) ?peers)"
      "rr_group E ws (((\<lambda>p. snd (ngx_http_upstream_adapte_rr_peer_weight env p)) ^^ ?m) ?peers)"
      "rr_init_number env (((\<lambda>p. snd (ngx_http_upstream_adapte_rr_peer_weight env p)) ^^ ?m) ?peers) = k"
    using discard_run [OF assms(1-3), of ?m] by blast
  define u where "u = ((\<lambda>p. snd (ngx_http_upstream_adapte_rr_peer_weight env p)) ^^ ?m) ?peers"
  note run = run [folded u_def]
  have disc: "rr_discard env d ?peers = (True, u)"
    using h by (auto simp: rr_discard_def rr_healthy_def u_def)
  have hu: "rr_healthy env ws u" "rp_number u = rp_number ?peers"
    using run(2) assms(2) h by (auto simp: rr_group_def rr_healthy_def)
  have untried: "\<forall>i<rp_number u. \<not> is_tried (rrp_tried ?rrp) i"
    using new_request_untried [of _ us] hu(2) by simp
  obtain b peers2 rrp2 where get: "ngx_http_upstream_get_peer env u ?rrp = (Some b, peers2, rrp2)"
    using get_peer_scan [OF hu(1) run(3) untried] by blast
  have "rr_round E k u b (rr_inc_conns b peers2)"
    using assms(2) run(3) untried get unfolding rr_round_def by blast
  with run(1) have "wrr_run (rr_round E k) ?peers (ds @ [b]) (rr_inc_conns b peers2)"
    by (auto simp: wrr_run_append)
  moreover have "\<not> rp_single ?peers" using h by (simp add: rr_healthy_def)
  then have "rr_try_peers env d ?peers ?rrp = (RR_peer b, True, rr_inc_conns b peers2, rrp2)"
    using disc get new_request_config [of us] by (simp add: rr_try_peers_def)
  then have "res = Some (False, b)" "d'" "us' = us\<lparr>us_primary := rr_inc_conns b peers2\<rparr>"
    using assms(4) new_request_primary [of us]
    by (simp_all add: ngx_http_upstream_get_round_robin_peer.simps [of env d us] rr_set_of_def rr_put_set_def)
  ultimately show ?thesis using ds by auto
qed

lemma run_init: "rr_group E ws peers \<Longrightarrow> wrr_run (rr_round E k) peers bs peers' \<Longrightarrow> bs \<noteq> []
     \<Longrightarrow> rr_group E ws peers' \<and> (\<forall>env. rr_init_number env peers' = k)"
proof (induction bs arbitrary: peers)
  case (Cons b bs)
  then obtain u where u: "rr_round E k peers b u" "wrr_run (rr_round E k) u bs peers'" by auto
  have g: "rr_group E ws u" using rr_round_healthy [OF Cons.prems(1) u(1)] by blast
  have i: "\<forall>env. rr_init_number env u = k" using rr_round_scan [OF Cons.prems(1) u(1)] by metis
  show ?case
  proof (cases "bs = []")
    case True
    with u(2) g i show ?thesis by simp
  next
    case False
    from Cons.IH [OF g u(2) this] show ?thesis .
  qed
qed simp

lemma serve_tail:
  "rr_group E ws (us_primary us) \<Longrightarrow> set envs \<subseteq> E \<Longrightarrow> \<forall>env. rr_init_number env (us_primary us) = k
     \<Longrightarrow> rr_serve envs True us = (picked, d', us')
     \<Longrightarrow> \<exists>bs. picked = map (\<lambda>b. Some (False, b)) bs \<and> length bs = length envs
       \<and> wrr_run (rr_round E k) (us_primary us) bs (us_primary us')"
proof (induction envs arbitrary: us picked)
  case (Cons env envs)
  obtain res d1 us1 rrp1 rest where call: "ngx_http_upstream_get_round_robin_peer env True us
      (ngx_http_upstream_init_round_robin_peer us) = (res, d1, us1, rrp1)"
      "rr_serve envs d1 us1 = (rest, d', us')" "picked = res # rest"
    using Cons.prems(4) by (auto split: prod.splits)
  obtain b where b: "res = Some (False, b)" "d1" "wrr_run (rr_round E k) (us_primary us) [b] (us_primary us1)"
    using get_healthy [OF Cons.prems(1) _ _ call(1)] Cons.prems(2,3) by auto
  note init = run_init [OF Cons.prems(1) b(3)]
  obtain bs where "rest = map (\<lambda>b. Some (False, b)) bs" "length bs = length envs"
      "wrr_run (rr_round E k) (us_primary us1) bs (us_primary us')"
    using Cons.IH [of us1 rest] init call(2) b(2) Cons.prems(2) by auto
  with call(3) b show ?case by (intro exI [of _ "b # bs"]) auto
qed auto

text \<open>A worker's whole life with a healthy group is a run of smooth rounds.\<close>

lemma serve_run:
  assumes "rr_group E ws (us_primary us)" "set envs \<subseteq> E" "rr_serve envs d us = (picked, d', us')"
  shows "\<exists>k ds bs. picked = map (\<lambda>b. Some (False, b)) bs \<and> length bs = length envs
    \<and> length ds = (if d \<or> envs = [] then 0 else rr_discard_rounds (hd envs) (us_primary us))
    \<and> wrr_run (rr_round E k) (us_primary us) (ds @ bs) (us_primary us')"
proof (cases envs)
  case Nil
  with assms(3) show ?thesis by auto
next
  case (Cons env rest)
  let ?k = "rr_init_number env (us_primary us)"
  obtain res d1 us1 rrp1 picked1 where call: "ngx_http_upstream_get_round_robin_peer env d us
      (ngx_http_upstream_init_round_robin_peer us) = (res, d1, us1, rrp1)"
      "rr_serve rest d1 us1 = (picked1, d', us')" "picked = res # picked1"
    using assms(3) Cons by (auto split: prod.splits)
  have env: "env \<in> E" "set rest \<subseteq> E" using assms(2) Cons by auto
  obtain ds b where b: "res = Some (False, b)" "d1"
      "length ds = (if d then 0 else rr_discard_rounds env (us_primary us))"
      "wrr_run (rr_round E ?k) (us_primary us) (ds @ [b]) (us_primary us1)"
    using get_healthy [OF assms(1) env(1) refl call(1)] by blast
  have init: "rr_group E ws (us_primary us1)" "\<forall>env. rr_init_number env (us_primary us1) = ?k"
    using run_init [OF assms(1) b(4)] by auto
  obtain bs where bs: "picked1 = map (\<lambda>b. Some (False, b)) bs" "length bs = length rest"
      "wrr_run (rr_round E ?k) (us_primary us1) bs (us_primary us')"
    using serve_tail [OF init(1) env(2) init(2), of picked1 d' us'] call(2) b(2) by auto
  have "wrr_run (rr_round E ?k) (us_primary us) ((ds @ [b]) @ bs) (us_primary us')"
    unfolding wrr_run_append [of _ _ "ds @ [b]" bs] using b(4) bs(3) by blast
  with Cons call(3) b bs show ?thesis
    by (intro exI [of _ ?k] exI [of _ ds] exI [of _ "b # bs"]) auto
qed

lemma count_picked: "count_list (map (\<lambda>b. Some (False, b)) bs) (Some (False, i)) = count_list bs i"
  by (induction bs) auto

lemma sum_list_weights: "(\<Sum>j<length ws. int (ws ! j)) = int (sum_list ws)"
  by (simp add: sum_list_sum_nth atLeast0LessThan)

text \<open>
  C3: Smooth weighted round robin is exactly fair. In a weighted group whose primary peers are all
  healthy (up, not failing, without a limit of connections) and whose current weights are zero at the
  start, as they are when a group is set up, let any number of new requests without a session hint take
  peers, in whatever circumstances keep the peers healthy; the first may first discard a random number of rounds, if the worker has not done so. Then among any
  \<open>sum_list ws\<close> consecutive requests, wherever they begin, every peer is taken by exactly as many
  requests as its weight.
\<close>

theorem rr_fair:
  assumes "rr_group E ws (us_primary us)" "\<forall>i<length ws. current_weight (rp_peer (us_primary us) ! i) = 0"
    and "set envs \<subseteq> E" "rr_serve envs d us = (before @ window @ after, d', us')"
    and "length window = sum_list ws" "i < length ws"
  shows "count_list window (Some (False, i)) = ws ! i"
proof -
  obtain k ds bs where bs: "before @ window @ after = map (\<lambda>b. Some (False, b)) bs"
      "wrr_run (rr_round E k) (us_primary us) (ds @ bs) (us_primary us')"
    using serve_run [OF assms(1,3,4)] by blast
  obtain xs ys zs where "bs = xs @ ys @ zs" "window = map (\<lambda>b. Some (False, b)) ys"
    using bs(1) by (auto simp: append_eq_map_conv)
  moreover from this bs(2) obtain u where "wrr_run (rr_round E k) (us_primary us) ((ds @ xs) @ ys) u"
    by (metis append.assoc wrr_run_append)
  ultimately show ?thesis
    using rr.run_window_fair [OF assms(1), of k "ds @ xs" ys u i] assms(2,5,6)
    by (simp add: sum_list_weights count_picked)
qed

text \<open>
  C22: The current weights cannot drift. In a weighted group of healthy peers whose current weights
  are zero at the start, after any number of requests, and the rounds \<open>ds\<close> the first of them discards
  if the worker has not yet done so, every current weight is above minus the sum of the weights and
  equals the weight times the number of rounds, less the sum of the weights for every round the peer
  has won; the current weights add up to zero.
\<close>

theorem rr_current_weights:
  assumes "rr_group E ws (us_primary us)" "\<forall>i<length ws. current_weight (rp_peer (us_primary us) ! i) = 0"
    and "set envs \<subseteq> E" "rr_serve envs d us = (picked, d', us')"
  shows "\<exists>ds. length ds = (if d \<or> envs = [] then 0 else rr_discard_rounds (hd envs) (us_primary us))
    \<and> (\<forall>i<length ws. - int (sum_list ws) < current_weight (rp_peer (us_primary us') ! i)
        \<and> current_weight (rp_peer (us_primary us') ! i) = int (length ds + length envs) * int (ws ! i)
            - int (count_list ds i + count_list picked (Some (False, i))) * int (sum_list ws))
    \<and> (\<Sum>i<length ws. current_weight (rp_peer (us_primary us') ! i)) = 0"
proof -
  obtain k ds bs where bs: "picked = map (\<lambda>b. Some (False, b)) bs" "length bs = length envs"
      "length ds = (if d \<or> envs = [] then 0 else rr_discard_rounds (hd envs) (us_primary us))"
      "wrr_run (rr_round E k) (us_primary us) (ds @ bs) (us_primary us')"
    using serve_run [OF assms(1,3,4)] by blast
  have run: "rr.run_state ws E (ds @ bs) (us_primary us')"
    using rr.run_weights [OF assms(1) _ bs(4)] assms(2) by simp
  show ?thesis
    using bs(1-3) run rr.run_state_sum [OF run]
    by (intro exI [of _ ds]) (auto simp: rr.run_state_def sum_list_weights count_picked)
qed

section \<open>Unweighted groups\<close>

definition rr_flat :: "rr_env \<Rightarrow> nat \<Rightarrow> rr_peers \<Rightarrow> bool" where
  "rr_flat env n peers \<longleftrightarrow> rp_number peers = n \<and> 0 < n \<and> \<not> rp_single peers \<and> \<not> rp_weighted peers
     \<and> rp_config peers = None \<and> env_hint env = None
     \<and> (\<forall>i<n. peer_healthy env 1 (rp_peer peers ! i))"

lemma find_rr_ring_first: "b < n \<Longrightarrow> P b \<Longrightarrow> find P (rr_ring b n) = Some b"
proof -
  assume b: "b < n" "P b"
  then have "rr_ring b n = b # map (\<lambda>k. (b + k) mod n) [1..<n]"
    by (simp add: rr_ring_def upt_conv_Cons [of 0 n])
  with b(2) show ?thesis by simp
qed

lemma rr_begin_less:
  "0 < rp_number peers \<Longrightarrow> init < rp_number peers \<Longrightarrow> rr_begin peers init < rp_number peers"
  by (simp add: rr_begin_def split: option.split)

lemma peer_healthy_like: "peer_like p p' \<Longrightarrow> peer_healthy env w p' = peer_healthy env w p"
  by (simp add: peer_like_def peer_healthy_def)

text \<open>One request of an unweighted group takes the peer where the scan begins.\<close>

lemma get_flat:
  assumes "rr_flat env n (us_primary us)"
    and "c = rr_begin (with_init env (us_primary us)) (rr_init_number env (us_primary us))"
    and "ngx_http_upstream_get_round_robin_peer env d us (ngx_http_upstream_init_round_robin_peer us)
      = (res, d', us', rrp')"
  shows "res = Some (False, c)" "c < n" "rp_last_number (us_primary us') = Some c"
    "rp_last_peer (us_primary us') = Some c"
    "\<And>env'. rr_flat env' n (us_primary us) \<Longrightarrow> rr_flat env' n (us_primary us')"
proof -
  let ?peers = "us_primary us" and ?rrp = "ngx_http_upstream_init_round_robin_peer us"
  let ?init = "rr_init_number env (us_primary us)"
  note h = assms(1) [unfolded rr_flat_def]
  have "?init < n" using rr_init_less [of ?peers env] h by simp
  then show c: "c < n" using rr_begin_less [of "with_init env ?peers" ?init] h by (simp add: assms(2))
  have usable: "peer_usable env (rrp_tried ?rrp) c (rp_peer ?peers ! c)"
    using h c new_request_untried [of c us] by (intro healthy_usable) auto
  have found: "find (\<lambda>i. peer_usable env (rrp_tried ?rrp) i (rp_peer ?peers ! i)) (rr_ring c n) = Some c"
    by (rule find_rr_ring_first [where P = "\<lambda>i. peer_usable env (rrp_tried ?rrp) i (rp_peer ?peers ! i)",
          OF c usable])
  define peers1 where "peers1 = ?peers\<lparr>rp_init_number := Some ?init, rp_last_peer := Some c,
    rp_last_number := Some c, rp_last_config := 0, rp_peer := lower_weight c 0 (rp_peer ?peers)\<rparr>"
  have get: "ngx_http_upstream_get_peer env ?peers ?rrp = (Some c, rr_chosen env c peers1 ?rrp)"
    using h found
    by (simp add: ngx_http_upstream_get_peer_def ngx_http_upstream_get_rr_peer_by_sid_def
        rr_select_def Let_def peers1_def flip: assms(2))
  define peers2 where "peers2 = rr_inc_conns c (fst (rr_chosen env c peers1 ?rrp))"
  have "rr_try_peers env d ?peers ?rrp = (RR_peer c, d, peers2, snd (rr_chosen env c peers1 ?rrp))"
    using h get new_request_config [of us]
    by (simp add: rr_try_peers_def rr_discard_def peers2_def split: prod.splits)
  then have eq: "res = Some (False, c)" "us' = us\<lparr>us_primary := peers2\<rparr>"
    using assms(3) new_request_primary [of us]
    by (simp_all add: ngx_http_upstream_get_round_robin_peer.simps [of env d us] rr_set_of_def rr_put_set_def)
  then show "res = Some (False, c)" by simp
  show "rp_last_number (us_primary us') = Some c" "rp_last_peer (us_primary us') = Some c"
    by (simp_all add: eq peers2_def peers1_def rr_inc_conns_def rr_chosen_def Let_def)
  have same: "rp_peer peers1 = rp_peer ?peers" by (simp add: peers1_def lower_weight_def)
  have like: "peer_like (rp_peer ?peers ! i) (rp_peer peers2 ! i)" for i
    using peer_like_trans [OF rr_chosen_like rr_inc_conns_like] by (simp add: peers2_def flip: same)
  have fields: "rp_number peers2 = rp_number ?peers" "rp_single peers2 = rp_single ?peers"
      "rp_weighted peers2 = rp_weighted ?peers" "rp_config peers2 = rp_config ?peers"
    by (simp_all add: peers2_def peers1_def rr_inc_conns_def rr_chosen_def lower_weight_def Let_def)
  show "rr_flat env' n (us_primary us')" if "rr_flat env' n (us_primary us)" for env'
    using that by (simp add: eq rr_flat_def fields peer_healthy_like [OF like])
qed

lemma map_upt_Suc: "map f [0..<Suc m] = f 0 # map (\<lambda>k. f (Suc k)) [0..<m]"
  by (simp add: upt_conv_Cons map_Suc_upt [symmetric] del: upt_Suc)

lemma flat_serve_from:
  "\<forall>env \<in> set envs. rr_flat env n (us_primary us) \<Longrightarrow> rp_last_number (us_primary us) = Some l
     \<Longrightarrow> rp_last_peer (us_primary us) = Some l \<Longrightarrow> l < n \<Longrightarrow> rr_serve envs d us = (picked, d', us')
     \<Longrightarrow> picked = map (\<lambda>k. Some (False, (l + 1 + k) mod n)) [0..<length envs]"
proof (induction envs arbitrary: us l d picked)
  case (Cons env envs)
  obtain res d1 us1 rrp1 rest where call: "ngx_http_upstream_get_round_robin_peer env d us
      (ngx_http_upstream_init_round_robin_peer us) = (res, d1, us1, rrp1)"
      "rr_serve envs d1 us1 = (rest, d', us')" "picked = res # rest"
    using Cons.prems(5) by (auto split: prod.splits)
  have flat: "rr_flat env n (us_primary us)" using Cons.prems(1) by simp
  define c where "c = rr_begin (with_init env (us_primary us)) (rr_init_number env (us_primary us))"
  note get = get_flat [OF flat c_def call(1)]
  have c: "c = (l + 1) mod n"
    using flat Cons.prems(2-4) by (cases "Suc l = n") (auto simp: c_def rr_begin_def rr_flat_def)
  have "rest = map (\<lambda>k. Some (False, (c + 1 + k) mod n)) [0..<length envs]"
    using Cons.IH [OF _ get(3,4,2) call(2)] get(5) Cons.prems(1) by simp
  moreover have "(c + 1 + k) mod n = (l + 1 + Suc k) mod n" for k
    using mod_add_left_eq [of "l + 1" n "1 + k"] by (simp add: c add.assoc)
  ultimately show ?case using call(3) get(1) by (simp add: map_upt_Suc c del: upt_Suc)
qed simp

text \<open>
  C23: An unweighted group of healthy peers rotates. The first request of the group takes the peer
  at \<open>init_number\<close>, and each following request takes the next peer of the list, starting over at
  its end.
\<close>

theorem rr_rotates:
  assumes "\<forall>env \<in> set envs. rr_flat env n (us_primary us)" "rp_last_number (us_primary us) = None"
    and "rr_serve envs d us = (picked, d', us')"
  shows "picked = map (\<lambda>k. Some (False, (rr_init_number (hd envs) (us_primary us) + k) mod n)) [0..<length envs]"
proof (cases envs)
  case (Cons env rest)
  obtain res d1 us1 rrp1 picked1 where call: "ngx_http_upstream_get_round_robin_peer env d us
      (ngx_http_upstream_init_round_robin_peer us) = (res, d1, us1, rrp1)"
      "rr_serve rest d1 us1 = (picked1, d', us')" "picked = res # picked1"
    using assms(3) Cons by (auto split: prod.splits)
  let ?init = "rr_init_number env (us_primary us)"
  have flat: "rr_flat env n (us_primary us)" using assms(1) Cons by simp
  have start: "?init = rr_begin (with_init env (us_primary us)) ?init"
    using flat assms(2) by (simp add: rr_begin_def rr_flat_def)
  note get = get_flat [OF flat start call(1)]
  have "picked1 = map (\<lambda>k. Some (False, (?init + 1 + k) mod n)) [0..<length rest]"
    using flat_serve_from [OF _ get(3,4,2) call(2)] get(5) assms(1) Cons by simp
  then show ?thesis using call(3) get(1,2) Cons by (simp add: map_upt_Suc del: upt_Suc)
qed (use assms(3) in simp)

section \<open>A sample group\<close>

definition sample_env :: rr_env where
  "sample_env = \<lparr>env_now = 100, env_check_down = (\<lambda>i. False), env_hint = None, env_rnd_init = 1,
     env_rnd_discard = 0, env_discarded_range = None\<rparr>"

definition sample_server :: "nat \<Rightarrow> rr_server" where
  "sample_server w = \<lparr>srv_naddrs = 1, srv_weight = w, srv_max_conns = 0, srv_max_fails = 1,
     srv_fail_timeout = 10, srv_down = 0, srv_backup = False, srv_resolve = False\<rparr>"

definition sample_setup :: rr_setup where
  "sample_setup = \<lparr>set_zone = False, set_modify = False, set_resolver = False, set_backup = False\<rparr>"

definition sample_set :: "nat list \<Rightarrow> rr_peers" where
  "sample_set ws = rr_new_set False (map sample_server ws)
     (rr_new_peers (\<lambda>i. []) (\<lambda>i. 0) (map sample_server ws))"

definition sample_us :: rr_upstream where
  "sample_us = \<lparr>us_primary = sample_set [2, 1], us_backup = None\<rparr>"

lemma sample_init:
  "ngx_http_upstream_init_round_robin sample_setup (\<lambda>i. []) (\<lambda>i. 0) (\<lambda>i. []) (\<lambda>i. 0)
     (map sample_server [2, 1]) = Some sample_us"
  by (simp add: ngx_http_upstream_init_round_robin_def sample_setup_def sample_server_def sample_set_def
      sample_us_def rr_static_def Let_def)

lemmas sample_defs = sample_set_def sample_server_def sample_env_def rr_new_peers_def rr_new_peer_def
  rr_new_set_def Let_def

lemma sample_healthy: "rr_healthy sample_env [2, 1] (sample_set [2, 1])"
  by (simp add: rr_healthy_def peer_healthy_def sample_defs less_Suc_eq numeral_2_eq_2)

lemma sample_group: "rr_group {sample_env} [2, 1] (us_primary sample_us)"
  using sample_healthy by (simp add: rr_group_def sample_us_def)

lemma sample_zero: "\<forall>i<length [2, 1 :: nat]. current_weight (rp_peer (us_primary sample_us) ! i) = 0"
  by (simp add: sample_us_def sample_defs less_Suc_eq numeral_2_eq_2)

lemma length_serve: "rr_serve envs d us = (picked, d', us') \<Longrightarrow> length picked = length envs"
  by (induction envs arbitrary: d us picked) (auto split: prod.splits)

text \<open>Two peers of weights 2 and 1, and a new worker: of the third to the fifth request, two are for
  the first peer.\<close>

theorem rr_fair_witness:
  "\<exists>picked d' us'. rr_serve (replicate 7 sample_env) False sample_us = (picked, d', us')
     \<and> count_list (take 3 (drop 2 picked)) (Some (False, 0)) = 2"
proof -
  obtain picked d' us' where p: "rr_serve (replicate 7 sample_env) False sample_us = (picked, d', us')"
    by (metis prod_cases3)
  have len: "length picked = 7" using length_serve [OF p] by simp
  have split: "picked = take 2 picked @ take 3 (drop 2 picked) @ drop 3 (drop 2 picked)"
    by (metis append_take_drop_id)
  have "rr_serve (replicate 7 sample_env) False sample_us
      = (take 2 picked @ take 3 (drop 2 picked) @ drop 3 (drop 2 picked), d', us')"
    using p split by simp
  from rr_fair [OF sample_group sample_zero _ this, of 0] len p show ?thesis by auto
qed

theorem rr_current_weights_witness:
  "\<exists>picked d' us'. rr_serve (replicate 100 sample_env) False sample_us = (picked, d', us')
     \<and> - 3 < current_weight (rp_peer (us_primary us') ! 1)
     \<and> (\<Sum>i<2. current_weight (rp_peer (us_primary us') ! i)) = 0"
proof -
  obtain picked d' us' where p: "rr_serve (replicate 100 sample_env) False sample_us = (picked, d', us')"
    by (metis prod_cases3)
  have "- int (sum_list [2, 1]) < current_weight (rp_peer (us_primary us') ! 1)
      \<and> (\<Sum>i<length [2, 1 :: nat]. current_weight (rp_peer (us_primary us') ! i)) = 0"
    using rr_current_weights [OF sample_group sample_zero _ p] by fastforce
  with p show ?thesis by (simp add: numeral_2_eq_2)
qed

theorem rr_rotates_witness:
  "fst (rr_serve (replicate 4 sample_env) False \<lparr>us_primary = sample_set [1, 1, 1], us_backup = None\<rparr>)
     = map (\<lambda>b. Some (False, b)) [1, 2, 0, 1]"
proof -
  let ?us = "\<lparr>us_primary = sample_set [1, 1, 1], us_backup = None\<rparr>"
  obtain picked d' us' where p: "rr_serve (replicate 4 sample_env) False ?us = (picked, d', us')"
    by (metis prod_cases3)
  have flat: "rr_flat sample_env 3 (sample_set [1, 1, 1])"
    by (simp add: rr_flat_def peer_healthy_def sample_defs less_Suc_eq numeral_3_eq_3)
  have none: "rp_last_number (us_primary ?us) = None" by (simp add: sample_defs)
  have init: "rr_init_number sample_env (sample_set [1, 1, 1]) = 1"
    by (simp add: rr_init_number_def sample_defs)
  have "\<forall>env \<in> set (replicate 4 sample_env). rr_flat env 3 (us_primary ?us)" using flat by simp
  from rr_rotates [OF this none p] init show ?thesis
    by (simp add: p [unfolded One_nat_def] init [unfolded One_nat_def] upt_rec)
qed

lemma sample_get:
  "\<exists>us' rrp'. ngx_http_upstream_get_round_robin_peer sample_env True sample_us
     (ngx_http_upstream_init_round_robin_peer sample_us) = (Some (False, 0), True, us', rrp')
     \<and> rr_set_of us' False = Some (us_primary us') \<and> rp_number (us_primary us') = 2
     \<and> rr_holds rrp' = (False, Some 0)"
  by (simp add: ngx_http_upstream_get_round_robin_peer.simps rr_try_peers_def rr_config_changed_def
      ngx_http_upstream_get_peer_def ngx_http_upstream_get_rr_peer_by_sid_def rr_discard_def
      rr_select_def rr_ring_def rr_begin_def rr_init_number_def rr_chosen_def rr_inc_conns_def
      lower_weight_def rr_better_def rr_gain_def peer_usable_def peer_failed_def peer_full_def
      is_tried_def ngx_http_upstream_init_round_robin_peer_def sample_us_def rr_set_of_def rr_put_set_def
      rr_holds_def sample_defs upt_rec)

theorem rr_accounting_witness:
  "\<exists>us us' rrp. ngx_http_upstream_init_round_robin sample_setup (\<lambda>i. []) (\<lambda>i. 0) (\<lambda>i. []) (\<lambda>i. 0)
       (map sample_server [2, 1]) = Some us
     \<and> rr_steps (us, {#}, {#}) (us', {#}, {#rrp#})
     \<and> peer_accounted 1 (rp_peer (us_primary us') ! 0)
     \<and> ngx_http_upstream_free_round_robin_peer 0 100 2 us' rrp \<noteq> None"
proof -
  let ?rrp = "ngx_http_upstream_init_round_robin_peer sample_us"
  obtain us' rrp' where get: "ngx_http_upstream_get_round_robin_peer sample_env True sample_us ?rrp
        = (Some (False, 0), True, us', rrp')"
      and us': "rr_set_of us' False = Some (us_primary us')" "rp_number (us_primary us') = 2"
      "rr_holds rrp' = (False, Some 0)"
    using sample_get by blast
  have "rr_steps (sample_us, {#}, {#}) (sample_us, {#?rrp#}, {#})"
    by (rule rr_steps_step [OF rr_steps_refl rr_start])
  moreover have "rr_step (sample_us, {#?rrp#}, {#}) (us', {#}, {#rrp'#})"
    using rr_take [OF _ get, of "{#?rrp#}" "{#}"] by simp
  ultimately have steps: "rr_steps (sample_us, {#}, {#}) (us', {#}, {#rrp'#})" by (rule rr_steps_step)
  note acct = rr_accounting [OF sample_init steps]
  have "peer_accounted (rr_holders {#rrp'#} False 0) (rp_peer (us_primary us') ! 0)"
    using acct us' by simp
  moreover have "rr_holders {#rrp'#} False 0 = 1" by (simp add: rr_holders_def us')
  moreover have "ngx_http_upstream_free_round_robin_peer 0 100 2 us' rrp' \<noteq> None" using acct by simp
  ultimately show ?thesis using steps sample_init by auto
qed

theorem rr_get_peer_usable_witness:
  "\<exists>b peers' rrp'. ngx_http_upstream_get_peer sample_env (us_primary sample_us)
       (ngx_http_upstream_init_round_robin_peer sample_us) = (Some b, peers', rrp')
     \<and> peer_usable sample_env (rrp_tried (ngx_http_upstream_init_round_robin_peer sample_us)) b
         (rp_peer (us_primary sample_us) ! b)"
proof -
  let ?peers = "us_primary sample_us" and ?rrp = "ngx_http_upstream_init_round_robin_peer sample_us"
  obtain res peers' rrp' where get: "ngx_http_upstream_get_peer sample_env ?peers ?rrp = (res, peers', rrp')"
    by (metis prod_cases3)
  have num: "env_hint sample_env = None" "rp_number ?peers \<le> 64 * length (rrp_tried ?rrp)" "rp_number ?peers = 2"
    by (simp_all add: sample_us_def sample_defs ngx_http_upstream_init_round_robin_peer_def)
  note spec = rr_get_peer_usable [OF num(1,2) get]
  have "peer_healthy sample_env 2 (rp_peer ?peers ! 0)"
    by (simp add: peer_healthy_def sample_us_def sample_defs)
  then have "peer_usable sample_env (rrp_tried ?rrp) 0 (rp_peer ?peers ! 0)"
    using new_request_untried [of 0 sample_us] num(3) by (intro healthy_usable) simp_all
  then have "res \<noteq> None" using spec num(3) by auto
  with spec get show ?thesis by blast
qed

end
