(* ===== verification/Ngx_Numbers.thy ===== *)
theory Ngx_Numbers
  imports Ngx_Prelude
begin

text \<open>
  Reading numbers: the decimal, fixed point and hexadecimal parsers of \<open>src/core/ngx_string.c\<close>,
  and the sizes, offsets and times of \<open>src/core/ngx_parse.c\<close> that the configuration and the
  headers are read with. Each parser is shown to return the number its argument denotes whenever
  that number is in range, and \<open>NGX_ERROR\<close> in every other case.
\<close>

section \<open>Decimal and hexadecimal numbers\<close>

abbreviation (input) NGX_MAX_TIME_T_VALUE :: int where "NGX_MAX_TIME_T_VALUE \<equiv> 9223372036854775807"

text \<open>The loop the decimal parsers share: \<open>cutoff\<close> and \<open>cutlim\<close> are the quotient and the remainder
  of the largest value by ten.\<close>

definition digit_cut :: "int \<Rightarrow> int \<Rightarrow> byte \<Rightarrow> bool" where
  "digit_cut mx value ch \<longleftrightarrow>
     value \<ge> mx div 10 \<and> (value > mx div 10 \<or> int (digit_val ch) > mx mod 10)"

fun ato_loop :: "int \<Rightarrow> byte list \<Rightarrow> int \<Rightarrow> int" where
  "ato_loop mx [] value = value"
| "ato_loop mx (ch # line) value =
     (if \<not> is_digit ch then NGX_ERROR
      else if digit_cut mx value ch then NGX_ERROR
      else ato_loop mx line (value * 10 + int (digit_val ch)))"

definition ngx_atoi :: "byte list \<Rightarrow> int" where
  "ngx_atoi line = (if line = [] then NGX_ERROR else ato_loop NGX_MAX_INT_T_VALUE line 0)"

definition ngx_atosz :: "byte list \<Rightarrow> int" where
  "ngx_atosz line = (if line = [] then NGX_ERROR else ato_loop NGX_MAX_SIZE_T_VALUE line 0)"

definition ngx_atoof :: "byte list \<Rightarrow> int" where
  "ngx_atoof line = (if line = [] then NGX_ERROR else ato_loop NGX_MAX_OFF_T_VALUE line 0)"

definition ngx_atotm :: "byte list \<Rightarrow> int" where
  "ngx_atotm line = (if line = [] then NGX_ERROR else ato_loop NGX_MAX_TIME_T_VALUE line 0)"

text \<open>\<open>ngx_atoll\<close> has no cutoff. Its \<open>long long\<close> is signed, so a value past the largest one is
  undefined behaviour, which is an outcome of its own; only the sign of the final value is
  tested.\<close>

datatype ll_result = LL_value int | LL_undefined

fun atoll_loop :: "byte list \<Rightarrow> int \<Rightarrow> ll_result" where
  "atoll_loop [] value = LL_value (if value < 0 then NGX_ERROR else value)"
| "atoll_loop (ch # line) value =
     (if \<not> is_digit ch then LL_value NGX_ERROR
      else if value * 10 + int (digit_val ch) > 9223372036854775807 then LL_undefined
      else atoll_loop line (value * 10 + int (digit_val ch)))"

definition ngx_atoll :: "byte list \<Rightarrow> ll_result" where
  "ngx_atoll line = (if line = [] then LL_value NGX_ERROR else atoll_loop line 0)"

fun hextoi_loop :: "byte list \<Rightarrow> int \<Rightarrow> int" where
  "hextoi_loop [] value = value"
| "hextoi_loop (ch # line) value =
     (if value > NGX_MAX_INT_T_VALUE div 16 then NGX_ERROR
      else case hex_digit ch of
             None \<Rightarrow> NGX_ERROR
           | Some d \<Rightarrow> hextoi_loop line (value * 16 + int d))"

definition ngx_hextoi :: "byte list \<Rightarrow> int" where
  "ngx_hextoi line = (if line = [] then NGX_ERROR else hextoi_loop line 0)"

section \<open>Fixed point numbers\<close>

fun atofp_loop :: "byte list \<Rightarrow> nat \<Rightarrow> bool \<Rightarrow> int \<Rightarrow> (int \<times> nat) option" where
  "atofp_loop [] point dot value = Some (value, point)"
| "atofp_loop (ch # line) point dot value =
     (if point = 0 then None
      else if ch = b_dot then (if dot then None else atofp_loop line point True value)
      else if \<not> is_digit ch then None
      else if digit_cut NGX_MAX_INT_T_VALUE value ch then None
      else atofp_loop line (if dot then point - 1 else point) dot (value * 10 + int (digit_val ch)))"

fun atofp_scale :: "nat \<Rightarrow> int \<Rightarrow> int" where
  "atofp_scale 0 value = value"
| "atofp_scale (Suc point) value =
     (if value > NGX_MAX_INT_T_VALUE div 10 then NGX_ERROR else atofp_scale point (value * 10))"

definition ngx_atofp :: "byte list \<Rightarrow> nat \<Rightarrow> int" where
  "ngx_atofp line point =
     (if line = [] then NGX_ERROR
      else case atofp_loop line point False 0 of
             None \<Rightarrow> NGX_ERROR
           | Some (value, point') \<Rightarrow> atofp_scale point' value)"

section \<open>Sizes and offsets\<close>

abbreviation (input) u_K :: byte where "u_K \<equiv> 75"
abbreviation (input) u_k :: byte where "u_k \<equiv> 107"
abbreviation (input) u_M :: byte where "u_M \<equiv> 77"
abbreviation (input) u_m :: byte where "u_m \<equiv> 109"
abbreviation (input) u_G :: byte where "u_G \<equiv> 71"
abbreviation (input) u_g :: byte where "u_g \<equiv> 103"

text \<open>The suffix \<open>switch\<close>: whether the last byte is a unit, and its scale. \<open>G\<close> is always a unit of
  offsets, and one of sizes in builds with \<open>T_NGX_HTTP_SYSGUARD\<close>.\<close>

definition size_scale :: "bool \<Rightarrow> byte \<Rightarrow> int option" where
  "size_scale giga u =
     (if u = u_K \<or> u = u_k then Some 1024
      else if u = u_M \<or> u = u_m then Some (1024 * 1024)
      else if giga \<and> (u = u_G \<or> u = u_g) then Some (1024 * 1024 * 1024)
      else None)"

definition ngx_parse_size :: "bool \<Rightarrow> byte list \<Rightarrow> int" where
  "ngx_parse_size sysguard line =
     (if line = [] then NGX_ERROR
      else
        (let (ds, scale) = (case size_scale sysguard (last line) of
               None \<Rightarrow> (line, 1) | Some k \<Rightarrow> (butlast line, k));
             mx = NGX_MAX_SIZE_T_VALUE div scale;
             sz = ngx_atosz ds
         in if sz = NGX_ERROR \<or> sz > mx then NGX_ERROR else sz * scale))"

definition ngx_parse_offset :: "byte list \<Rightarrow> int" where
  "ngx_parse_offset line =
     (if line = [] then NGX_ERROR
      else
        (let (ds, scale) = (case size_scale True (last line) of
               None \<Rightarrow> (line, 1) | Some k \<Rightarrow> (butlast line, k));
             mx = NGX_MAX_OFF_T_VALUE div scale;
             off = ngx_atoof ds
         in if off = NGX_ERROR \<or> off > mx then NGX_ERROR else off * scale))"

section \<open>Times\<close>

abbreviation (input) st_start :: nat where "st_start \<equiv> 0"
abbreviation (input) st_year :: nat where "st_year \<equiv> 1"
abbreviation (input) st_month :: nat where "st_month \<equiv> 2"
abbreviation (input) st_week :: nat where "st_week \<equiv> 3"
abbreviation (input) st_day :: nat where "st_day \<equiv> 4"
abbreviation (input) st_hour :: nat where "st_hour \<equiv> 5"
abbreviation (input) st_min :: nat where "st_min \<equiv> 6"
abbreviation (input) st_sec :: nat where "st_sec \<equiv> 7"
abbreviation (input) st_msec :: nat where "st_msec \<equiv> 8"
abbreviation (input) st_last :: nat where "st_last \<equiv> 9"

text \<open>The \<open>switch\<close> on the byte after the digits: the next step, the scale in seconds (in
  milliseconds for \<open>ms\<close>) and what is left of the line; \<open>None\<close> is \<open>NGX_ERROR\<close>. The local \<open>max\<close> is
  \<open>NGX_MAX_INT_T_VALUE\<close> divided by the scale in every case.\<close>

definition time_unit :: "bool \<Rightarrow> nat \<Rightarrow> byte \<Rightarrow> byte list \<Rightarrow> (nat \<times> int \<times> byte list) option" where
  "time_unit is_sec step ch rest =
     (if ch = 121 then (if step > st_start then None else Some (st_year, 60 * 60 * 24 * 365, rest))
      else if ch = 77 then (if step \<ge> st_month then None else Some (st_month, 60 * 60 * 24 * 30, rest))
      else if ch = 119 then (if step \<ge> st_week then None else Some (st_week, 60 * 60 * 24 * 7, rest))
      else if ch = 100 then (if step \<ge> st_day then None else Some (st_day, 60 * 60 * 24, rest))
      else if ch = 104 then (if step \<ge> st_hour then None else Some (st_hour, 60 * 60, rest))
      else if ch = 109 then
        (if rest \<noteq> [] \<and> hd rest = 115 then
           (if is_sec \<or> step \<ge> st_msec then None else Some (st_msec, 1, tl rest))
         else if step \<ge> st_min then None
         else Some (st_min, 60, rest))
      else if ch = 115 then (if step \<ge> st_sec then None else Some (st_sec, 1, rest))
      else if ch = SP then (if step \<ge> st_sec then None else Some (st_last, 1, rest))
      else None)"

text \<open>After the \<open>switch\<close>: scaling the value and adding it to the total.\<close>

definition time_add :: "bool \<Rightarrow> nat \<Rightarrow> int \<Rightarrow> int \<Rightarrow> int \<Rightarrow> int option" where
  "time_add is_sec step scale value tot =
     (let mx = NGX_MAX_INT_T_VALUE div scale;
          scale' = (if step \<noteq> st_msec \<and> \<not> is_sec then scale * 1000 else scale);
          mx' = (if step \<noteq> st_msec \<and> \<not> is_sec then mx div 1000 else mx)
      in if value > mx' then None
         else if tot > NGX_MAX_INT_T_VALUE - value * scale' then None
         else Some (tot + value * scale'))"

text \<open>After the loop: the digits left over count as seconds.\<close>

definition time_finish :: "bool \<Rightarrow> bool \<Rightarrow> int \<Rightarrow> int \<Rightarrow> int" where
  "time_finish is_sec valid value tot =
     (if \<not> valid then NGX_ERROR
      else if \<not> is_sec \<and> value > NGX_MAX_INT_T_VALUE div 1000 then NGX_ERROR
      else
        (let value' = (if is_sec then value else value * 1000) in
         if tot > NGX_MAX_INT_T_VALUE - value' then NGX_ERROR else tot + value'))"

lemma time_unit_rest: "time_unit is_sec step ch rest = Some (step', scale, rest') \<Longrightarrow> length rest' \<le> length rest"
  by (auto simp: time_unit_def split: if_splits)

function parse_time_loop :: "bool \<Rightarrow> byte list \<Rightarrow> nat \<Rightarrow> bool \<Rightarrow> int \<Rightarrow> int \<Rightarrow> int" where
  "parse_time_loop is_sec [] step valid value tot = time_finish is_sec valid value tot"
| "parse_time_loop is_sec (ch # rest) step valid value tot =
     (if is_digit ch then
        (if digit_cut NGX_MAX_INT_T_VALUE value ch then NGX_ERROR
         else parse_time_loop is_sec rest step True (value * 10 + int (digit_val ch)) tot)
      else
        (case time_unit is_sec step ch rest of
           None \<Rightarrow> NGX_ERROR
         | Some (step', scale, rest') \<Rightarrow>
             (case time_add is_sec step' scale value tot of
                None \<Rightarrow> NGX_ERROR
              | Some tot' \<Rightarrow>
                  parse_time_loop is_sec (dropWhile (\<lambda>c. c = SP) rest') step' valid 0 tot')))"
  by pat_completeness auto
termination
  by (relation "measure (\<lambda>(is_sec, line, step, valid, v, tot). length line)")
    (auto dest!: time_unit_rest intro: le_imp_less_Suc order_trans [OF length_dropWhile_le])

definition ngx_parse_time :: "byte list \<Rightarrow> bool \<Rightarrow> int" where
  "ngx_parse_time line is_sec =
     parse_time_loop is_sec line (if is_sec then st_start else st_month) False 0 0"

section \<open>The numbers denoted\<close>

definition dec_from :: "nat \<Rightarrow> byte list \<Rightarrow> nat" where
  "dec_from = foldl (\<lambda>v ch. v * 10 + digit_val ch)"

abbreviation (input) dec_val :: "byte list \<Rightarrow> nat" where "dec_val \<equiv> dec_from 0"

lemma dec_from_simps [simp]:
  "dec_from v [] = v" "dec_from v (ch # line) = dec_from (v * 10 + digit_val ch) line"
  by (simp_all add: dec_from_def)

lemma dec_from_ge: "v \<le> dec_from v line"
proof (induction line arbitrary: v)
  case (Cons ch line)
  have "v \<le> v * 10 + digit_val ch" by simp
  also have "\<dots> \<le> dec_from v (ch # line)" using Cons.IH by simp
  finally show ?case .
qed simp

lemma dec_from_append: "dec_from v (xs @ ys) = dec_from (dec_from v xs) ys"
  by (simp add: dec_from_def)

text \<open>\<open>digit_cut\<close> is the test that one more digit leaves the range.\<close>

lemma digit_cut_iff: "is_digit ch \<Longrightarrow> digit_cut mx (int v) ch \<longleftrightarrow> mx < int (v * 10 + digit_val ch)"
proof -
  assume "is_digit ch"
  then have "int (digit_val ch) \<le> 9" using digit_val_le by fastforce
  moreover have "mx = mx div 10 * 10 + mx mod 10" "0 \<le> mx mod 10" "mx mod 10 < 10" by simp_all
  ultimately show ?thesis unfolding digit_cut_def by (auto; linarith)
qed

lemma ato_loop_eq:
  "int v \<le> mx \<Longrightarrow> ato_loop mx line (int v) =
     (if list_all is_digit line \<and> int (dec_from v line) \<le> mx then int (dec_from v line) else NGX_ERROR)"
proof (induction line arbitrary: v)
  case (Cons ch line)
  show ?case
  proof (cases "is_digit ch")
    case True
    let ?v = "v * 10 + digit_val ch"
    have "ato_loop mx (ch # line) (int v) = (if mx < int ?v then NGX_ERROR else ato_loop mx line (int ?v))"
      using digit_cut_iff [OF True, of mx v] True by simp
    moreover have "mx < int ?v \<Longrightarrow> mx < int (dec_from ?v line)"
      using dec_from_ge [of ?v line] by linarith
    ultimately show ?thesis using Cons.IH [of ?v] True by auto
  qed simp
qed simp

text \<open>The reference for a decimal parser with largest value \<open>mx\<close>.\<close>

definition dec_number :: "int \<Rightarrow> byte list \<Rightarrow> int" where
  "dec_number mx line =
     (if line \<noteq> [] \<and> list_all is_digit line \<and> int (dec_val line) \<le> mx then int (dec_val line)
      else NGX_ERROR)"

lemma ato_eqs:
  "ngx_atoi line = dec_number NGX_MAX_INT_T_VALUE line"
  "ngx_atosz line = dec_number NGX_MAX_SIZE_T_VALUE line"
  "ngx_atoof line = dec_number NGX_MAX_OFF_T_VALUE line"
  "ngx_atotm line = dec_number NGX_MAX_TIME_T_VALUE line"
  using ato_loop_eq [of 0 9223372036854775807 line]
  by (simp_all add: ngx_atoi_def ngx_atosz_def ngx_atoof_def ngx_atotm_def dec_number_def)

lemma hextoi_loop_eq:
  "int v \<le> NGX_MAX_INT_T_VALUE \<Longrightarrow> hextoi_loop line (int v) =
     (if hex_string line \<and> int (hex_val_from v line) \<le> NGX_MAX_INT_T_VALUE
      then int (hex_val_from v line) else NGX_ERROR)"
proof (induction line arbitrary: v)
  case (Cons ch line)
  show ?case
  proof (cases "hex_digit ch")
    case (Some d)
    let ?v = "v * 16 + d"
    have d: "d \<le> 15" using hex_digit_le [OF Some] .
    have ge: "?v \<le> hex_val_from ?v line" by (rule hex_val_from_ge)
    show ?thesis
    proof (cases "v > 576460752303423487")
      case True
      then have "\<not> hex_val_from ?v line \<le> 9223372036854775807" using ge by linarith
      with True Some show ?thesis by (simp del: of_nat_mult of_nat_add)
    next
      case False
      with d have "int ?v \<le> 9223372036854775807" by linarith
      with Cons.IH [of ?v] False Some show ?thesis by simp
    qed
  qed simp
qed simp

text \<open>
  C31: The integer parsers return the number their argument denotes. \<open>ngx_atoi\<close>, \<open>ngx_atosz\<close>,
  \<open>ngx_atoof\<close> and \<open>ngx_atotm\<close> accept exactly the non-empty strings of decimal digits whose value
  fits the result type, \<open>ngx_hextoi\<close> the non-empty strings of hexadecimal digits, and return that
  value; every other argument gives \<open>NGX_ERROR\<close>.
\<close>

theorem integer_parsers_exact:
  "ngx_atoi line = dec_number NGX_MAX_INT_T_VALUE line
   \<and> ngx_atosz line = dec_number NGX_MAX_SIZE_T_VALUE line
   \<and> ngx_atoof line = dec_number NGX_MAX_OFF_T_VALUE line
   \<and> ngx_atotm line = dec_number NGX_MAX_TIME_T_VALUE line
   \<and> ngx_hextoi line =
       (if line \<noteq> [] \<and> hex_string line \<and> int (hex_val_from 0 line) \<le> NGX_MAX_INT_T_VALUE
        then int (hex_val_from 0 line) else NGX_ERROR)"
  using hextoi_loop_eq [of 0 line] by (simp add: ato_eqs ngx_hextoi_def)

section \<open>Fixed point\<close>

text \<open>A decimal number with at most one point: its digits, and how many of them follow the point.\<close>

definition fp_syntax :: "byte list \<Rightarrow> bool" where
  "fp_syntax line \<longleftrightarrow> list_all (\<lambda>c. is_digit c \<or> c = b_dot) line \<and> count_list line b_dot \<le> 1"

definition fp_digits :: "byte list \<Rightarrow> byte list" where
  "fp_digits line = filter (\<lambda>c. c \<noteq> b_dot) line"

definition fp_frac :: "byte list \<Rightarrow> nat" where
  "fp_frac line = length (dropWhile (\<lambda>c. c \<noteq> b_dot) line) - 1"

lemma dot_not_digit [simp]: "\<not> is_digit b_dot"
  by (simp add: is_digit_def)

text \<open>After the point only digits remain, and each uses up one of the places.\<close>

lemma atofp_loop_frac:
  "int v \<le> NGX_MAX_INT_T_VALUE \<Longrightarrow> atofp_loop line point True (int v) =
     (if list_all is_digit line \<and> length line \<le> point \<and> int (dec_from v line) \<le> NGX_MAX_INT_T_VALUE
      then Some (int (dec_from v line), point - length line) else None)"
proof (induction line arbitrary: v point)
  case (Cons ch line)
  show ?case
  proof (cases "is_digit ch \<and> point \<noteq> 0")
    case True
    let ?v = "v * 10 + digit_val ch"
    have "ch \<noteq> b_dot" using True dot_not_digit by metis
    then have "atofp_loop (ch # line) point True (int v) =
        (if NGX_MAX_INT_T_VALUE < int ?v then None else atofp_loop line (point - 1) True (int ?v))"
      using digit_cut_iff [of ch _ v] True by simp
    moreover have "NGX_MAX_INT_T_VALUE < int ?v \<Longrightarrow> NGX_MAX_INT_T_VALUE < int (dec_from ?v line)"
      using dec_from_ge [of ?v line] by linarith
    ultimately show ?thesis using Cons.IH [of ?v "point - 1"] True by auto
  qed auto
qed simp

lemma atofp_loop_int:
  "int v \<le> NGX_MAX_INT_T_VALUE \<Longrightarrow> 0 < point \<Longrightarrow> atofp_loop line point False (int v) =
     (if fp_syntax line \<and> fp_frac line \<le> point \<and> int (dec_from v (fp_digits line)) \<le> NGX_MAX_INT_T_VALUE
      then Some (int (dec_from v (fp_digits line)), point - fp_frac line) else None)"
proof (induction line arbitrary: v)
  case (Cons ch line)
  consider (dot) "ch = b_dot" | (digit) "is_digit ch" "ch \<noteq> b_dot" | (bad) "\<not> is_digit ch" "ch \<noteq> b_dot"
    by blast
  then show ?case
  proof cases
    case dot
    have "count_list line b_dot = 0 \<Longrightarrow> filter (\<lambda>c. c \<noteq> b_dot) line = line"
      by (simp add: count_list_0_iff filter_id_conv) (metis)
    moreover have "list_all is_digit line \<longleftrightarrow>
        list_all (\<lambda>c. is_digit c \<or> c = b_dot) line \<and> count_list line b_dot = 0"
      by (auto simp: list_all_iff count_list_0_iff)
    ultimately show ?thesis
      using atofp_loop_frac [of v line point] Cons.prems dot
      by (auto simp: fp_syntax_def fp_digits_def fp_frac_def)
  next
    case digit
    let ?v = "v * 10 + digit_val ch"
    have "atofp_loop (ch # line) point False (int v) =
        (if NGX_MAX_INT_T_VALUE < int ?v then None else atofp_loop line point False (int ?v))"
      using digit_cut_iff [of ch _ v] digit Cons.prems by simp
    moreover have "NGX_MAX_INT_T_VALUE < int ?v \<Longrightarrow> NGX_MAX_INT_T_VALUE < int (dec_from ?v (fp_digits line))"
      using dec_from_ge [of ?v "fp_digits line"] by linarith
    moreover have "fp_syntax (ch # line) = fp_syntax line" "fp_frac (ch # line) = fp_frac line"
        "fp_digits (ch # line) = ch # fp_digits line"
      using digit by (simp_all add: fp_syntax_def fp_frac_def fp_digits_def)
    ultimately show ?thesis using Cons.IH [of ?v] Cons.prems(2) by auto
  next
    case bad
    with Cons.prems show ?thesis by (simp add: fp_syntax_def)
  qed
qed (simp add: fp_syntax_def fp_frac_def fp_digits_def)

lemma atofp_scale_eq:
  "int v \<le> NGX_MAX_INT_T_VALUE \<Longrightarrow> atofp_scale point (int v) =
     (if int (v * 10 ^ point) \<le> NGX_MAX_INT_T_VALUE then int (v * 10 ^ point) else NGX_ERROR)"
proof (induction point arbitrary: v)
  case (Suc point)
  show ?case
  proof (cases "v > 922337203685477580")
    case True
    have "v * 10 * 1 \<le> v * 10 * 10 ^ point" by (rule mult_le_mono2) simp
    with True have "\<not> v * 10 * 10 ^ point \<le> 9223372036854775807" by linarith
    then have "\<not> int (v * 10 ^ Suc point) \<le> 9223372036854775807"
      by (simp only: power_Suc mult.assoc [symmetric])
    with True show ?thesis by (simp del: of_nat_mult power_Suc)
  next
    case False
    with Suc.IH [of "v * 10"] show ?thesis by (simp add: mult.assoc)
  qed
qed simp

text \<open>
  \<open>ngx_atofp(line, n, point)\<close> multiplies exactly. For a positive \<open>point\<close>, a decimal number
  with at most \<open>point\<close> digits after its point is returned as its value times \<open>10\<^sup>p\<^sup>o\<^sup>i\<^sup>n\<^sup>t\<close>, provided
  that this fits \<open>ngx_int_t\<close>; every other argument gives \<open>NGX_ERROR\<close>.
\<close>

theorem atofp_exact:
  "ngx_atofp line point =
     (if line \<noteq> [] \<and> 0 < point \<and> fp_syntax line \<and> fp_frac line \<le> point
        \<and> int (dec_val (fp_digits line) * 10 ^ (point - fp_frac line)) \<le> NGX_MAX_INT_T_VALUE
      then int (dec_val (fp_digits line) * 10 ^ (point - fp_frac line)) else NGX_ERROR)"
proof -
  let ?d = "dec_val (fp_digits line)" and ?p = "10 ^ (point - fp_frac line) :: nat"
  have le: "int ?d \<le> 9223372036854775807" if "int (?d * ?p) \<le> 9223372036854775807"
  proof -
    have "?d * 1 \<le> ?d * ?p" by (rule mult_le_mono2) simp
    with that show ?thesis by linarith
  qed
  show ?thesis
  proof (cases "0 < point")
    case True
    then show ?thesis
      using atofp_loop_int [of 0 point line] atofp_scale_eq [of ?d "point - fp_frac line"] le
      by (auto simp: ngx_atofp_def)
  next
    case False
    then show ?thesis by (cases line) (simp_all add: ngx_atofp_def)
  qed
qed

section \<open>Sizes and offsets denoted\<close>

definition size_number :: "bool \<Rightarrow> int \<Rightarrow> byte list \<Rightarrow> int" where
  "size_number giga mx line =
     (let (ds, k) = (if line = [] then ([], 1)
            else case size_scale giga (last line) of None \<Rightarrow> (line, 1) | Some k \<Rightarrow> (butlast line, k))
      in if ds \<noteq> [] \<and> list_all is_digit ds \<and> int (dec_val ds) * k \<le> mx then int (dec_val ds) * k
         else NGX_ERROR)"

lemma int_le_div_iff: "0 < (k :: int) \<Longrightarrow> v \<le> m div k \<longleftrightarrow> v * k \<le> m"
proof
  assume "0 < k" "v \<le> m div k"
  then have "v * k \<le> m div k * k" by simp
  also have "\<dots> \<le> m" using \<open>0 < k\<close> by (simp add: minus_mod_eq_div_mult [symmetric])
  finally show "v * k \<le> m" .
next
  assume "0 < k" "v * k \<le> m"
  then show "v \<le> m div k" using zdiv_mono1 [of "v * k" m k] by simp
qed

lemma size_scale_pos: "size_scale giga u = Some k \<Longrightarrow> 0 < k"
  by (auto simp: size_scale_def split: if_splits)

lemma scaled_number:
  assumes "0 < k" "0 \<le> mx"
  shows "(if dec_number mx ds = NGX_ERROR \<or> dec_number mx ds > mx div k then NGX_ERROR
          else dec_number mx ds * k)
    = (if ds \<noteq> [] \<and> list_all is_digit ds \<and> int (dec_val ds) * k \<le> mx then int (dec_val ds) * k
       else NGX_ERROR)"
proof -
  have iff: "int v > mx div k \<longleftrightarrow> \<not> int v * k \<le> mx" for v
    using int_le_div_iff [OF assms(1), of "int v" mx] by linarith
  have "int v \<le> int v * k" for v using assms(1) by (simp add: mult_le_cancel_left1)
  then have "int v * k \<le> mx \<Longrightarrow> int v \<le> mx" for v using order_trans by blast
  then show ?thesis by (auto simp: dec_number_def iff)
qed

text \<open>
  Sizes and offsets of the configuration. \<open>ngx_parse_size\<close> and \<open>ngx_parse_offset\<close> return the
  number times the scale of its unit (\<open>k\<close>, \<open>m\<close> or \<open>g\<close>, in either case) exactly when the product
  fits the result type, and \<open>NGX_ERROR\<close> for every other argument; the multiplication cannot
  overflow.
\<close>

theorem sizes_exact:
  "ngx_parse_size sysguard line = size_number sysguard NGX_MAX_SIZE_T_VALUE line
   \<and> ngx_parse_offset line = size_number True NGX_MAX_OFF_T_VALUE line"
  by (auto simp: ngx_parse_size_def ngx_parse_offset_def size_number_def ato_eqs Let_def
      scaled_number [where k = 1, simplified] scaled_number size_scale_pos split: option.splits)

section \<open>Times denoted\<close>

text \<open>
  A time is a sequence of numbers with units in decreasing order, separated by spaces, the last of
  which may lack its unit and then counts seconds. Years and months are only known where the
  result is in seconds, and milliseconds only where it is in milliseconds. A number followed by
  spaces counts as seconds too, provided nothing as fine as seconds came before it.
\<close>

definition time_units :: "bool \<Rightarrow> (byte list \<times> nat \<times> nat) list" where
  "time_units is_sec =
     (let s = (if is_sec then 1 else 1000) in
      (if is_sec then [([121], st_year, 365 * 86400), ([77], st_month, 30 * 86400)]
       else [([109, 115], st_msec, 1)]) @
      [([119], st_week, 7 * 86400 * s), ([100], st_day, 86400 * s), ([104], st_hour, 3600 * s),
       ([109], st_min, 60 * s), ([115], st_sec, s), ([SP], st_last, s)])"

text \<open>\<open>time_terms is_sec r v line t\<close>: after a unit of rank \<open>r\<close> and digits of value \<open>v\<close>, \<open>line\<close>
  stands for the time \<open>t\<close>.\<close>

inductive time_terms :: "bool \<Rightarrow> nat \<Rightarrow> nat \<Rightarrow> byte list \<Rightarrow> nat \<Rightarrow> bool" where
  term_last: "list_all is_digit ds
    \<Longrightarrow> time_terms is_sec r v ds (dec_from v ds * (if is_sec then 1 else 1000))"
| term_unit: "list_all is_digit ds \<Longrightarrow> (u, r', k) \<in> set (time_units is_sec) \<Longrightarrow> r < r'
    \<Longrightarrow> u \<noteq> [SP] \<or> r < st_sec \<Longrightarrow> u \<noteq> [109] \<or> take 1 (sp @ line) \<noteq> [115]
    \<Longrightarrow> list_all (\<lambda>c. c = SP) sp \<Longrightarrow> take 1 line \<noteq> [SP] \<Longrightarrow> time_terms is_sec r' 0 line t
    \<Longrightarrow> time_terms is_sec r v (ds @ u @ sp @ line) (dec_from v ds * k + t)"

function time_den :: "bool \<Rightarrow> nat \<Rightarrow> nat \<Rightarrow> byte list \<Rightarrow> nat option" where
  "time_den is_sec r v [] = Some (v * (if is_sec then 1 else 1000))"
| "time_den is_sec r v (ch # rest) =
     (if is_digit ch then time_den is_sec r (v * 10 + digit_val ch) rest
      else case time_unit is_sec r ch rest of
             None \<Rightarrow> None
           | Some (r', scale, rest') \<Rightarrow>
               map_option (\<lambda>t. v * (nat scale * (if r' \<noteq> st_msec \<and> \<not> is_sec then 1000 else 1)) + t)
                 (time_den is_sec r' 0 (dropWhile (\<lambda>c. c = SP) rest')))"
  by pat_completeness auto
termination
  by (relation "measure (\<lambda>(is_sec, r, v, line). length line)")
    (auto dest!: time_unit_rest intro: le_imp_less_Suc order_trans [OF length_dropWhile_le])

lemma time_unit_scale: "time_unit is_sec r ch rest = Some (r', scale, rest') \<Longrightarrow> 0 < scale"
  by (auto simp: time_unit_def split: if_splits)

lemma time_den_ge: "time_den is_sec r v line = Some t \<Longrightarrow> v \<le> t"
proof (induction is_sec r v line arbitrary: t rule: time_den.induct)
  case (2 is_sec r v ch rest)
  show ?case
  proof (cases "is_digit ch")
    case True
    with 2 have "v * 10 + digit_val ch \<le> t" by simp
    then show ?thesis by linarith
  next
    case False
    with 2(3) obtain r' scale rest' t' where u: "time_unit is_sec r ch rest = Some (r', scale, rest')"
        "t = v * (nat scale * (if r' \<noteq> st_msec \<and> \<not> is_sec then 1000 else 1)) + t'"
      by (auto split: option.splits)
    have "1 \<le> nat scale * (if r' \<noteq> st_msec \<and> \<not> is_sec then 1000 else 1)"
      using time_unit_scale [OF u(1)] by auto
    then have "v * 1 \<le> v * (nat scale * (if r' \<noteq> st_msec \<and> \<not> is_sec then 1000 else 1))"
      by (rule mult_le_mono2)
    with u(2) show ?thesis by linarith
  qed
qed auto

lemma time_add_eq:
  assumes "0 < scale"
  shows "time_add is_sec st scale (int v) (int tot) =
    (let k = nat scale * (if st \<noteq> st_msec \<and> \<not> is_sec then 1000 else 1) in
     if int (tot + v * k) \<le> NGX_MAX_INT_T_VALUE then Some (int (tot + v * k)) else None)"
proof -
  obtain n where n: "scale = int n" "0 < n" using assms by (metis pos_int_cases)
  let ?m = "if st \<noteq> st_msec \<and> \<not> is_sec then 1000 else 1 :: int"
  have "int v \<le> 9223372036854775807 div scale div ?m \<longleftrightarrow> int v * scale * ?m \<le> 9223372036854775807"
    using int_le_div_iff [of ?m "int v"] int_le_div_iff [OF assms, of "int v * ?m"] by (auto simp: ac_simps)
  then show ?thesis
    by (auto simp: time_add_def Let_def n(1) ac_simps linorder_not_le)
qed

lemma time_unit_digits:
  assumes "time_unit is_sec r ch rest = Some (r', scale, rest')"
  shows "list_ex is_digit (dropWhile (\<lambda>c. c = SP) rest') = list_ex is_digit rest"
proof -
  have "\<not> is_digit SP" "\<not> is_digit 115" by (simp_all add: is_digit_def)
  then have "list_ex is_digit (dropWhile (\<lambda>c. c = SP) w) = list_ex is_digit w" for w
    by (induction w) auto
  moreover have "list_ex is_digit rest' = list_ex is_digit rest"
    using assms \<open>\<not> is_digit 115\<close> by (cases rest) (auto simp: time_unit_def split: if_splits)
  ultimately show ?thesis by simp
qed

definition time_result :: "bool \<Rightarrow> nat \<Rightarrow> nat option \<Rightarrow> int" where
  "time_result valid tot den =
     (case den of
        None \<Rightarrow> NGX_ERROR
      | Some t \<Rightarrow> if valid \<and> int (tot + t) \<le> NGX_MAX_INT_T_VALUE then int (tot + t) else NGX_ERROR)"

lemma time_finish_eq:
  "time_finish is_sec valid (int v) (int tot) = time_result valid tot (Some (v * (if is_sec then 1 else 1000)))"
  by (auto simp: time_finish_def time_result_def Let_def)

lemma time_result_shift:
  "int (tot + k) \<le> NGX_MAX_INT_T_VALUE
     \<Longrightarrow> time_result valid (tot + k) den = time_result valid tot (map_option (\<lambda>t. k + t) den)"
  by (cases den) (auto simp: time_result_def)

lemma time_result_over:
  "\<not> int (tot + k) \<le> NGX_MAX_INT_T_VALUE \<Longrightarrow> (\<And>t. den = Some t \<Longrightarrow> k \<le> t)
     \<Longrightarrow> time_result valid tot den = NGX_ERROR"
  by (cases den) (auto simp: time_result_def)

lemma parse_time_loop_eq:
  "int v \<le> NGX_MAX_INT_T_VALUE \<Longrightarrow>
     parse_time_loop is_sec line step valid (int v) (int tot)
       = time_result (valid \<or> list_ex is_digit line) tot (time_den is_sec step v line)"
proof (induction "length line" arbitrary: line step valid v tot rule: less_induct)
  case less
  show ?case
  proof (cases line)
    case Nil
    then show ?thesis by (simp add: time_finish_eq)
  next
    case (Cons ch rest)
    show ?thesis
    proof (cases "is_digit ch")
      case True
      let ?v = "v * 10 + digit_val ch"
      have loop: "parse_time_loop is_sec line step valid (int v) (int tot) =
          (if NGX_MAX_INT_T_VALUE < int ?v then NGX_ERROR
           else parse_time_loop is_sec rest step True (int ?v) (int tot))"
        using digit_cut_iff [OF True, of _ v] True by (simp add: Cons)
      show ?thesis
      proof (cases "NGX_MAX_INT_T_VALUE < int ?v")
        case over: True
        then show ?thesis
          using time_result_over [of tot ?v "time_den is_sec step ?v rest" "valid \<or> list_ex is_digit line"]
            time_den_ge [of is_sec step ?v rest] loop True by (simp add: Cons)
      next
        case False
        then show ?thesis using less.hyps [of rest ?v step True tot] loop True by (simp add: Cons)
      qed
    next
      case False
      show ?thesis
      proof (cases "time_unit is_sec step ch rest")
        case None
        with False show ?thesis by (simp add: Cons time_result_def)
      next
        case (Some x)
        then obtain r' scale rest' where u: "time_unit is_sec step ch rest = Some (r', scale, rest')"
          by (cases x) auto
        define k where "k = nat scale * (if r' \<noteq> st_msec \<and> \<not> is_sec then 1000 else 1)"
        let ?w = "dropWhile (\<lambda>c. c = SP) rest'"
        have den: "time_den is_sec step v line = map_option (\<lambda>t. v * k + t) (time_den is_sec r' 0 ?w)"
          using False u by (simp add: Cons k_def)
        have add: "time_add is_sec r' scale (int v) (int tot) =
            (if int (tot + v * k) \<le> NGX_MAX_INT_T_VALUE then Some (int (tot + v * k)) else None)"
          using time_add_eq [OF time_unit_scale [OF u], of is_sec r' v tot] by (simp add: k_def Let_def)
        show ?thesis
        proof (cases "int (tot + v * k) \<le> NGX_MAX_INT_T_VALUE")
          case True
          have "length ?w < length line"
            using time_unit_rest [OF u] length_dropWhile_le [of "\<lambda>c. c = SP" rest'] by (simp add: Cons)
          then have "parse_time_loop is_sec ?w r' valid (int 0) (int (tot + v * k))
              = time_result (valid \<or> list_ex is_digit ?w) (tot + v * k) (time_den is_sec r' 0 ?w)"
            by (rule less.hyps) simp
          moreover have "list_ex is_digit ?w = list_ex is_digit line"
            using time_unit_digits [OF u] False by (simp add: Cons)
          moreover have "parse_time_loop is_sec line step valid (int v) (int tot)
              = parse_time_loop is_sec ?w r' valid (int 0) (int (tot + v * k))"
            using False u add True by (simp add: Cons)
          ultimately show ?thesis using time_result_shift [OF True] den by simp
        next
          case over: False
          have "parse_time_loop is_sec line step valid (int v) (int tot) = NGX_ERROR"
            using False u add over by (simp add: Cons)
          moreover have "time_result w tot (time_den is_sec step v line) = NGX_ERROR" for w
            by (rule time_result_over [OF over]) (auto simp: den)
          ultimately show ?thesis by simp
        qed
      qed
    qed
  qed
qed

text \<open>The denotation and the grammar agree.\<close>

lemma time_den_digits:
  "list_all is_digit ds \<Longrightarrow> time_den is_sec r v (ds @ w) = time_den is_sec r (dec_from v ds) w"
  by (induction ds arbitrary: v) simp_all

lemma time_terms_digit:
  assumes "is_digit ch" "time_terms is_sec r (v * 10 + digit_val ch) line t"
  shows "time_terms is_sec r v (ch # line) t"
  using assms(2)
proof cases
  case (term_last)
  then show ?thesis
    using time_terms.term_last [of "ch # line" is_sec r v] assms(1) by simp
next
  case (term_unit ds u r' k sp l t')
  then show ?thesis
    using time_terms.term_unit [of "ch # ds" u r' k is_sec r sp l t' v] assms(1) by simp
qed

lemma time_unit_grammar:
  assumes "time_unit is_sec r ch rest = Some (r', scale, rest')" "is_sec \<or> st_month \<le> r"
  shows "\<exists>u. ch # rest = u @ rest' \<and> r < r' \<and> (u \<noteq> [SP] \<or> r < st_sec)
    \<and> (u, r', nat scale * (if r' \<noteq> st_msec \<and> \<not> is_sec then 1000 else 1)) \<in> set (time_units is_sec)
    \<and> (u \<noteq> [109] \<or> take 1 rest' \<noteq> [115])"
proof -
  have two: "rest \<noteq> [] \<and> hd rest = 115 \<Longrightarrow> 109 # rest = [109, 115] @ tl rest" by (cases rest) auto
  show ?thesis
    using assms two
    by (cases rest') (auto simp: time_unit_def time_units_def Let_def take_Suc split: if_splits)
qed

lemma time_den_terms:
  "time_den is_sec r v line = Some t \<Longrightarrow> is_sec \<or> st_month \<le> r \<Longrightarrow> time_terms is_sec r v line t"
proof (induction is_sec r v line arbitrary: t rule: time_den.induct)
  case (1 is_sec r v)
  then show ?case using term_last [of "[]" is_sec r v] by simp
next
  case (2 is_sec r v ch rest)
  show ?case
  proof (cases "is_digit ch")
    case True
    with 2 show ?thesis by (simp add: time_terms_digit)
  next
    case False
    let ?k = "\<lambda>r' scale. nat scale * (if r' \<noteq> st_msec \<and> \<not> is_sec then 1000 else 1)"
    from False 2(3) obtain r' scale rest' t' where
      u: "time_unit is_sec r ch rest = Some (r', scale, rest')" and
      t': "time_den is_sec r' 0 (dropWhile (\<lambda>c. c = SP) rest') = Some t'" and
      t: "t = v * ?k r' scale + t'"
      by (auto split: option.splits)
    from time_unit_grammar [OF u 2(4)] obtain u where
      g: "ch # rest = u @ rest'" "r < r'" "u \<noteq> [SP] \<or> r < st_sec"
        "(u, r', ?k r' scale) \<in> set (time_units is_sec)" "u \<noteq> [109] \<or> take 1 rest' \<noteq> [115]"
      by blast
    let ?sp = "takeWhile (\<lambda>c. c = SP) rest'" and ?w = "dropWhile (\<lambda>c. c = SP) rest'"
    have "time_terms is_sec r' 0 ?w t'"
      using 2(2) [OF False u refl refl t'] 2(4) g(2) by auto
    moreover have "take 1 ?w \<noteq> [SP]"
      by (induction rest') auto
    moreover have "list_all (\<lambda>c. c = SP) ?sp"
      by (auto simp: list_all_iff dest: set_takeWhileD)
    ultimately have "time_terms is_sec r v ([] @ u @ ?sp @ ?w) (dec_from v [] * ?k r' scale + t')"
      using g by (intro term_unit) auto
    then show ?thesis using g(1) t by simp
  qed
qed

lemma time_units_parse:
  assumes "(u, r', k) \<in> set (time_units is_sec)" "r < r'" "u \<noteq> [SP] \<or> r < st_sec"
    and "u \<noteq> [109] \<or> take 1 w \<noteq> [115]"
  shows "u \<noteq> [] \<and> \<not> is_digit (hd u) \<and> (\<exists>scale. time_unit is_sec r (hd u) (tl u @ w) = Some (r', scale, w)
    \<and> k = nat scale * (if r' \<noteq> st_msec \<and> \<not> is_sec then 1000 else 1))"
proof -
  have m: "u = [109] \<Longrightarrow> \<not> (w \<noteq> [] \<and> hd w = 115)" using assms(4) by (cases w) auto
  have "(u, r', k) \<in> set (time_units True) \<or> (u, r', k) \<in> set (time_units False)"
    using assms(1) by (cases is_sec) auto
  then have "u \<noteq> [] \<and> \<not> is_digit (hd u)"
    by (auto simp: time_units_def is_digit_def)
  moreover have "\<exists>scale. time_unit is_sec r (hd u) (tl u @ w) = Some (r', scale, w)
    \<and> k = nat scale * (if r' \<noteq> st_msec \<and> \<not> is_sec then 1000 else 1)"
    using assms(1-3) m
    by (cases is_sec; simp add: time_units_def; elim disjE; simp add: time_unit_def)
  ultimately show ?thesis by blast
qed

lemma time_terms_den: "time_terms is_sec r v line t \<Longrightarrow> time_den is_sec r v line = Some t"
proof (induction rule: time_terms.induct)
  case (term_last ds is_sec r v)
  then show ?case using time_den_digits [of ds is_sec r v "[]"] by simp
next
  case (term_unit ds u r' k is_sec r sp line t v)
  obtain scale where u: "u \<noteq> []" "\<not> is_digit (hd u)"
      "time_unit is_sec r (hd u) (tl u @ sp @ line) = Some (r', scale, sp @ line)"
      "k = nat scale * (if r' \<noteq> st_msec \<and> \<not> is_sec then 1000 else 1)"
    using time_units_parse [OF term_unit(2-4), of "sp @ line"] term_unit(5) by blast
  have hd: "u @ sp @ line = hd u # tl u @ sp @ line" using u(1) by simp
  have "dropWhile (\<lambda>c. c = SP) (sp @ line) = line"
    using term_unit(6,7) by (cases line) (auto simp: list_all_iff dropWhile_append)
  then have "time_den is_sec r (dec_from v ds) (u @ sp @ line) = Some (dec_from v ds * k + t)"
    unfolding hd using u(2-4) term_unit.IH by simp
  then show ?case using time_den_digits [OF term_unit(1)] by metis
qed

text \<open>
  C30: Times of the configuration. \<open>ngx_parse_time\<close> accepts exactly the sequences of numbers with
  units in decreasing order (years to seconds, or weeks to milliseconds) that contain a digit and
  whose sum fits \<open>ngx_int_t\<close>, and returns that sum, in seconds or in milliseconds; none of its
  multiplications and additions overflows.
\<close>

theorem parse_time_exact:
  "ngx_parse_time line is_sec = res \<and> res \<noteq> NGX_ERROR \<longleftrightarrow>
     (\<exists>t. time_terms is_sec (if is_sec then st_start else st_month) 0 line t \<and> list_ex is_digit line
        \<and> int t \<le> NGX_MAX_INT_T_VALUE \<and> res = int t)"
proof -
  let ?r = "if is_sec then st_start else st_month"
  have "time_terms is_sec ?r 0 line t \<longleftrightarrow> time_den is_sec ?r 0 line = Some t" for t
    using time_den_terms [of is_sec ?r 0 line t] time_terms_den [of is_sec ?r 0 line t] by auto
  moreover have "ngx_parse_time line is_sec
      = time_result (list_ex is_digit line) 0 (time_den is_sec ?r 0 line)"
    using parse_time_loop_eq [of 0 is_sec line ?r False 0] by (simp add: ngx_parse_time_def)
  ultimately show ?thesis by (auto simp: time_result_def split: option.splits)
qed

section \<open>A number without a cutoff\<close>

lemma atoll_loop_eq:
  "v < 2 ^ 63 \<Longrightarrow> atoll_loop line (int v) =
     (if 2 ^ 63 \<le> dec_from v (takeWhile is_digit line) then LL_undefined
      else LL_value (if list_all is_digit line then int (dec_from v line) else NGX_ERROR))"
proof (induction line arbitrary: v)
  case (Cons ch line)
  let ?v = "v * 10 + digit_val ch"
  have v: "int v * 10 + int (digit_val ch) = int ?v" by simp
  show ?case
  proof (cases "is_digit ch \<and> ?v < 2 ^ 63")
    case True
    then have "atoll_loop (ch # line) (int v) = atoll_loop line (int ?v)"
      unfolding atoll_loop.simps v by (simp del: of_nat_add of_nat_mult)
    with True Cons.IH [of ?v] show ?thesis by (simp add: dec_from_def)
  next
    case False
    have "2 ^ 63 \<le> dec_from ?v (takeWhile is_digit line)" if "2 ^ 63 \<le> ?v"
      using that dec_from_ge [of ?v "takeWhile is_digit line"] by (rule le_trans)
    with False Cons.prems show ?thesis
      unfolding atoll_loop.simps v by (auto simp: dec_from_def simp del: of_nat_add of_nat_mult)
  qed
qed (simp add: dec_from_def)

text \<open>
  C33: \<open>ngx_atoll\<close> is exact below \<open>2\<^sup>6\<^sup>3\<close> and unprotected above. Unlike the other decimal parsers it
  has no cutoff: if the digits at the start of the argument denote \<open>2\<^sup>6\<^sup>3\<close> or more, its signed
  arithmetic overflows, which is undefined, even if a later byte would make the argument invalid. In
  every other case it returns the number that a non-empty string of digits denotes, and \<open>NGX_ERROR\<close>
  for anything else.
\<close>

theorem atoll_exact_or_undefined:
  "ngx_atoll line =
     (if 2 ^ 63 \<le> dec_val (takeWhile is_digit line) then LL_undefined
      else LL_value (if line \<noteq> [] \<and> list_all is_digit line then int (dec_val line) else NGX_ERROR))"
  using atoll_loop_eq [of 0 line] by (cases line) (simp_all add: ngx_atoll_def dec_from_def)

end
