(* ===== verification/Ngx_Escape.thy ===== *)
theory Ngx_Escape
  imports Ngx_Prelude
begin

text \<open>
  Escaping, from \<open>src/core/ngx_string.c\<close>: percent-encoding and its inverse, the HTML and JSON
  escapes and the hexadecimal dump. The lemmas show that escaping loses nothing, that the length
  computed in the counting pass is exactly the room the writing pass needs, and that unescaping
  never produces more than it consumes, so that it may work in place.
\<close>

section \<open>Percent-encoding\<close>

text \<open>The bitmaps of \<open>ngx_escape_uri\<close>, one word for 32 bytes, and \<open>map[]\<close> and \<open>map_char[]\<close>.\<close>

definition escape_maps :: "u32 list list" where
  "escape_maps =
     [[0xffffffff, 0xd000002d, 0x50000000, 0xb8000001, 0xffffffff, 0xffffffff, 0xffffffff, 0xffffffff],
      [0xffffffff, 0xd800086d, 0x50000000, 0xb8000001, 0xffffffff, 0xffffffff, 0xffffffff, 0xffffffff],
      [0xffffffff, 0xfc009fff, 0x78000001, 0xb8000001, 0xffffffff, 0xffffffff, 0xffffffff, 0xffffffff],
      [0xffffffff, 0x500000ad, 0x50000000, 0xb8000001, 0xffffffff, 0xffffffff, 0xffffffff, 0xffffffff],
      [0xffffffff, 0x50000085, 0x50000000, 0xd8000001, 0xffffffff, 0xffffffff, 0xffffffff, 0xffffffff],
      [0xffffffff, 0x00000021, 0x00000000, 0x00000000, 0x00000000, 0x00000000, 0x00000000, 0x00000000],
      [0xffffffff, 0x00000021, 0x00000000, 0x00000000, 0x00000000, 0x00000000, 0x00000000, 0x00000000],
      [0xffffffff, 0x20000801, 0x00000000, 0x80000000, 0xffffffff, 0xffffffff, 0xffffffff, 0xffffffff],
      [0xffffffff, 0xfc009ffe, 0x78000001, 0xf8000001, 0xffffffff, 0xffffffff, 0xffffffff, 0xffffffff]]"

definition map_char :: "byte list" where
  "map_char = [b_pct, b_pct, b_pct, b_pct, b_pct, b_pct, b_pct, b_plus, b_pct]"

abbreviation (input) NGX_ESCAPE_URI :: nat where "NGX_ESCAPE_URI \<equiv> 0"
abbreviation (input) NGX_ESCAPE_ARGS :: nat where "NGX_ESCAPE_ARGS \<equiv> 1"
abbreviation (input) NGX_ESCAPE_URI_COMPONENT :: nat where "NGX_ESCAPE_URI_COMPONENT \<equiv> 2"
abbreviation (input) NGX_ESCAPE_HTML :: nat where "NGX_ESCAPE_HTML \<equiv> 3"
abbreviation (input) NGX_ESCAPE_REFRESH :: nat where "NGX_ESCAPE_REFRESH \<equiv> 4"
abbreviation (input) NGX_ESCAPE_MEMCACHED :: nat where "NGX_ESCAPE_MEMCACHED \<equiv> 5"
abbreviation (input) NGX_ESCAPE_MAIL_AUTH :: nat where "NGX_ESCAPE_MAIL_AUTH \<equiv> 6"
abbreviation (input) NGX_ESCAPE_MAIL_XTEXT :: nat where "NGX_ESCAPE_MAIL_XTEXT \<equiv> 7"
abbreviation (input) NGX_ESCAPE_WWW_FORM :: nat where "NGX_ESCAPE_WWW_FORM \<equiv> 8"

text \<open>The test \<open>escape[*src >> 5] & (1U << (*src & 0x1f))\<close>.\<close>

definition escaped :: "nat \<Rightarrow> byte \<Rightarrow> bool" where
  "escaped ty ch \<longleftrightarrow>
     escape_maps ! ty ! unat (drop_bit 5 ch) AND push_bit (unat (ch AND 0x1f)) 1 \<noteq> 0"

definition hex_upper :: "byte list" where
  "hex_upper = [48, 49, 50, 51, 52, 53, 54, 55, 56, 57, 65, 66, 67, 68, 69, 70]"

text \<open>The two passes: \<open>dst == NULL\<close> counts the bytes to be escaped, otherwise they are written.\<close>

fun ngx_escape_uri_count :: "nat \<Rightarrow> byte list \<Rightarrow> nat" where
  "ngx_escape_uri_count ty [] = 0"
| "ngx_escape_uri_count ty (ch # src) =
     (if escaped ty ch then 1 else 0) + ngx_escape_uri_count ty src"

fun ngx_escape_uri :: "nat \<Rightarrow> byte list \<Rightarrow> byte list" where
  "ngx_escape_uri ty [] = []"
| "ngx_escape_uri ty (ch # src) =
     (if escaped ty ch
      then [map_char ! ty, hex_upper ! unat (drop_bit 4 ch), hex_upper ! unat (ch AND 0xf)]
      else if ty = NGX_ESCAPE_WWW_FORM \<and> ch = SP then [b_plus]
      else [ch]) @ ngx_escape_uri ty src"

text \<open>\<open>ngx_unescape_uri\<close>. The state after the first hexadecimal digit holds \<open>decoded\<close> and that
  digit, which the redirect mode copies from \<open>s - 2\<close>. The result is what was written and what is
  left of the source after \<open>goto done\<close>.\<close>

datatype unescape_state = sw_usual | sw_quoted | sw_quoted_second byte byte

abbreviation (input) NGX_UNESCAPE_URI :: u64 where "NGX_UNESCAPE_URI \<equiv> 1"
abbreviation (input) NGX_UNESCAPE_REDIRECT :: u64 where "NGX_UNESCAPE_REDIRECT \<equiv> 2"
abbreviation (input) NGX_UNESCAPE_WWW_FORM :: u64 where "NGX_UNESCAPE_WWW_FORM \<equiv> 4"

definition unescape_usual :: "u64 \<Rightarrow> byte \<Rightarrow> byte list \<times> unescape_state option" where
  "unescape_usual ty ch =
     (if ch = b_plus \<and> ty AND NGX_UNESCAPE_WWW_FORM \<noteq> 0 then ([SP], Some sw_usual)
      else if ch = b_qm \<and> ty AND (NGX_UNESCAPE_URI OR NGX_UNESCAPE_REDIRECT) \<noteq> 0 then ([ch], None)
      else if ch = b_pct then ([], Some sw_quoted)
      else ([ch], Some sw_usual))"

definition unescape_quoted :: "byte \<Rightarrow> byte list \<times> unescape_state option" where
  "unescape_quoted ch =
     (let c = ch OR 0x20 in
      if is_digit ch then ([], Some (sw_quoted_second (ch - b_0) ch))
      else if b_a \<le> c \<and> c \<le> b_f then ([], Some (sw_quoted_second (c - b_a + 10) ch))
      else ([ch], Some sw_usual))"

definition unescape_redirect :: "byte \<Rightarrow> byte \<Rightarrow> byte \<Rightarrow> byte list" where
  "unescape_redirect first second ch =
     (if ch > b_pct \<and> ch < DEL then [ch] else [b_pct, first, second])"

definition unescape_second :: "u64 \<Rightarrow> byte \<Rightarrow> byte \<Rightarrow> byte \<Rightarrow> byte list \<times> unescape_state option" where
  "unescape_second ty decoded first second =
     (let c = second OR 0x20 in
      if is_digit second then
        (let ch = push_bit 4 decoded + (second - b_0) in
         if ty AND NGX_UNESCAPE_REDIRECT \<noteq> 0 then (unescape_redirect first second ch, Some sw_usual)
         else ([ch], Some sw_usual))
      else if b_a \<le> c \<and> c \<le> b_f then
        (let ch = push_bit 4 decoded + (c - b_a) + 10 in
         if ty AND NGX_UNESCAPE_URI \<noteq> 0 then (if ch = b_qm then ([ch], None) else ([ch], Some sw_usual))
         else if ty AND NGX_UNESCAPE_REDIRECT \<noteq> 0 then
           (if ch = b_qm then ([ch], None) else (unescape_redirect first second ch, Some sw_usual))
         else ([ch], Some sw_usual))
      else ([], Some sw_usual))"

definition unescape_step :: "u64 \<Rightarrow> unescape_state \<Rightarrow> byte \<Rightarrow> byte list \<times> unescape_state option" where
  "unescape_step ty state ch =
     (case state of
        sw_usual \<Rightarrow> unescape_usual ty ch
      | sw_quoted \<Rightarrow> unescape_quoted ch
      | sw_quoted_second decoded first \<Rightarrow> unescape_second ty decoded first ch)"

fun unescape_loop :: "u64 \<Rightarrow> unescape_state \<Rightarrow> byte list \<Rightarrow> byte list \<times> byte list" where
  "unescape_loop ty state [] = ([], [])"
| "unescape_loop ty state (ch # src) =
     (case unescape_step ty state ch of
        (d, None) \<Rightarrow> (d, src)
      | (d, Some state') \<Rightarrow> apfst (append d) (unescape_loop ty state' src))"

definition ngx_unescape_uri :: "u64 \<Rightarrow> byte list \<Rightarrow> byte list \<times> byte list" where
  "ngx_unescape_uri ty src = unescape_loop ty sw_usual src"

section \<open>HTML, JSON and hexadecimal\<close>

fun ngx_escape_html_count :: "byte list \<Rightarrow> nat" where
  "ngx_escape_html_count [] = 0"
| "ngx_escape_html_count (ch # src) =
     (if ch = 60 then 3 else if ch = 62 then 3 else if ch = 38 then 4 else if ch = 34 then 5 else 0)
       + ngx_escape_html_count src"

fun ngx_escape_html :: "byte list \<Rightarrow> byte list" where
  "ngx_escape_html [] = []"
| "ngx_escape_html (ch # src) =
     (if ch = 60 then [38, 108, 116, 59]
      else if ch = 62 then [38, 103, 116, 59]
      else if ch = 38 then [38, 97, 109, 112, 59]
      else if ch = 34 then [38, 113, 117, 111, 116, 59]
      else [ch]) @ ngx_escape_html src"

definition json_short :: "byte \<Rightarrow> byte option" where
  "json_short ch =
     (if ch = LF then Some 110 else if ch = CR then Some 114 else if ch = TAB then Some 116
      else if ch = 8 then Some 98 else if ch = 12 then Some 102 else None)"

fun ngx_escape_json_count :: "byte list \<Rightarrow> nat" where
  "ngx_escape_json_count [] = 0"
| "ngx_escape_json_count (ch # src) =
     (if ch = 92 \<or> ch = 34 then 1
      else if ch \<le> 0x1f then (if json_short ch \<noteq> None then 1 else 5)
      else 0) + ngx_escape_json_count src"

fun ngx_escape_json :: "byte list \<Rightarrow> byte list" where
  "ngx_escape_json [] = []"
| "ngx_escape_json (ch # src) =
     (if ch > 0x1f then (if ch = 92 \<or> ch = 34 then [92, ch] else [ch])
      else case json_short ch of
             Some c \<Rightarrow> [92, c]
           | None \<Rightarrow> [92, 117, 48, 48, 48 + drop_bit 4 ch,
               if ch AND 0xf < 10 then 48 + (ch AND 0xf) else 65 + (ch AND 0xf) - 10])
     @ ngx_escape_json src"

definition hex_lower :: "byte list" where
  "hex_lower = [48, 49, 50, 51, 52, 53, 54, 55, 56, 57, 97, 98, 99, 100, 101, 102]"

fun ngx_hex_dump :: "byte list \<Rightarrow> byte list" where
  "ngx_hex_dump [] = []"
| "ngx_hex_dump (ch # src) =
     [hex_lower ! unat (drop_bit 4 ch), hex_lower ! unat (ch AND 0xf)] @ ngx_hex_dump src"

section \<open>Escaping loses nothing\<close>

lemma nibble_less: "unat (drop_bit 4 (ch :: byte)) < 16" "unat (ch AND 0xf) < 16"
proof -
  have "unat (drop_bit 4 ch) = unat ch div 16" by (simp add: drop_bit_eq_div unat_div)
  then show "unat (drop_bit 4 ch) < 16" using unat_byte_less [of ch] by simp
  have "ch AND 0xf = take_bit 4 ch" by (simp add: take_bit_eq_mask mask_eq_exp_minus_1)
  then have "unat (ch AND 0xf) = unat ch mod 16" by (simp add: take_bit_eq_mod unat_mod)
  then show "unat (ch AND 0xf) < 16" by simp
qed

lemma nibbles: "push_bit 4 (drop_bit 4 ch) + (ch AND 0xf) = (ch :: byte)"
proof -
  have "ch AND 0xf = take_bit 4 ch" by (simp add: take_bit_eq_mask mask_eq_exp_minus_1)
  then show ?thesis by (metis bits_ident)
qed

lemma less_16_cases:
  "(n :: nat) < 16 \<Longrightarrow> n = 0 \<or> n = 1 \<or> n = 2 \<or> n = 3 \<or> n = 4 \<or> n = 5 \<or> n = 6 \<or> n = 7 \<or> n = 8
     \<or> n = 9 \<or> n = 10 \<or> n = 11 \<or> n = 12 \<or> n = 13 \<or> n = 14 \<or> n = 15"
  by presburger

lemma hex_upper_first:
  "n < 16 \<Longrightarrow> unescape_quoted (hex_upper ! n) = ([], Some (sw_quoted_second (of_nat n) (hex_upper ! n)))"
  by (drule less_16_cases; elim disjE; simp add: unescape_quoted_def hex_upper_def is_digit_def)

lemma hex_upper_second:
  "n < 16 \<Longrightarrow> ty AND NGX_UNESCAPE_URI = 0 \<Longrightarrow> ty AND NGX_UNESCAPE_REDIRECT = 0
     \<Longrightarrow> unescape_second ty decoded first (hex_upper ! n) = ([push_bit 4 decoded + of_nat n], Some sw_usual)"
  by (drule less_16_cases; elim disjE; simp add: unescape_second_def hex_upper_def is_digit_def)

lemma unescape_pct:
  assumes "ty AND NGX_UNESCAPE_URI = 0" "ty AND NGX_UNESCAPE_REDIRECT = 0"
  shows "unescape_loop ty sw_usual
      (b_pct # hex_upper ! unat (drop_bit 4 ch) # hex_upper ! unat (ch AND 0xf) # src)
    = apfst (Cons ch) (unescape_loop ty sw_usual src)"
  using assms nibble_less [of ch] nibbles [of ch]
  by (cases "unescape_loop ty sw_usual src")
    (simp add: unescape_step_def unescape_usual_def hex_upper_first hex_upper_second)

lemma escaped_special:
  "escaped ty b_pct" if "ty \<in> {NGX_ESCAPE_URI, NGX_ESCAPE_ARGS, NGX_ESCAPE_URI_COMPONENT, NGX_ESCAPE_HTML,
      NGX_ESCAPE_MEMCACHED, NGX_ESCAPE_MAIL_AUTH, NGX_ESCAPE_WWW_FORM}"
  using that by (auto simp: escaped_def escape_maps_def)

lemma escaped_form: "escaped NGX_ESCAPE_WWW_FORM b_plus" "\<not> escaped NGX_ESCAPE_WWW_FORM SP"
  by (simp_all add: escaped_def escape_maps_def)

text \<open>
  C24: Percent-encoding loses nothing. For every kind of escape that escapes the percent sign (all
  but \<open>NGX_ESCAPE_REFRESH\<close> and \<open>NGX_ESCAPE_MAIL_XTEXT\<close>), unescaping what \<open>ngx_escape_uri\<close> wrote
  gives back the source, byte for byte; for the form encoding, unescaping it as a form.
\<close>

theorem escape_uri_roundtrip:
  assumes "ty \<in> {NGX_ESCAPE_URI, NGX_ESCAPE_ARGS, NGX_ESCAPE_URI_COMPONENT, NGX_ESCAPE_HTML,
      NGX_ESCAPE_MEMCACHED, NGX_ESCAPE_MAIL_AUTH, NGX_ESCAPE_WWW_FORM}"
  shows "ngx_unescape_uri (if ty = NGX_ESCAPE_WWW_FORM then NGX_UNESCAPE_WWW_FORM else 0)
    (ngx_escape_uri ty src) = (src, [])"
proof (induction src)
  case (Cons ch src)
  let ?f = "if ty = NGX_ESCAPE_WWW_FORM then NGX_UNESCAPE_WWW_FORM else 0 :: u64"
  have f: "?f AND NGX_UNESCAPE_URI = 0" "?f AND NGX_UNESCAPE_REDIRECT = 0"
      "?f AND (NGX_UNESCAPE_URI OR NGX_UNESCAPE_REDIRECT) = 0"
    by simp_all
  have "map_char ! ty = b_pct" using assms by (auto simp: map_char_def)
  show ?case
  proof (cases "escaped ty ch")
    case True
    then show ?thesis
      using Cons.IH unescape_pct [OF f(1,2), of ch "ngx_escape_uri ty src"] \<open>map_char ! ty = b_pct\<close>
      by (simp add: ngx_unescape_uri_def del: unescape_loop.simps)
  next
    case False
    then have "ch \<noteq> b_pct" using escaped_special [OF assms] by auto
    moreover have "ty = NGX_ESCAPE_WWW_FORM \<Longrightarrow> ch \<noteq> b_plus" using False escaped_form by auto
    ultimately show ?thesis
      using Cons.IH False f(3) by (auto simp: ngx_unescape_uri_def unescape_step_def unescape_usual_def)
  qed
qed (simp add: ngx_unescape_uri_def)

text \<open>The argument \<open>a b&%\<close> becomes \<open>a+b%26%25\<close> in a form, and comes back.\<close>

theorem escape_uri_roundtrip_witness:
  "ngx_escape_uri NGX_ESCAPE_WWW_FORM [97, 32, 98, 38, 37] = [97, 43, 98, 37, 50, 54, 37, 50, 53]
   \<and> ngx_unescape_uri NGX_UNESCAPE_WWW_FORM [97, 43, 98, 37, 50, 54, 37, 50, 53]
       = ([97, 32, 98, 38, 37], [])"
proof -
  have "ngx_escape_uri NGX_ESCAPE_WWW_FORM [97, 32, 98, 38, 37] = [97, 43, 98, 37, 50, 54, 37, 50, 53]"
    by (simp add: escaped_def escape_maps_def map_char_def hex_upper_def)
  then show ?thesis
    using escape_uri_roundtrip [of NGX_ESCAPE_WWW_FORM "[97, 32, 98, 38, 37]"] by simp
qed

section \<open>Lengths\<close>

text \<open>What a state has consumed and not yet written.\<close>

fun unescape_pending :: "unescape_state \<Rightarrow> nat" where
  "unescape_pending sw_usual = 0"
| "unescape_pending sw_quoted = 1"
| "unescape_pending (sw_quoted_second decoded first) = 2"

lemma unescape_step_length:
  "unescape_step ty state ch = (d, Some state')
     \<Longrightarrow> length d + unescape_pending state' \<le> unescape_pending state + 1"
  "unescape_step ty state ch = (d, None) \<Longrightarrow> length d \<le> unescape_pending state + 1"
  by (cases state; auto simp: unescape_step_def unescape_usual_def unescape_quoted_def
      unescape_second_def unescape_redirect_def Let_def split: if_splits)+

lemma unescape_loop_length:
  "unescape_loop ty state src = (d, rest)
     \<Longrightarrow> length d + length rest \<le> unescape_pending state + length src"
proof (induction src arbitrary: state d)
  case (Cons ch src)
  obtain e next_state where st: "unescape_step ty state ch = (e, next_state)" by fastforce
  show ?case
  proof (cases next_state)
    case None
    with Cons.prems st unescape_step_length(2) [of ty state ch e] show ?thesis by auto
  next
    case (Some state')
    then obtain d' where "unescape_loop ty state' src = (d', rest)" "d = e @ d'"
      using Cons.prems st by (auto simp: apfst_def map_prod_def split: prod.splits)
    with Cons.IH [of state' d'] unescape_step_length(1) [of ty state ch e state'] st Some
    show ?thesis by auto
  qed
qed simp

text \<open>
  C35: Escaping and unescaping stay within their buffers. Callers allocate \<open>len + 2 * n\<close> bytes for a
  URI and \<open>len + n\<close> for HTML and JSON, with \<open>n\<close> from the call with a null destination, and the
  writing pass fills exactly that many bytes. \<open>ngx_unescape_uri\<close>, whatever its flags, writes at
  most as many bytes as it has read, so that it may unescape in place, as its callers do.
\<close>

theorem escape_lengths:
  "length (ngx_escape_uri ty src) = length src + 2 * ngx_escape_uri_count ty src
   \<and> length (ngx_escape_html src) = length src + ngx_escape_html_count src
   \<and> length (ngx_escape_json src) = length src + ngx_escape_json_count src
   \<and> length (fst (ngx_unescape_uri fl src)) + length (snd (ngx_unescape_uri fl src)) \<le> length src"
proof -
  have "length (ngx_escape_json src) = length src + ngx_escape_json_count src"
  proof (induction src)
    case (Cons ch src)
    show ?case
    proof (cases "ch \<le> 0x1f")
      case True
      then have "ch \<noteq> 92" "ch \<noteq> 34" by auto
      with True Cons show ?thesis by (simp add: not_less split: option.splits)
    next
      case False
      then have "0x1f < ch" "\<not> ch \<le> 0x1f" by simp_all
      with Cons show ?thesis by simp
    qed
  qed simp
  moreover have "length (ngx_escape_uri ty src) = length src + 2 * ngx_escape_uri_count ty src"
    by (induction src) simp_all
  moreover have "length (ngx_escape_html src) = length src + ngx_escape_html_count src"
    by (induction src) simp_all
  moreover have "length (fst (ngx_unescape_uri fl src)) + length (snd (ngx_unescape_uri fl src)) \<le> length src"
    using unescape_loop_length [of fl sw_usual src] by (simp add: ngx_unescape_uri_def)
  ultimately show ?thesis by blast
qed

section \<open>What escaping leaves in the output\<close>

lemma hex_upper_not_escaped: "ty < 9 \<Longrightarrow> n < 16 \<Longrightarrow> \<not> escaped ty (hex_upper ! n)"
proof -
  assume "ty < 9" "n < 16"
  then have "ty = 0 \<or> ty = 1 \<or> ty = 2 \<or> ty = 3 \<or> ty = 4 \<or> ty = 5 \<or> ty = 6 \<or> ty = 7 \<or> ty = 8" by presburger
  then show ?thesis
    using less_16_cases [OF \<open>n < 16\<close>]
    by (elim disjE; simp add: escaped_def escape_maps_def hex_upper_def)
qed

text \<open>
  Nothing that needs escaping survives. Every byte \<open>ngx_escape_uri\<close> writes is the escape
  character of the kind, or, for a form, the plus that stands for a space, or a byte that the
  bitmap of the kind allows.
\<close>

theorem escape_uri_clean:
  "ty < 9 \<Longrightarrow> list_all (\<lambda>b. \<not> escaped ty b \<or> b = map_char ! ty
       \<or> ty = NGX_ESCAPE_WWW_FORM \<and> b = b_plus) (ngx_escape_uri ty src)"
  by (induction src) (auto simp: hex_upper_not_escaped nibble_less)

text \<open>A newline or a space in a redirect cannot break out of the header it is written to.\<close>

theorem escape_uri_clean_witness:
  "list_all (\<lambda>b. \<not> escaped NGX_ESCAPE_URI b \<or> b = b_pct) (ngx_escape_uri NGX_ESCAPE_URI [47, 13, 10, 32])
   \<and> escaped NGX_ESCAPE_URI CR \<and> escaped NGX_ESCAPE_URI LF \<and> escaped NGX_ESCAPE_URI SP"
proof -
  have "map_char ! NGX_ESCAPE_URI = b_pct" by (simp add: map_char_def)
  moreover have "escaped NGX_ESCAPE_URI CR" "escaped NGX_ESCAPE_URI LF" "escaped NGX_ESCAPE_URI SP"
    by (simp_all add: escaped_def escape_maps_def)
  ultimately show ?thesis
    using escape_uri_clean [of NGX_ESCAPE_URI "[47, 13, 10, 32]"] by simp
qed

section \<open>HTML and JSON\<close>

text \<open>Reference decoders: the four character references that \<open>ngx_escape_html\<close> writes, and the
  escapes of a JSON string (those of the range below 128; a raw quote or control byte is no part of
  a string).\<close>

fun html_decode :: "byte list \<Rightarrow> byte list option" where
  "html_decode [] = Some []"
| "html_decode (c # w) =
     (if c = 60 \<or> c = 62 \<or> c = 34 then None
      else if c = 38 then
        (if take 3 w = [108, 116, 59] then map_option (Cons 60) (html_decode (drop 3 w))
         else if take 3 w = [103, 116, 59] then map_option (Cons 62) (html_decode (drop 3 w))
         else if take 4 w = [97, 109, 112, 59] then map_option (Cons 38) (html_decode (drop 4 w))
         else if take 5 w = [113, 117, 111, 116, 59] then map_option (Cons 34) (html_decode (drop 5 w))
         else None)
      else map_option (Cons c) (html_decode w))"

definition json_char :: "byte \<Rightarrow> byte option" where
  "json_char e =
     (if e = 34 \<or> e = 92 \<or> e = 47 then Some e
      else if e = 98 then Some 8 else if e = 102 then Some 12 else if e = 110 then Some LF
      else if e = 114 then Some CR else if e = 116 then Some TAB else None)"

definition json_hex :: "byte list \<Rightarrow> byte option" where
  "json_hex h =
     (if length h = 4 \<and> hex_string h \<and> hex_val_from 0 h < 128 then Some (of_nat (hex_val_from 0 h))
      else None)"

fun json_decode :: "byte list \<Rightarrow> byte list option" where
  "json_decode [] = Some []"
| "json_decode (c # w) =
     (if c = 34 \<or> c \<le> 0x1f then None
      else if c = 92 then
        (case w of
           [] \<Rightarrow> None
         | e # v \<Rightarrow>
             if e = 117 then
               (case json_hex (take 4 v) of
                  None \<Rightarrow> None
                | Some b \<Rightarrow> map_option (Cons b) (json_decode (drop 4 v)))
             else
               (case json_char e of
                  None \<Rightarrow> None
                | Some b \<Rightarrow> map_option (Cons b) (json_decode v)))
      else map_option (Cons c) (json_decode w))"

lemma escape_html_decode: "html_decode (ngx_escape_html src) = Some src"
  by (induction src) simp_all

lemma less_32_cases:
  "(n :: nat) < 32 \<Longrightarrow> n < 16 \<or> n = 16 \<or> n = 17 \<or> n = 18 \<or> n = 19 \<or> n = 20 \<or> n = 21 \<or> n = 22 \<or> n = 23
     \<or> n = 24 \<or> n = 25 \<or> n = 26 \<or> n = 27 \<or> n = 28 \<or> n = 29 \<or> n = 30 \<or> n = 31"
  by presburger

lemma json_escape_control:
  assumes "n < 32"
  shows "json_decode (ngx_escape_json [of_nat n] @ w) = map_option (Cons (of_nat n)) (json_decode w)"
proof -
  let ?P = "\<lambda>n :: nat. json_decode (ngx_escape_json [of_nat n] @ w) = map_option (Cons (of_nat n)) (json_decode w)"
  have "n < 16 \<Longrightarrow> ?P n"
    by (drule less_16_cases; elim disjE; simp add: json_short_def json_hex_def json_char_def hex_digit_def
        is_digit_def digit_val_def is_hex_alpha_def)
  moreover have "\<not> n < 16 \<Longrightarrow> ?P n"
    using less_32_cases [OF assms]
    by (elim disjE; simp add: json_short_def json_hex_def json_char_def hex_digit_def
        is_digit_def digit_val_def is_hex_alpha_def)
  ultimately show ?thesis by blast
qed

lemma escape_json_decode: "json_decode (ngx_escape_json src) = Some src"
proof (induction src)
  case (Cons ch src)
  have split: "ngx_escape_json (ch # src) = ngx_escape_json [ch] @ ngx_escape_json src" by simp
  show ?case
  proof (cases "ch \<le> 0x1f")
    case True
    then have "unat ch < 32" by (simp add: word_le_nat_alt)
    then show ?thesis
      using json_escape_control [of "unat ch" "ngx_escape_json src"] Cons.IH by (simp only: split) simp
  next
    case False
    then have "0x1f < ch" "\<not> ch \<le> 0x1f" by simp_all
    with Cons.IH show ?thesis by (auto simp: json_char_def)
  qed
qed simp

text \<open>
  C32: What \<open>ngx_escape_html\<close> writes has no bare angle bracket, quote or ampersand, what
  \<open>ngx_escape_json\<close> writes is the inside of a JSON string with no raw quote, backslash or control
  byte, and both decode to the source.
\<close>

theorem escape_html_json_roundtrip:
  "html_decode (ngx_escape_html src) = Some src \<and> json_decode (ngx_escape_json src) = Some src"
  by (simp add: escape_html_decode escape_json_decode)

section \<open>The hexadecimal dump\<close>

lemma hex_lower_digit: "n < 16 \<Longrightarrow> hex_digit (hex_lower ! n) = Some n"
  by (drule less_16_cases; elim disjE;
      simp add: hex_digit_def hex_lower_def is_digit_def digit_val_def is_hex_alpha_def)

text \<open>
  \<open>ngx_hex_dump\<close> writes two hexadecimal digits for each byte, and the number they spell is the
  number the bytes spell in base 256, most significant byte first.
\<close>

lemma hex_dump_exact:
  "hex_string (ngx_hex_dump src) \<and> length (ngx_hex_dump src) = 2 * length src
   \<and> hex_val_from 0 (ngx_hex_dump src) = foldl (\<lambda>v b. v * 256 + unat b) 0 src"
proof -
  have byte: "v * 256 + unat b = (v * 16 + unat (drop_bit 4 b)) * 16 + unat (b AND 0xf)" for v :: nat and b :: byte
  proof -
    have "unat (drop_bit 4 b) = unat b div 16" by (simp add: drop_bit_eq_div unat_div)
    moreover have "b AND 0xf = take_bit 4 b" by (simp add: take_bit_eq_mask mask_eq_exp_minus_1)
    then have "unat (b AND 0xf) = unat b mod 16" by (simp add: take_bit_eq_mod unat_mod)
    ultimately show ?thesis by simp
  qed
  have "hex_val_from v (ngx_hex_dump src) = foldl (\<lambda>v b. v * 256 + unat b) v src" for v
  proof (induction src arbitrary: v)
    case (Cons b src)
    have "hex_val_from v (ngx_hex_dump (b # src))
        = hex_val_from ((v * 16 + unat (drop_bit 4 b)) * 16 + unat (b AND 0xf)) (ngx_hex_dump src)"
      by (simp add: hex_lower_digit nibble_less)
    then show ?case by (simp only: byte [symmetric] Cons.IH foldl_Cons)
  qed simp
  moreover have "hex_string (ngx_hex_dump src) \<and> length (ngx_hex_dump src) = 2 * length src"
    by (induction src) (simp_all add: hex_lower_digit nibble_less)
  ultimately show ?thesis by blast
qed

end
