(* ===== verification/Ngx_Base64.thy ===== *)
theory Ngx_Base64
  imports Ngx_Prelude
begin

text \<open>
  Base64 of \<open>src/core/ngx_string.c\<close>, in the standard and the URL alphabet. The alphabets form a
  locale: an encoding table, a decoding table that inverts it, and what follows from that alone,
  the round trip and the lengths. Both pairs of tables of the code are instances.
\<close>

section \<open>Tables\<close>

definition basis64_encode :: "byte list" where
  "basis64_encode =
     [65, 66, 67, 68, 69, 70, 71, 72, 73, 74, 75, 76, 77, 78, 79, 80,
      81, 82, 83, 84, 85, 86, 87, 88, 89, 90, 97, 98, 99, 100, 101, 102,
      103, 104, 105, 106, 107, 108, 109, 110, 111, 112, 113, 114, 115, 116, 117, 118,
      119, 120, 121, 122, 48, 49, 50, 51, 52, 53, 54, 55, 56, 57, 43, 47]"

definition basis64url_encode :: "byte list" where
  "basis64url_encode =
     [65, 66, 67, 68, 69, 70, 71, 72, 73, 74, 75, 76, 77, 78, 79, 80,
      81, 82, 83, 84, 85, 86, 87, 88, 89, 90, 97, 98, 99, 100, 101, 102,
      103, 104, 105, 106, 107, 108, 109, 110, 111, 112, 113, 114, 115, 116, 117, 118,
      119, 120, 121, 122, 48, 49, 50, 51, 52, 53, 54, 55, 56, 57, 45, 95]"

definition basis64_decode :: "byte list" where
  "basis64_decode =
     [77, 77, 77, 77, 77, 77, 77, 77, 77, 77, 77, 77, 77, 77, 77, 77,
      77, 77, 77, 77, 77, 77, 77, 77, 77, 77, 77, 77, 77, 77, 77, 77,
      77, 77, 77, 77, 77, 77, 77, 77, 77, 77, 77, 62, 77, 77, 77, 63,
      52, 53, 54, 55, 56, 57, 58, 59, 60, 61, 77, 77, 77, 77, 77, 77,
      77, 0, 1, 2, 3, 4, 5, 6, 7, 8, 9, 10, 11, 12, 13, 14,
      15, 16, 17, 18, 19, 20, 21, 22, 23, 24, 25, 77, 77, 77, 77, 77,
      77, 26, 27, 28, 29, 30, 31, 32, 33, 34, 35, 36, 37, 38, 39, 40,
      41, 42, 43, 44, 45, 46, 47, 48, 49, 50, 51, 77, 77, 77, 77, 77,
      77, 77, 77, 77, 77, 77, 77, 77, 77, 77, 77, 77, 77, 77, 77, 77,
      77, 77, 77, 77, 77, 77, 77, 77, 77, 77, 77, 77, 77, 77, 77, 77,
      77, 77, 77, 77, 77, 77, 77, 77, 77, 77, 77, 77, 77, 77, 77, 77,
      77, 77, 77, 77, 77, 77, 77, 77, 77, 77, 77, 77, 77, 77, 77, 77,
      77, 77, 77, 77, 77, 77, 77, 77, 77, 77, 77, 77, 77, 77, 77, 77,
      77, 77, 77, 77, 77, 77, 77, 77, 77, 77, 77, 77, 77, 77, 77, 77,
      77, 77, 77, 77, 77, 77, 77, 77, 77, 77, 77, 77, 77, 77, 77, 77,
      77, 77, 77, 77, 77, 77, 77, 77, 77, 77, 77, 77, 77, 77, 77, 77]"

definition basis64url_decode :: "byte list" where
  "basis64url_decode =
     [77, 77, 77, 77, 77, 77, 77, 77, 77, 77, 77, 77, 77, 77, 77, 77,
      77, 77, 77, 77, 77, 77, 77, 77, 77, 77, 77, 77, 77, 77, 77, 77,
      77, 77, 77, 77, 77, 77, 77, 77, 77, 77, 77, 77, 77, 62, 77, 77,
      52, 53, 54, 55, 56, 57, 58, 59, 60, 61, 77, 77, 77, 77, 77, 77,
      77, 0, 1, 2, 3, 4, 5, 6, 7, 8, 9, 10, 11, 12, 13, 14,
      15, 16, 17, 18, 19, 20, 21, 22, 23, 24, 25, 77, 77, 77, 77, 63,
      77, 26, 27, 28, 29, 30, 31, 32, 33, 34, 35, 36, 37, 38, 39, 40,
      41, 42, 43, 44, 45, 46, 47, 48, 49, 50, 51, 77, 77, 77, 77, 77,
      77, 77, 77, 77, 77, 77, 77, 77, 77, 77, 77, 77, 77, 77, 77, 77,
      77, 77, 77, 77, 77, 77, 77, 77, 77, 77, 77, 77, 77, 77, 77, 77,
      77, 77, 77, 77, 77, 77, 77, 77, 77, 77, 77, 77, 77, 77, 77, 77,
      77, 77, 77, 77, 77, 77, 77, 77, 77, 77, 77, 77, 77, 77, 77, 77,
      77, 77, 77, 77, 77, 77, 77, 77, 77, 77, 77, 77, 77, 77, 77, 77,
      77, 77, 77, 77, 77, 77, 77, 77, 77, 77, 77, 77, 77, 77, 77, 77,
      77, 77, 77, 77, 77, 77, 77, 77, 77, 77, 77, 77, 77, 77, 77, 77,
      77, 77, 77, 77, 77, 77, 77, 77, 77, 77, 77, 77, 77, 77, 77, 77]"

section \<open>Encoding and decoding\<close>

text \<open>The indices into the table, named after the output byte they give; the last two are those of
  an incomplete group.\<close>

definition b64_in1 :: "byte \<Rightarrow> byte" where
  "b64_in1 s0 = drop_bit 2 s0 AND 0x3f"

definition b64_in2 :: "byte \<Rightarrow> byte \<Rightarrow> byte" where
  "b64_in2 s0 s1 = push_bit 4 (s0 AND 3) OR drop_bit 4 s1"

definition b64_in3 :: "byte \<Rightarrow> byte \<Rightarrow> byte" where
  "b64_in3 s1 s2 = push_bit 2 (s1 AND 0x0f) OR drop_bit 6 s2"

definition b64_in4 :: "byte \<Rightarrow> byte" where
  "b64_in4 s2 = s2 AND 0x3f"

definition b64_last2 :: "byte \<Rightarrow> byte" where
  "b64_last2 s0 = push_bit 4 (s0 AND 3)"

definition b64_last3 :: "byte \<Rightarrow> byte" where
  "b64_last3 s1 = push_bit 2 (s1 AND 0x0f)"

fun ngx_encode_base64_internal :: "byte list \<Rightarrow> bool \<Rightarrow> byte list \<Rightarrow> byte list" where
  "ngx_encode_base64_internal basis padding (s0 # s1 # s2 # src) =
     [basis ! unat (b64_in1 s0), basis ! unat (b64_in2 s0 s1), basis ! unat (b64_in3 s1 s2),
      basis ! unat (b64_in4 s2)] @ ngx_encode_base64_internal basis padding src"
| "ngx_encode_base64_internal basis padding [s0] =
     [basis ! unat (b64_in1 s0), basis ! unat (b64_last2 s0)] @ (if padding then [b_eq, b_eq] else [])"
| "ngx_encode_base64_internal basis padding [s0, s1] =
     [basis ! unat (b64_in1 s0), basis ! unat (b64_in2 s0 s1), basis ! unat (b64_last3 s1)]
     @ (if padding then [b_eq] else [])"
| "ngx_encode_base64_internal basis padding [] = []"

definition ngx_encode_base64 :: "byte list \<Rightarrow> byte list" where
  "ngx_encode_base64 src = ngx_encode_base64_internal basis64_encode True src"

definition ngx_encode_base64url :: "byte list \<Rightarrow> byte list" where
  "ngx_encode_base64url src = ngx_encode_base64_internal basis64url_encode False src"

text \<open>The first loop of the decoder: the bytes before the padding, \<open>None\<close> if one of them is not in
  the alphabet.\<close>

fun base64_scan :: "byte list \<Rightarrow> byte list \<Rightarrow> byte list option" where
  "base64_scan basis [] = Some []"
| "base64_scan basis (c # src) =
     (if c = b_eq then Some []
      else if basis ! unat c = 77 then None
      else map_option (Cons c) (base64_scan basis src))"

definition b64_out1 :: "byte list \<Rightarrow> byte \<Rightarrow> byte \<Rightarrow> byte" where
  "b64_out1 basis s0 s1 = push_bit 2 (basis ! unat s0) OR drop_bit 4 (basis ! unat s1)"

definition b64_out2 :: "byte list \<Rightarrow> byte \<Rightarrow> byte \<Rightarrow> byte" where
  "b64_out2 basis s1 s2 = push_bit 4 (basis ! unat s1) OR drop_bit 2 (basis ! unat s2)"

definition b64_out3 :: "byte list \<Rightarrow> byte \<Rightarrow> byte \<Rightarrow> byte" where
  "b64_out3 basis s2 s3 = push_bit 6 (basis ! unat s2) OR basis ! unat s3"

fun base64_write :: "byte list \<Rightarrow> byte list \<Rightarrow> byte list" where
  "base64_write basis (s0 # s1 # s2 # s3 # s) =
     [b64_out1 basis s0 s1, b64_out2 basis s1 s2, b64_out3 basis s2 s3] @ base64_write basis s"
| "base64_write basis [s0, s1, s2] = [b64_out1 basis s0 s1, b64_out2 basis s1 s2]"
| "base64_write basis [s0, s1] = [b64_out1 basis s0 s1]"
| "base64_write basis s = []"

definition ngx_decode_base64_internal :: "byte list \<Rightarrow> byte list \<Rightarrow> byte list option" where
  "ngx_decode_base64_internal basis src =
     (case base64_scan basis src of
        None \<Rightarrow> None
      | Some s \<Rightarrow> if length s mod 4 = 1 then None else Some (base64_write basis s))"

definition ngx_decode_base64 :: "byte list \<Rightarrow> byte list option" where
  "ngx_decode_base64 src = ngx_decode_base64_internal basis64_decode src"

definition ngx_decode_base64url :: "byte list \<Rightarrow> byte list option" where
  "ngx_decode_base64url src = ngx_decode_base64_internal basis64url_decode src"

definition ngx_base64_encoded_length :: "nat \<Rightarrow> nat" where
  "ngx_base64_encoded_length len = ((len + 2) div 3) * 4"

definition ngx_base64_decoded_length :: "nat \<Rightarrow> nat" where
  "ngx_base64_decoded_length len = ((len + 3) div 4) * 3"

section \<open>Sextets\<close>

lemmas b64_in_defs = b64_in1_def b64_in2_def b64_in3_def b64_in4_def b64_last2_def b64_last3_def

lemma high_bits: "\<not> bit (x :: byte) 8" "\<not> bit x 9" "\<not> bit x 10" "\<not> bit x 11" "\<not> bit x 12" "\<not> bit x 13"
  using bit_imp_le_length [of x] by force+

lemma sextet_less:
  "unat (b64_in1 s) < 64" "unat (b64_in4 s) < 64" "unat (b64_last2 s) < 64" "unat (b64_last3 s) < 64"
  "unat (b64_in2 s t) < 64" "unat (b64_in3 s t) < 64"
proof -
  have less: "unat (x :: byte) < 64" if "drop_bit 6 x = 0" for x
  proof -
    have "unat x div 64 = 0" using arg_cong [OF that, of unat] by (simp add: drop_bit_eq_div unat_div)
    then show ?thesis by simp
  qed
  have zero: "drop_bit 6 (x :: byte) = 0" if "\<not> bit x 6" "\<not> bit x 7" for x
  proof (rule bit_word_eqI)
    fix n
    assume "n < LENGTH(8)"
    then consider "n = 0" | "n = 1" | "2 \<le> n" by linarith
    then show "bit (drop_bit 6 x) n = bit (0 :: byte) n"
    proof cases
      case 3
      then show ?thesis using bit_imp_le_length [of x "6 + n"] by (auto simp: bit_drop_bit_eq)
    qed (use that in \<open>simp_all add: bit_drop_bit_eq\<close>)
  qed
  show "unat (b64_in1 s) < 64" "unat (b64_in4 s) < 64" "unat (b64_last2 s) < 64" "unat (b64_last3 s) < 64"
      "unat (b64_in2 s t) < 64" "unat (b64_in3 s t) < 64"
    by (rule less, rule zero; simp add: b64_in_defs bit_simps high_bits)+
qed

lemma less_8_cases: "(n :: nat) < 8 \<Longrightarrow> n = 0 \<or> n = 1 \<or> n = 2 \<or> n = 3 \<or> n = 4 \<or> n = 5 \<or> n = 6 \<or> n = 7"
  by presburger

lemma byte_eqI: "(\<And>n. n < 8 \<Longrightarrow> bit x n = bit y n) \<Longrightarrow> x = (y :: byte)"
  by (rule bit_word_eqI) simp

lemma sextets_join:
  "push_bit 2 (b64_in1 s0) OR drop_bit 4 (b64_in2 s0 s1) = s0"
  "push_bit 4 (b64_in2 s0 s1) OR drop_bit 2 (b64_in3 s1 s2) = s1"
  "push_bit 6 (b64_in3 s1 s2) OR b64_in4 s2 = s2"
  "push_bit 2 (b64_in1 s0) OR drop_bit 4 (b64_last2 s0) = s0"
  "push_bit 4 (b64_in2 s0 s1) OR drop_bit 2 (b64_last3 s1) = s1"
  by (rule byte_eqI, drule less_8_cases, elim disjE; simp add: b64_in_defs bit_simps high_bits)+

lemma list3_induct [case_names nil one two three]:
  assumes "P []" "\<And>x. P [x]" "\<And>x y. P [x, y]" "\<And>x y z xs. P xs \<Longrightarrow> P (x # y # z # xs)"
  shows "P xs"
proof (induction xs rule: length_induct)
  case (1 xs)
  then show ?case
    using assms by (cases xs; cases "tl xs"; cases "tl (tl xs)") auto
qed

section \<open>Alphabets\<close>

text \<open>An alphabet: sixty-four characters, none of them the padding, which the decoding table sends
  back to their positions.\<close>

locale base64_alphabet =
  fixes enc dec :: "byte list"
  assumes dec_enc: "i < 64 \<Longrightarrow> dec ! unat (enc ! i) = of_nat i"
    and enc_pad: "i < 64 \<Longrightarrow> enc ! i \<noteq> b_eq"
begin

lemma dec_enc_unat: "unat (w :: byte) < 64 \<Longrightarrow> dec ! unat (enc ! unat w) = w"
  by (simp add: dec_enc)

lemma scan_enc:
  "unat (w :: byte) < 64 \<Longrightarrow> base64_scan dec (enc ! unat w # src) = map_option (Cons (enc ! unat w)) (base64_scan dec src)"
proof -
  assume w: "unat w < 64"
  have "w \<noteq> 77" using w by auto
  then show ?thesis using w by (simp add: enc_pad dec_enc_unat)
qed

lemma scan_pad: "base64_scan dec (b_eq # p) = Some []"
  by simp

lemma decode_encode:
  "ngx_decode_base64_internal dec (ngx_encode_base64_internal enc padding src) = Some src"
proof -
  have "\<exists>s. base64_scan dec (ngx_encode_base64_internal enc padding src) = Some s
      \<and> length s mod 4 \<noteq> 1 \<and> base64_write dec s = src"
  proof (induction src rule: list3_induct)
    case (three s0 s1 s2 src)
    then show ?case
      by (auto simp: scan_enc sextet_less b64_out1_def b64_out2_def b64_out3_def dec_enc_unat sextets_join
          simp del: base64_scan.simps(2))
  qed (auto simp: scan_enc scan_pad sextet_less b64_out1_def b64_out2_def dec_enc_unat sextets_join
      simp del: base64_scan.simps(2))
  then show ?thesis by (auto simp: ngx_decode_base64_internal_def)
qed

end

lemma basis64_inverse:
  "list_all (\<lambda>i. basis64_decode ! unat (basis64_encode ! i) = of_nat i \<and> basis64_encode ! i \<noteq> b_eq) [0..<64]"
  by code_simp

lemma basis64url_inverse:
  "list_all (\<lambda>i. basis64url_decode ! unat (basis64url_encode ! i) = of_nat i \<and> basis64url_encode ! i \<noteq> b_eq) [0..<64]"
  by code_simp

interpretation b64: base64_alphabet basis64_encode basis64_decode
  using basis64_inverse by unfold_locales (auto simp: list_all_iff)

interpretation b64url: base64_alphabet basis64url_encode basis64url_decode
  using basis64url_inverse by unfold_locales (auto simp: list_all_iff)

lemma encode_length:
  "length (ngx_encode_base64_internal basis padding src)
     = (if padding then ngx_base64_encoded_length (length src) else (length src * 4 + 2) div 3)"
proof (induction src rule: list3_induct)
  case (three x y z xs)
  have n: "length (x # y # z # xs) = length xs + 3" by simp
  have "(length xs + 3 + 2) div 3 = (length xs + 2) div 3 + 1" by linarith
  moreover have "((length xs + 3) * 4 + 2) div 3 = (length xs * 4 + 2 + 4 * 3) div 3"
    by (rule arg_cong [where f = "\<lambda>n. n div 3"]) simp
  then have "((length xs + 3) * 4 + 2) div 3 = (length xs * 4 + 2) div 3 + 4"
    by (simp only: div_mult_self1)
  ultimately show ?case using three unfolding n by (simp add: ngx_base64_encoded_length_def)
qed (simp_all add: ngx_base64_encoded_length_def)

lemma write_length: "length (base64_write basis s) = length s * 3 div 4"
  by (induction basis s rule: base64_write.induct) simp_all

text \<open>
  C29: Base64 round trip, in both alphabets: decoding what \<open>ngx_encode_base64\<close> or
  \<open>ngx_encode_base64url\<close> wrote succeeds and gives back the source. The padded encoding has exactly
  the length \<open>ngx_base64_encoded_length\<close> that its callers allocate, and the other is no longer.
\<close>

theorem base64_roundtrip:
  "ngx_decode_base64 (ngx_encode_base64 src) = Some src
   \<and> ngx_decode_base64url (ngx_encode_base64url src) = Some src
   \<and> length (ngx_encode_base64 src) = ngx_base64_encoded_length (length src)
   \<and> length (ngx_encode_base64url src) \<le> ngx_base64_encoded_length (length src)"
proof -
  have "(length src * 4 + 2) div 3 \<le> ((length src + 2) div 3) * 4" by linarith
  then show ?thesis
    using b64.decode_encode b64url.decode_encode encode_length
    by (simp add: ngx_decode_base64_def ngx_encode_base64_def ngx_decode_base64url_def
        ngx_encode_base64url_def ngx_base64_encoded_length_def)
qed

text \<open>
  The decoder stays within its buffer. Whatever the source and the table, what
  \<open>ngx_decode_base64_internal\<close> writes fits the \<open>ngx_base64_decoded_length\<close> its callers allocate,
  and it rejects exactly the sources with a foreign byte before the padding or with one byte more
  than whole groups before it.
\<close>

theorem base64_decode_bounds:
  "(\<exists>dst. ngx_decode_base64_internal basis src = Some dst)
     = (list_all (\<lambda>c. basis ! unat c \<noteq> 77) (takeWhile (\<lambda>c. c \<noteq> b_eq) src)
        \<and> length (takeWhile (\<lambda>c. c \<noteq> b_eq) src) mod 4 \<noteq> 1)
   \<and> pred_option (\<lambda>dst. length dst \<le> ngx_base64_decoded_length (length src))
       (ngx_decode_base64_internal basis src)"
proof -
  have scan: "base64_scan basis src =
      (if list_all (\<lambda>c. basis ! unat c \<noteq> 77) (takeWhile (\<lambda>c. c \<noteq> b_eq) src)
       then Some (takeWhile (\<lambda>c. c \<noteq> b_eq) src) else None)"
    by (induction src) auto
  have "n \<le> m \<Longrightarrow> n * 3 div 4 \<le> (m + 3) div 4 * 3" for n m :: nat by linarith
  from this [OF length_takeWhile_le [of "\<lambda>c. c \<noteq> b_eq" src]] show ?thesis
    by (auto simp: ngx_decode_base64_internal_def scan write_length ngx_base64_decoded_length_def)
qed

end
