(* ===== verification/Ngx_Utf8.thy ===== *)
theory Ngx_Utf8
  imports Ngx_Prelude
begin

text \<open>
  UTF-8 of \<open>src/core/ngx_string.c\<close>: \<open>ngx_utf8_decode\<close>, \<open>ngx_utf8_length\<close> and \<open>ngx_utf8_cpystrn\<close>.
  A pointer into the string is the list of bytes from it on. The lemmas show that every character
  beyond ASCII is decoded from its encoding, that lengths count characters, and what the decoder
  does on ill-formed input.
\<close>

section \<open>Decoding\<close>

fun utf8_tail :: "nat \<Rightarrow> u32 \<Rightarrow> byte list \<Rightarrow> u32 option \<times> byte list" where
  "utf8_tail 0 u p = (Some u, p)"
| "utf8_tail (Suc len) u [] = (None, [])"
| "utf8_tail (Suc len) u (c # p) =
     (let i = ucast c :: u32 in
      if i < 0x80 then (None, p)
      else utf8_tail len (push_bit 6 u OR (i AND 0x3f)) p)"

text \<open>The lead byte: the value bits, the largest value of a shorter form and the number of bytes
  that follow.\<close>

definition utf8_lead :: "u32 \<Rightarrow> (u32 \<times> u32 \<times> nat) option" where
  "utf8_lead u =
     (if u \<ge> 0xf8 then None
      else if u \<ge> 0xf0 then Some (u AND 0x07, 0xffff, 3)
      else if u \<ge> 0xe0 then Some (u AND 0x0f, 0x7ff, 2)
      else if u \<ge> 0xc2 then Some (u AND 0x1f, 0x7f, 1)
      else None)"

text \<open>The callers never pass an empty string, where the code would read past it. \<open>n\<close> is the length
  of the list; the second component is the pointer afterwards.\<close>

definition ngx_utf8_decode :: "byte list \<Rightarrow> u32 \<times> byte list" where
  "ngx_utf8_decode p =
     (case utf8_lead (ucast (hd p)) of
        None \<Rightarrow> (0xffffffff, tl p)
      | Some (u, valid, len) \<Rightarrow>
          if length p - 1 < len then (0xfffffffe, p)
          else case utf8_tail len u (tl p) of
                 (None, p') \<Rightarrow> (0xffffffff, p')
               | (Some u', p') \<Rightarrow> if u' > valid then (u', p') else (0xffffffff, p'))"

lemma utf8_tail_length: "length (snd (utf8_tail len u p)) \<le> length p"
  by (induction len u p rule: utf8_tail.induct) (auto simp: Let_def)

lemma utf8_decode_length:
  assumes "ngx_utf8_decode (c # p) = (u, p')" "u \<noteq> 0xfffffffe"
  shows "length p' \<le> length p"
proof (cases "utf8_lead (ucast c)")
  case None
  with assms show ?thesis by (simp add: ngx_utf8_decode_def)
next
  case (Some x)
  obtain v valid len where x: "x = (v, valid, len)" by (cases x)
  obtain r q where t: "utf8_tail len v p = (r, q)" by fastforce
  have "length q \<le> length p" using utf8_tail_length [of len v p] t by simp
  with assms Some x t show ?thesis
    by (auto simp: ngx_utf8_decode_def split: if_splits option.splits)
qed

text \<open>\<open>None\<close> is the early \<open>return n\<close>.\<close>

function utf8_count :: "byte list \<Rightarrow> nat \<Rightarrow> nat option" where
  "utf8_count [] len = Some len"
| "utf8_count (c # p) len =
     (if c < 0x80 then utf8_count p (Suc len)
      else case ngx_utf8_decode (c # p) of
             (u, p') \<Rightarrow> if u > 0x10ffff then None else utf8_count p' (Suc len))"
  by pat_completeness auto
termination
  by (relation "measure (\<lambda>(p, len). length p)") (auto dest!: sym [of "(_, _)"] utf8_decode_length)

definition ngx_utf8_length :: "byte list \<Rightarrow> nat" where
  "ngx_utf8_length p = (case utf8_count p 0 of None \<Rightarrow> length p | Some len \<Rightarrow> len)"

section \<open>Copying\<close>

text \<open>The bytes written before the terminating zero; \<open>None\<close> if the code reads past the source, which
  its caller excludes by passing the zero that ends it.\<close>

function utf8_copy :: "nat \<Rightarrow> byte list \<Rightarrow> byte list option" where
  "utf8_copy 0 src = Some []"
| "utf8_copy (Suc n) [] = None"
| "utf8_copy (Suc n) (c # src) =
     (if c < 0x80 then (if c \<noteq> NUL then map_option (Cons c) (utf8_copy n src) else Some [])
      else case ngx_utf8_decode (c # src) of
             (u, src') \<Rightarrow>
               if u > 0x10ffff then Some []
               else map_option (append (take (length (c # src) - length src') (c # src))) (utf8_copy n src'))"
  by pat_completeness auto
termination
  by (relation "measure (\<lambda>(n, src). n)") auto

definition ngx_utf8_cpystrn :: "nat \<Rightarrow> byte list \<Rightarrow> byte list option" where
  "ngx_utf8_cpystrn n src =
     (if n = 0 then Some [] else map_option (\<lambda>out. out @ [NUL]) (utf8_copy (n - 1) src))"

section \<open>Well-formed strings\<close>

text \<open>The encoding of a character, a number below \<open>0x110000\<close>.\<close>

definition utf8_encode :: "nat \<Rightarrow> byte list" where
  "utf8_encode c =
     (if c < 0x80 then [of_nat c]
      else if c < 0x800 then [of_nat (0xc0 + c div 64), of_nat (0x80 + c mod 64)]
      else if c < 0x10000 then
        [of_nat (0xe0 + c div 4096), of_nat (0x80 + c div 64 mod 64), of_nat (0x80 + c mod 64)]
      else
        [of_nat (0xf0 + c div 262144), of_nat (0x80 + c div 4096 mod 64),
         of_nat (0x80 + c div 64 mod 64), of_nat (0x80 + c mod 64)])"

lemma ucast_byte: "k < 256 \<Longrightarrow> (ucast (of_nat k :: byte) :: u32) = of_nat k"
  by (simp add: unsigned_of_nat take_bit_nat_eq_self)

lemma utf8_tail_step:
  assumes "x < 64"
  shows "utf8_tail (Suc len) (of_nat v) (of_nat (0x80 + x) # p) = utf8_tail len (of_nat (v * 64 + x)) p"
proof -
  have i: "(ucast (of_nat (0x80 + x) :: byte) :: u32) = of_nat (0x80 + x)"
    using assms by (intro ucast_byte) simp
  have ge: "\<not> (of_nat (0x80 + x) :: u32) < 0x80"
    using assms by (simp only: word_less_nat_alt unat_of_nat) simp
  have "(of_nat (0x80 + x) :: u32) AND 0x3f = take_bit 6 (of_nat (0x80 + x))"
    by (simp add: take_bit_eq_mask mask_eq_exp_minus_1)
  also have "\<dots> = of_nat (take_bit 6 (0x80 + x))" by (rule take_bit_of_nat)
  also have "take_bit 6 (0x80 + x) = x" using assms by (simp add: take_bit_eq_mod mod_add_left_eq [symmetric])
  finally have low: "(of_nat (0x80 + x) :: u32) AND 0x3f = of_nat x" .
  have "push_bit 6 (of_nat v :: u32) OR of_nat x = push_bit 6 (of_nat v) + of_nat x"
  proof (rule disjunctive_add [symmetric])
    fix n
    have "(of_nat x :: u32) = take_bit 6 (of_nat x)"
      using assms by (simp add: take_bit_of_nat take_bit_nat_eq_self)
    then have "bit (of_nat x :: u32) n \<Longrightarrow> n < 6"
      using bit_take_bit_iff [of 6 "of_nat x :: u32" n] by simp
    then show "\<not> bit (push_bit 6 (of_nat v :: u32)) n \<or> \<not> bit (of_nat x :: u32) n"
      by (auto simp: bit_push_bit_iff)
  qed
  also have "\<dots> = of_nat (v * 64 + x)" by (simp add: push_bit_eq_mult)
  finally have "push_bit 6 (of_nat v :: u32) OR of_nat x = of_nat (v * 64 + x)" .
  then show ?thesis using low ge by (simp only: utf8_tail.simps i Let_def if_False)
qed

text \<open>The lead bytes of the encodings of two, three and four bytes.\<close>

lemma and_low: "x < 2 ^ k \<Longrightarrow> (of_nat (m * 2 ^ k + x) :: u32) AND mask k = of_nat x"
proof -
  assume "x < 2 ^ k"
  then have "take_bit k (m * 2 ^ k + x) = x" by (simp add: take_bit_eq_mod)
  then show ?thesis by (metis take_bit_eq_mask take_bit_of_nat)
qed

lemma utf8_lead_encode:
  "0xc2 \<le> m \<Longrightarrow> m < 0xe0 \<Longrightarrow> utf8_lead (of_nat m) = Some (of_nat (m - 0xc0), 0x7f, 1)"
  "0xe0 \<le> m \<Longrightarrow> m < 0xf0 \<Longrightarrow> utf8_lead (of_nat m) = Some (of_nat (m - 0xe0), 0x7ff, 2)"
  "0xf0 \<le> m \<Longrightarrow> m < 0xf8 \<Longrightarrow> utf8_lead (of_nat m) = Some (of_nat (m - 0xf0), 0xffff, 3)"
  using and_low [of "m - 0xc0" 5 6] and_low [of "m - 0xe0" 4 14] and_low [of "m - 0xf0" 3 30]
  by (auto simp: utf8_lead_def word_le_nat_alt unat_of_nat mask_eq_exp_minus_1 simp del: of_nat_diff)

lemma utf8_decode_encode:
  assumes "0x80 \<le> c" "c < 0x110000"
  shows "ngx_utf8_decode (utf8_encode c @ w) = (of_nat c, w)"
proof -
  have gt: "(of_nat c :: u32) > of_nat k \<longleftrightarrow> c > k" if "k < 0x110000" for k
    using that assms by (simp add: word_less_nat_alt unat_of_nat)
  consider (two) "c < 0x800" | (three) "0x800 \<le> c" "c < 0x10000" | (four) "0x10000 \<le> c" by linarith
  then show ?thesis
  proof cases
    case two
    have x: "2 \<le> c div 64" "c div 64 < 32" "c mod 64 < 64" using two assms by simp_all
    have u: "(ucast (of_nat (0xc0 + c div 64) :: byte) :: u32) = of_nat (0xc0 + c div 64)"
      using x by (intro ucast_byte) simp
    have "utf8_tail 1 (of_nat (c div 64)) (of_nat (0x80 + c mod 64) # w) = (Some (of_nat c), w)"
      using utf8_tail_step [OF x(3), of 0 "c div 64" w] by simp
    then show ?thesis
      using two assms gt [of "0x7f"] utf8_lead_encode(1) [of "0xc0 + c div 64"] x
      by (simp add: ngx_utf8_decode_def utf8_encode_def u del: of_nat_add)
  next
    case three
    have x: "c div 4096 < 16" "c div 64 mod 64 < 64" "c mod 64 < 64" using three assms by simp_all
    have u: "(ucast (of_nat (0xe0 + c div 4096) :: byte) :: u32) = of_nat (0xe0 + c div 4096)"
      using x by (intro ucast_byte) simp
    have c: "(c div 4096 * 64 + c div 64 mod 64) * 64 + c mod 64 = c"
      by (simp add: div_mult2_eq [of c 64 64, simplified])
    have "utf8_tail 2 (of_nat (c div 4096)) (of_nat (0x80 + c div 64 mod 64) # of_nat (0x80 + c mod 64) # w)
        = (Some (of_nat c), w)"
      by (simp only: numeral_2_eq_2 utf8_tail_step [OF x(2)] utf8_tail_step [OF x(3)] utf8_tail.simps(1) c)
    then show ?thesis
      using three assms gt [of "0x7ff"] utf8_lead_encode(2) [of "0xe0 + c div 4096"] x
      by (simp add: ngx_utf8_decode_def utf8_encode_def u del: of_nat_add)
  next
    case four
    have x: "c div 262144 < 8" "c div 4096 mod 64 < 64" "c div 64 mod 64 < 64" "c mod 64 < 64"
      using four assms by simp_all
    have u: "(ucast (of_nat (0xf0 + c div 262144) :: byte) :: u32) = of_nat (0xf0 + c div 262144)"
      using x by (intro ucast_byte) simp
    have c: "((c div 262144 * 64 + c div 4096 mod 64) * 64 + c div 64 mod 64) * 64 + c mod 64 = c"
      by (simp add: div_mult2_eq [of c 4096 64, simplified] div_mult2_eq [of c 64 64, simplified])
    have "utf8_tail 3 (of_nat (c div 262144)) (of_nat (0x80 + c div 4096 mod 64)
          # of_nat (0x80 + c div 64 mod 64) # of_nat (0x80 + c mod 64) # w) = (Some (of_nat c), w)"
      by (simp only: numeral_3_eq_3 utf8_tail_step [OF x(2)] utf8_tail_step [OF x(3)]
          utf8_tail_step [OF x(4)] utf8_tail.simps(1) c)
    then show ?thesis
      using four assms gt [of "0xffff"] utf8_lead_encode(3) [of "0xf0 + c div 262144"] x
      by (simp add: ngx_utf8_decode_def utf8_encode_def u del: of_nat_add)
  qed
qed

lemma utf8_encode_cases:
  assumes "c < 0x110000"
  obtains (ascii) "utf8_encode c = [of_nat c]" "(of_nat c :: byte) < 0x80" "c < 0x80"
  | (multi) l t where "utf8_encode c = l # t" "\<not> l < 0x80" "0x80 \<le> c"
proof (cases "c < 0x80")
  case True
  then show thesis by (intro ascii) (simp_all add: utf8_encode_def word_less_nat_alt unat_of_nat)
next
  case False
  have hi: "\<not> (of_nat k :: byte) < 0x80" if "0x80 \<le> k" "k < 256" for k
    using that by (simp add: word_less_nat_alt unat_of_nat)
  define l where "l = (if c < 0x800 then 0xc0 + c div 64 else if c < 0x10000 then 0xe0 + c div 4096
    else 0xf0 + c div 262144)"
  have "utf8_encode c = of_nat l # tl (utf8_encode c)"
    using False by (simp add: utf8_encode_def l_def)
  moreover have "0x80 \<le> l" "l < 256" using assms by (simp_all add: l_def less_mult_imp_div_less)
  ultimately show thesis using hi False by (intro multi) auto
qed

lemma of_nat_char: "c < 0x110000 \<Longrightarrow> \<not> (of_nat c :: u32) > 0x10ffff"
  by (simp add: word_less_nat_alt unat_of_nat)

lemma utf8_count_encode:
  assumes "c < 0x110000"
  shows "utf8_count (utf8_encode c @ w) len = utf8_count w (Suc len)"
  using assms
proof (cases rule: utf8_encode_cases)
  case (multi l t)
  then have "ngx_utf8_decode (l # t @ w) = (of_nat c, w)"
    using utf8_decode_encode [of c w] assms by simp
  with multi assms show ?thesis by (simp add: of_nat_char)
qed simp

definition chars_ok :: "nat list \<Rightarrow> bool" where
  "chars_ok cs \<longleftrightarrow> list_all (\<lambda>c. 0 < c \<and> c < 0x110000) cs"

text \<open>
  C36: UTF-8 is decoded from its encoding. \<open>ngx_utf8_decode\<close> reads every character from \<open>0x80\<close> to
  \<open>0x10ffff\<close> back from its bytes, whatever follows them, and leaves the pointer after them;
  \<open>ngx_utf8_length\<close> of a well-formed string is its number of characters; and \<open>ngx_utf8_cpystrn\<close>
  copies the first \<open>n - 1\<close> characters of a zero-terminated string, never part of one, and
  terminates the copy.
\<close>

theorem utf8_wellformed:
  assumes "chars_ok cs" "0x80 \<le> c" "c < 0x110000"
  shows "ngx_utf8_decode (utf8_encode c @ w) = (of_nat c, w)
    \<and> ngx_utf8_length (concat (map utf8_encode cs)) = length cs
    \<and> ngx_utf8_cpystrn (Suc n) (concat (map utf8_encode cs) @ [NUL])
        = Some (concat (map utf8_encode (take n cs)) @ [NUL])"
proof -
  have "utf8_count (concat (map utf8_encode cs)) len = Some (len + length cs)" for len
    using assms(1) by (induction cs arbitrary: len) (simp_all add: chars_ok_def utf8_count_encode)
  moreover have "utf8_copy n (concat (map utf8_encode cs) @ [NUL]) = Some (concat (map utf8_encode (take n cs)))"
    using assms(1)
  proof (induction cs arbitrary: n)
    case Nil
    show ?case by (cases n) simp_all
  next
    case (Cons c cs)
    let ?w = "concat (map utf8_encode cs) @ [NUL]"
    have c: "0 < c" "c < 0x110000" and cs: "chars_ok cs" using Cons.prems by (simp_all add: chars_ok_def)
    show ?case
    proof (cases n)
      case (Suc m)
      from c(2) show ?thesis
      proof (cases rule: utf8_encode_cases)
        case ascii
        then have "(of_nat c :: byte) \<noteq> 0" using c(1) by (simp add: word_unat_eq_iff unat_of_nat)
        then show ?thesis using ascii Cons.IH [OF cs, of m] by (simp add: Suc)
      next
        case (multi l t)
        then show ?thesis
          using Cons.IH [OF cs, of m] utf8_decode_encode [of c ?w] c of_nat_char [of c] by (simp add: Suc)
      qed
    qed simp
  qed
  ultimately show ?thesis
    using utf8_decode_encode [OF assms(2,3)]
    by (simp add: ngx_utf8_length_def ngx_utf8_cpystrn_def)
qed

text \<open>The euro sign, and a name of two characters.\<close>

theorem utf8_wellformed_witness:
  "ngx_utf8_decode [0xe2, 0x82, 0xac] = (0x20ac, []) \<and> ngx_utf8_length [0x61, 0xc3, 0xa9] = 2"
  using utf8_wellformed [of "[0x61, 0xe9]" "0x20ac" "[]" 0]
  by (simp add: chars_ok_def utf8_encode_def)

section \<open>Continuation bytes\<close>

text \<open>The continuation byte with the low six bits of a byte.\<close>

definition utf8_cont :: "byte \<Rightarrow> byte" where
  "utf8_cont c = 0x80 OR (c AND 0x3f)"

lemma ucast_high: "0x80 \<le> c \<Longrightarrow> \<not> (ucast c :: u32) < 0x80" for c :: byte
proof -
  have "unat c < 2 ^ 8" using unsigned_less [of c] by simp
  then show "0x80 \<le> c \<Longrightarrow> \<not> (ucast c :: u32) < 0x80"
    by (simp add: word_le_nat_alt word_less_nat_alt unsigned_ucast_eq take_bit_nat_eq_self)
qed

lemma utf8_cont_high: "0x80 \<le> utf8_cont c"
proof -
  have "0x80 AND utf8_cont c = 0x80" by (auto simp: utf8_cont_def bit_simps intro!: bit_word_eqI)
  then show ?thesis by (metis word_and_le1)
qed

lemma utf8_cont_low: "(ucast (utf8_cont c) :: u32) AND 0x3f = ucast c AND 0x3f"
proof -
  have "utf8_cont c AND 0x3f = c AND 0x3f"
    by (simp add: utf8_cont_def bit.conj_disj_distrib2 and.assoc)
  then have "(ucast (utf8_cont c AND 0x3f) :: u32) = ucast (c AND 0x3f)" by simp
  then show ?thesis by (simp add: unsigned_and_eq)
qed

lemma utf8_tail_cont:
  "list_all (\<lambda>x. 0x80 \<le> x) xs
     \<Longrightarrow> utf8_tail (length xs) u (map utf8_cont xs @ p) = utf8_tail (length xs) u (xs @ p)"
  by (induction xs arbitrary: u) (simp_all add: ucast_high utf8_cont_high utf8_cont_low Let_def)

text \<open>
  C34: Continuation bytes are recognised by their top bit only. Every byte from \<open>0x80\<close> on that follows a
  lead byte, as many as it announces, is read as the continuation byte with the same low six bits:
  replacing them all by those continuation bytes changes neither the result nor where the decoder
  goes on. So ill-formed sequences such as \<open>C2 FF\<close> are decoded like well-formed ones, here \<open>C2 BF\<close>.
\<close>

theorem utf8_continuation:
  assumes "utf8_lead (ucast c) = Some (u, valid, length xs)" "list_all (\<lambda>x. 0x80 \<le> x) xs"
  shows "ngx_utf8_decode (c # map utf8_cont xs @ p) = ngx_utf8_decode (c # xs @ p)"
  using assms(1) utf8_tail_cont [OF assms(2)] by (simp add: ngx_utf8_decode_def)

theorem utf8_continuation_witness:
  "ngx_utf8_decode [0xc2, 0xff] = ngx_utf8_decode [0xc2, 0xbf] \<and> ngx_utf8_decode [0xc2, 0xbf] = (0xbf, [])"
proof -
  have lead: "utf8_lead (ucast (0xc2 :: byte)) = Some (2, 0x7f, length [0xff :: byte])" by (simp add: utf8_lead_def)
  have "ngx_utf8_decode ([0xc2, 0xbf]) = ngx_utf8_decode [0xc2, 0xff]"
    using utf8_continuation [OF lead, of "[]"] by (simp add: utf8_cont_def)
  moreover have "ngx_utf8_decode [0xc2, 0xbf] = (0xbf, [])" by (simp add: ngx_utf8_decode_def utf8_lead_def)
  ultimately show ?thesis by simp
qed

end
