(* ===== verification/Ngx_Sprintf.thy ===== *)
theory Ngx_Sprintf
  imports Ngx_Numbers
begin

text \<open>
  Formatted printing: \<open>ngx_vslprintf\<close> of \<open>src/core/ngx_string.c\<close> with \<open>ngx_sprintf_num\<close> and
  \<open>ngx_sprintf_str\<close>, and its three callers. The lemmas show that no format writes past the end of the
  buffer, that a short buffer gets a prefix of the complete text, and that numbers are read back as
  they were printed.

  What a call writes is a list, and \<open>room\<close> is \<open>last - buf\<close>, with \<open>None\<close> for the \<open>last\<close> of
  \<open>ngx_sprintf\<close>, the end of the address space.
\<close>

section \<open>Numbers and strings\<close>

type_synonym pf_room = "nat option"

definition has_room :: "pf_room \<Rightarrow> bool" where
  "has_room room \<longleftrightarrow> room \<noteq> Some 0"

definition use_room :: "nat \<Rightarrow> pf_room \<Rightarrow> pf_room" where
  "use_room n room = map_option (\<lambda>k. k - n) room"

definition cut_room :: "pf_room \<Rightarrow> 'a list \<Rightarrow> 'a list" where
  "cut_room room xs = (case room of None \<Rightarrow> xs | Some k \<Rightarrow> take k xs)"

text \<open>The digit loops of \<open>ngx_sprintf_num\<close>, which fill \<open>temp\<close> from its end.\<close>

function num_dec :: "nat \<Rightarrow> byte list \<Rightarrow> byte list" where
  "num_dec n temp =
     (let temp' = (of_nat (n mod 10) + b_0) # temp in if n div 10 = 0 then temp' else num_dec (n div 10) temp')"
  by pat_completeness auto
termination
  by (relation "measure fst") auto

function num_hex :: "byte list \<Rightarrow> nat \<Rightarrow> byte list \<Rightarrow> byte list" where
  "num_hex table n temp =
     (let temp' = table ! (n mod 16) # temp in if n div 16 = 0 then temp' else num_hex table (n div 16) temp')"
  by pat_completeness auto
termination
  by (relation "measure (\<lambda>(t, n, w). n)") auto

declare num_dec.simps [simp del] num_hex.simps [simp del]

definition pf_hex :: "byte list" where
  "pf_hex = [48, 49, 50, 51, 52, 53, 54, 55, 56, 57, 97, 98, 99, 100, 101, 102]"

definition pf_HEX :: "byte list" where
  "pf_HEX = [48, 49, 50, 51, 52, 53, 54, 55, 56, 57, 65, 66, 67, 68, 69, 70]"

definition num_text :: "u64 \<Rightarrow> nat \<Rightarrow> byte list" where
  "num_text ui64 hexadecimal =
     (if hexadecimal = 0 then
        (if ui64 \<le> 0xffffffff then num_dec (unat (ucast ui64 :: u32)) [] else num_dec (unat ui64) [])
      else if hexadecimal = 1 then num_hex pf_hex (unat ui64) []
      else num_hex pf_HEX (unat ui64) [])"

definition ngx_sprintf_num :: "pf_room \<Rightarrow> u64 \<Rightarrow> byte \<Rightarrow> nat \<Rightarrow> nat \<Rightarrow> byte list" where
  "ngx_sprintf_num room ui64 zero hexadecimal width =
     (let p = num_text ui64 hexadecimal;
          pad = cut_room room (replicate (width - length p) zero)
      in pad @ cut_room (use_room (length pad) room) p)"

text \<open>\<open>ngx_sprintf_str\<close>: the bytes up to a zero when \<open>len\<close> is \<open>(size_t) -1\<close> (\<open>None\<close>), or \<open>len\<close> of
  them. The hexadecimal loops stop when fewer than two bytes are left.\<close>

fun str_hex :: "byte list \<Rightarrow> pf_room \<Rightarrow> byte list \<Rightarrow> byte list" where
  "str_hex table room [] = []"
| "str_hex table room (c # src) =
     (if has_room room \<and> has_room (use_room 1 room)
      then table ! unat (drop_bit 4 c) # table ! unat (c AND 0xf) # str_hex table (use_room 2 room) src
      else [])"

definition ngx_sprintf_str :: "pf_room \<Rightarrow> byte list \<Rightarrow> nat option \<Rightarrow> nat \<Rightarrow> byte list" where
  "ngx_sprintf_str room src len hexadecimal =
     (let text = (case len of None \<Rightarrow> takeWhile (\<lambda>c. c \<noteq> NUL) src | Some n \<Rightarrow> take n src)
      in if hexadecimal = 0 then cut_room room text
         else if hexadecimal = 1 then str_hex pf_hex room text
         else str_hex pf_HEX room text)"

section \<open>Formats\<close>

text \<open>
  The arguments of a call. \<open>A_num\<close> is an argument of integer or pointer type, \<open>A_str\<close> the bytes of
  an \<open>ngx_str_t\<close> or an \<open>ngx_variable_value_t\<close>, \<open>A_ptr\<close> the bytes in memory from the address of a
  string on, and \<open>A_dbl\<close> a \<open>double\<close>: whether it is negative, the integer part of its absolute value,
  and for a scale the fraction of it in that unit, rounded.
\<close>

datatype pf_arg = A_num int | A_str "byte list" | A_ptr "byte list" | A_dbl bool u64 "u64 \<Rightarrow> u64"

record pf_spec =
  pf_zero :: byte
  pf_width :: nat
  pf_sign :: bool
  pf_base :: nat
  pf_max_width :: bool
  pf_frac_width :: nat
  pf_slen :: "nat option"

fun pf_number :: "nat \<Rightarrow> byte list \<Rightarrow> nat \<times> byte list" where
  "pf_number w [] = (w, [])"
| "pf_number w (c # fmt) =
     (if is_digit c then pf_number ((w * 10 + digit_val c) mod 2 ^ 64) fmt else (w, c # fmt))"

text \<open>The bytes after a percent sign: the pad byte and the width.\<close>

definition pf_start :: "byte list \<Rightarrow> pf_spec \<times> byte list" where
  "pf_start fmt =
     (case pf_number 0 fmt of (w, fmt') \<Rightarrow>
        (\<lparr>pf_zero = (if take 1 fmt = [b_0] then b_0 else SP), pf_width = w, pf_sign = True, pf_base = 0,
          pf_max_width = False, pf_frac_width = 0, pf_slen = None\<rparr>, fmt'))"

text \<open>An integer argument, as \<open>va_arg\<close> reads it at the width of its type.\<close>

definition arg_int :: "int \<Rightarrow> int" where "arg_int n = sint (word_of_int n :: u32)"
definition arg_uint :: "int \<Rightarrow> u64" where "arg_uint n = ucast (word_of_int n :: u32)"
definition arg_int64 :: "int \<Rightarrow> int" where "arg_int64 n = sint (word_of_int n :: u64)"
definition arg_uint64 :: "int \<Rightarrow> u64" where "arg_uint64 n = word_of_int n"

text \<open>The flags. The result is \<open>None\<close> when an argument is missing or of another type.\<close>

fun pf_flags :: "pf_spec \<Rightarrow> byte list \<Rightarrow> pf_arg list \<Rightarrow> (pf_spec \<times> byte list \<times> pf_arg list) option" where
  "pf_flags s [] args = Some (s, [], args)"
| "pf_flags s (c # fmt) args =
     (if c = 117 then pf_flags (s\<lparr>pf_sign := False\<rparr>) fmt args
      else if c = 109 then pf_flags (s\<lparr>pf_max_width := True\<rparr>) fmt args
      else if c = 88 then pf_flags (s\<lparr>pf_base := 2, pf_sign := False\<rparr>) fmt args
      else if c = 120 then pf_flags (s\<lparr>pf_base := 1, pf_sign := False\<rparr>) fmt args
      else if c = b_dot then (case pf_number 0 fmt of (w, fmt') \<Rightarrow> Some (s\<lparr>pf_frac_width := w\<rparr>, fmt', args))
      else if c = b_star then
        (case args of
           A_num n # args' \<Rightarrow>
             pf_flags (s\<lparr>pf_slen := (if arg_uint64 n = - 1 then None else Some (unat (arg_uint64 n)))\<rparr>) fmt args'
         | _ \<Rightarrow> None)
      else Some (s, c # fmt, args))"

text \<open>The integer conversions: \<open>i64\<close> for the signed ones, \<open>ui64\<close> for the others.\<close>

definition pf_integer :: "pf_spec \<Rightarrow> pf_room \<Rightarrow> int \<Rightarrow> u64 \<Rightarrow> byte list" where
  "pf_integer s room i64 ui64 =
     (if pf_sign s then
        (if i64 < 0
         then b_minus # ngx_sprintf_num (use_room 1 room) (word_of_int (- i64)) (pf_zero s) (pf_base s) (pf_width s)
         else ngx_sprintf_num room (word_of_int i64) (pf_zero s) (pf_base s) (pf_width s))
      else ngx_sprintf_num room ui64 (pf_zero s) (pf_base s) (pf_width s))"

abbreviation (input) NGX_INT_T_LEN :: nat where "NGX_INT_T_LEN \<equiv> 20"

text \<open>\<open>%f\<close>: the integer part and, with a fraction width, a point and the rounded fraction.\<close>

definition dbl_parts :: "nat \<Rightarrow> u64 \<Rightarrow> (u64 \<Rightarrow> u64) \<Rightarrow> u64 \<times> u64" where
  "dbl_parts frac_width int_part frac_part =
     (if frac_width = 0 then (int_part, 0)
      else
        (let scale = 10 ^ frac_width; frac = frac_part scale in
         if frac = scale then (int_part + 1, 0) else (int_part, frac)))"

definition pf_fraction :: "nat \<Rightarrow> u64 \<Rightarrow> pf_room \<Rightarrow> byte list" where
  "pf_fraction frac_width frac room =
     (let dot = (if has_room room then [b_dot] else [])
      in dot @ ngx_sprintf_num (use_room (length dot) room) frac b_0 0 frac_width)"

definition pf_double :: "pf_spec \<Rightarrow> pf_room \<Rightarrow> bool \<Rightarrow> u64 \<Rightarrow> (u64 \<Rightarrow> u64) \<Rightarrow> byte list" where
  "pf_double s room neg int_part frac_part =
     (case dbl_parts (pf_frac_width s) int_part frac_part of (ui64, frac) \<Rightarrow>
        (let sgn = (if neg then [b_minus] else []);
             room1 = use_room (length sgn) room;
             num = ngx_sprintf_num room1 ui64 (pf_zero s) 0 (pf_width s)
         in sgn @ num @ (if pf_frac_width s \<noteq> 0
                         then pf_fraction (pf_frac_width s) frac (use_room (length num) room1) else [])))"

definition pf_num :: "pf_spec \<Rightarrow> pf_room \<Rightarrow> byte \<Rightarrow> int \<Rightarrow> byte list option" where
  "pf_num s room d n =
     (if d = 79 \<or> d = 84 \<or> d = 114 then Some (pf_integer (s\<lparr>pf_sign := True\<rparr>) room (arg_int64 n) 0)
      else if d = 80 then Some (pf_integer (s\<lparr>pf_sign := True\<rparr>) room (arg_int n) 0)
      else if d = 77 then
        (if arg_int64 n = - 1 then Some (pf_integer (s\<lparr>pf_sign := True\<rparr>) room (- 1) 0)
         else Some (pf_integer (s\<lparr>pf_sign := False\<rparr>) room 0 (arg_uint64 n)))
      else if d = 122 \<or> d = 108 \<or> d = 76 then Some (pf_integer s room (arg_int64 n) (arg_uint64 n))
      else if d = 105 \<or> d = 65 then
        Some (pf_integer (if pf_max_width s then s\<lparr>pf_width := NGX_INT_T_LEN\<rparr> else s) room (arg_int64 n) (arg_uint64 n))
      else if d = 100 \<or> d = 68 then Some (pf_integer s room (arg_int n) (arg_uint n))
      else if d = 112 then
        Some (pf_integer (s\<lparr>pf_base := 2, pf_sign := False, pf_zero := b_0, pf_width := 16\<rparr>) room 0 (arg_uint64 n))
      else if d = 99 then Some [of_nat (nat (n mod 256))]
      else None)"

text \<open>The conversions that take an argument. In front of them there is room for one byte.\<close>

fun pf_convert :: "pf_spec \<Rightarrow> pf_room \<Rightarrow> byte \<Rightarrow> pf_arg \<Rightarrow> byte list option" where
  "pf_convert s room d (A_num n) = pf_num s room d n"
| "pf_convert s room d (A_str v) =
     (if d = 86 \<or> d = 118 then Some (ngx_sprintf_str room v (Some (length v)) (pf_base s)) else None)"
| "pf_convert s room d (A_ptr p) =
     (if d = 115 then Some (ngx_sprintf_str room p (pf_slen s) (pf_base s)) else None)"
| "pf_convert s room d (A_dbl neg i f) =
     (if d = b_f then Some (pf_double s room neg i f) else None)"

definition takes_arg :: "byte \<Rightarrow> bool" where
  "takes_arg d \<longleftrightarrow> d \<in> {86, 118, 115, 79, 80, 84, 77, 122, 105, 100, 108, 68, 76, 65, 102, 114, 112, 99}"

text \<open>The conversions without: \<open>%Z\<close>, \<open>%N\<close>, \<open>%%\<close>, and any other byte, which stands for itself.\<close>

definition pf_plain :: "byte \<Rightarrow> byte" where
  "pf_plain d = (if d = 90 then NUL else if d = 78 then LF else d)"

text \<open>A directive: what follows a percent sign up to the conversion. A format does not end inside one.\<close>

definition pf_directive :: "byte list \<Rightarrow> pf_arg list \<Rightarrow> (pf_spec \<times> byte \<times> byte list \<times> pf_arg list) option" where
  "pf_directive fmt args =
     (case pf_start fmt of (s0, fmt1) \<Rightarrow>
        (case pf_flags s0 fmt1 args of
           Some (s, d # fmt2, args1) \<Rightarrow> Some (s, d, fmt2, args1)
         | _ \<Rightarrow> None))"

lemma pf_number_length: "length (snd (pf_number w fmt)) \<le> length fmt"
  by (induction w fmt rule: pf_number.induct) (auto intro: le_SucI)

lemma pf_flags_length: "pf_flags s fmt args = Some (s', fmt', args') \<Longrightarrow> length fmt' \<le> length fmt"
proof (induction fmt arbitrary: s args)
  case (Cons c fmt)
  from Cons.prems show ?case
    using pf_number_length [of 0 fmt]
    by (auto split: if_splits list.splits pf_arg.splits prod.splits intro: le_SucI Cons.IH)
qed simp

lemma pf_directive_length: "pf_directive fmt args = Some (s, d, fmt', args') \<Longrightarrow> length fmt' < length fmt"
  using pf_number_length [of 0 fmt]
  by (auto simp: pf_directive_def pf_start_def split: prod.splits option.splits list.splits dest!: pf_flags_length)

function ngx_vslprintf :: "pf_room \<Rightarrow> byte list \<Rightarrow> pf_arg list \<Rightarrow> byte list option" where
  "ngx_vslprintf room [] args = Some []"
| "ngx_vslprintf room (c # fmt) args =
     (if \<not> has_room room then Some []
      else if c \<noteq> b_pct then map_option (Cons c) (ngx_vslprintf (use_room 1 room) fmt args)
      else
        (case pf_directive fmt args of
           None \<Rightarrow> None
         | Some (s, d, fmt', args') \<Rightarrow>
             (if \<not> takes_arg d
              then map_option (Cons (pf_plain d)) (ngx_vslprintf (use_room 1 room) fmt' args')
              else
                (case args' of
                   [] \<Rightarrow> None
                 | a # args'' \<Rightarrow>
                     (case pf_convert s room d a of
                        None \<Rightarrow> None
                      | Some out \<Rightarrow> map_option ((@) out) (ngx_vslprintf (use_room (length out) room) fmt' args''))))))"
  by pat_completeness auto
termination
  by (relation "measure (\<lambda>(room, fmt, args). length fmt)") (auto dest!: pf_directive_length)

definition ngx_sprintf :: "byte list \<Rightarrow> pf_arg list \<Rightarrow> byte list option" where
  "ngx_sprintf fmt args = ngx_vslprintf None fmt args"

definition ngx_snprintf :: "nat \<Rightarrow> byte list \<Rightarrow> pf_arg list \<Rightarrow> byte list option" where
  "ngx_snprintf n fmt args = ngx_vslprintf (Some n) fmt args"

section \<open>Nothing is written past the end\<close>

text \<open>Two contracts of a piece of output as a function of the room: it fits the room, and it is what
  would be written without a limit, cut to the room.\<close>

definition fits :: "(pf_room \<Rightarrow> byte list) \<Rightarrow> bool" where
  "fits w \<longleftrightarrow> (\<forall>k. 0 < k \<longrightarrow> length (w (Some k)) \<le> k)"

definition cuts :: "(pf_room \<Rightarrow> byte list) \<Rightarrow> bool" where
  "cuts w \<longleftrightarrow> (\<forall>k. w (Some k) = take k (w None))"

lemma room_simps [simp]:
  "has_room None" "has_room (Some k) \<longleftrightarrow> 0 < k" "use_room n None = None" "use_room n (Some k) = Some (k - n)"
  "cut_room None xs = xs" "cut_room (Some k) xs = take k xs"
  by (auto simp: has_room_def use_room_def cut_room_def)

lemma cuts_fits: "cuts w \<Longrightarrow> fits w"
  by (simp add: cuts_def fits_def)

lemma cuts_app:
  assumes "cuts v" "cuts w"
  shows "cuts (\<lambda>room. v room @ w (use_room (length (v room)) room))"
proof -
  have "take k (v None) @ take (k - length (take k (v None))) (w None) = take k (v None @ w None)" for k
    by (cases "k \<le> length (v None)") simp_all
  then show ?thesis using assms by (simp add: cuts_def del: take_append)
qed

lemma cuts_const: "cuts (\<lambda>room. cut_room room xs)"
  by (simp add: cuts_def)

lemma cuts_num: "cuts (\<lambda>room. ngx_sprintf_num room ui64 zero hexadecimal width)"
  unfolding ngx_sprintf_num_def Let_def by (rule cuts_app [OF cuts_const cuts_const])

lemma cuts_str: "cuts (\<lambda>room. ngx_sprintf_str room src len 0)"
  by (simp add: ngx_sprintf_str_def cuts_const)

lemma fits_str_hex: "length (str_hex table (Some k) src) \<le> k"
  by (induction table "Some k" src arbitrary: k rule: str_hex.induct) force+

lemma fits_str: "fits (\<lambda>room. ngx_sprintf_str room src len hexadecimal)"
  using fits_str_hex by (auto simp: fits_def ngx_sprintf_str_def Let_def split: option.split)

text \<open>The bytes written where one byte is known to fit.\<close>

lemma cuts_head: "cuts w \<Longrightarrow> 0 < k \<Longrightarrow> c # w (Some (k - 1)) = take k (c # w None)"
  by (cases k) (simp_all add: cuts_def)

lemma pf_integer_cuts: "0 < k \<Longrightarrow> pf_integer s (Some k) i64 ui64 = take k (pf_integer s None i64 ui64)"
  using cuts_num cuts_head [OF cuts_num, of k b_minus] by (auto simp: pf_integer_def cuts_def)

lemma cuts_fraction: "cuts (pf_fraction w frac)"
proof -
  have "cuts (\<lambda>room. if has_room room then [b_dot] else [])" by (auto simp: cuts_def take_Cons')
  from cuts_app [OF this cuts_num [of frac b_0 0 w]] show ?thesis
    by (simp add: pf_fraction_def [abs_def] Let_def)
qed

lemma pf_double_cuts:
  assumes "0 < k"
  shows "pf_double s (Some k) neg i f = take k (pf_double s None neg i f)"
proof -
  obtain ui64 frac where uf: "dbl_parts (pf_frac_width s) i f = (ui64, frac)" by (metis prod.exhaust)
  define w where "w room = ngx_sprintf_num room ui64 (pf_zero s) 0 (pf_width s)
      @ (if pf_frac_width s \<noteq> 0 then pf_fraction (pf_frac_width s) frac
           (use_room (length (ngx_sprintf_num room ui64 (pf_zero s) 0 (pf_width s))) room) else [])" for room
  have "cuts w"
    using cuts_app [OF cuts_num cuts_fraction] cuts_num
    by (cases "pf_frac_width s = 0") (simp_all add: w_def [abs_def])
  moreover have "pf_double s (Some k) neg i f = (if neg then b_minus # w (Some (k - 1)) else w (Some k))"
      "pf_double s None neg i f = (if neg then b_minus # w None else w None)"
    by (simp_all add: pf_double_def uf Let_def w_def)
  ultimately show ?thesis using cuts_head [of w k b_minus] assms by (simp add: cuts_def)
qed

lemma pf_convert_cuts:
  assumes "d \<in> {86, 118, 115} \<longrightarrow> pf_base s = 0" "0 < k" "pf_convert s None d a = Some out"
  shows "pf_convert s (Some k) d a = Some (take k out)"
proof (cases a)
  case (A_num n)
  with assms(2,3) show ?thesis
    by (auto simp: pf_num_def pf_integer_cuts take_Cons' split: if_splits)
next
  case (A_str v)
  with assms show ?thesis using cuts_str by (auto simp: cuts_def split: if_splits)
next
  case (A_ptr p)
  with assms show ?thesis using cuts_str by (auto simp: cuts_def split: if_splits)
next
  case (A_dbl neg i f)
  with assms(2,3) show ?thesis by (auto simp: pf_double_cuts split: if_splits)
qed

lemma pf_convert_fits:
  assumes "0 < k" "pf_convert s (Some k) d a = Some out"
  shows "length out \<le> k"
proof (cases a)
  case (A_num n)
  with assms show ?thesis by (auto simp: pf_num_def pf_integer_cuts split: if_splits)
next
  case (A_dbl neg i f)
  with assms show ?thesis by (auto simp: pf_double_cuts split: if_splits)
qed (use assms fits_str in \<open>auto simp: fits_def split: if_splits\<close>)

text \<open>A format that prints no string in hexadecimal: none of its \<open>%V\<close>, \<open>%v\<close> and \<open>%s\<close> has \<open>x\<close> or \<open>X\<close>.
  Numbers may be printed in any base.\<close>

function no_hex_string :: "byte list \<Rightarrow> pf_arg list \<Rightarrow> bool" where
  "no_hex_string [] args \<longleftrightarrow> True"
| "no_hex_string (c # fmt) args \<longleftrightarrow>
     (if c \<noteq> b_pct then no_hex_string fmt args
      else
        (case pf_directive fmt args of
           None \<Rightarrow> True
         | Some (s, d, fmt', args') \<Rightarrow>
             (d \<in> {86, 118, 115} \<longrightarrow> pf_base s = 0)
             \<and> no_hex_string fmt' (if takes_arg d then tl args' else args')))"
  by pat_completeness auto
termination
  by (relation "measure (\<lambda>(fmt, args). length fmt)") (auto dest!: pf_directive_length)

lemma vslprintf_fits: "ngx_vslprintf (Some k) fmt args = Some out \<Longrightarrow> length out \<le> k"
proof (induction fmt arbitrary: k args out rule: length_induct)
  case (1 fmt)
  have IH: "ngx_vslprintf (Some j) g as = Some o' \<Longrightarrow> length g < length fmt \<Longrightarrow> length o' \<le> j" for j g as o'
    using "1.IH" by blast
  show ?case
  proof (cases fmt)
    case Nil
    with 1 show ?thesis by simp
  next
    case (Cons c f)
    show ?thesis
    proof (cases "k = 0 \<or> c \<noteq> b_pct")
      case True
      with 1 Cons show ?thesis by (cases k) (auto split: if_splits)
    next
      case False
      then obtain s d fmt' args' where dir: "pf_directive f args = Some (s, d, fmt', args')"
        using "1.prems" Cons by (auto split: option.splits)
      note len = pf_directive_length [OF dir]
      show ?thesis
      proof (cases "takes_arg d")
        case True
        then obtain a args'' o1 o2 where o: "args' = a # args''" "pf_convert s (Some k) d a = Some o1"
            "ngx_vslprintf (Some (k - length o1)) fmt' args'' = Some o2" "out = o1 @ o2"
          using "1.prems" Cons False dir by (auto split: list.splits option.splits)
        have "length o1 \<le> k" using pf_convert_fits [OF _ o(2)] False by simp
        moreover have "length o2 \<le> k - length o1" using IH [OF o(3)] len Cons by simp
        ultimately show ?thesis by (simp add: o(4))
      next
        case nt: False
        then obtain o2 where o: "ngx_vslprintf (Some (k - 1)) fmt' args' = Some o2" "out = pf_plain d # o2"
          using "1.prems" Cons False dir by auto
        have "length o2 \<le> k - 1" using IH [OF o(1)] len Cons by simp
        then show ?thesis using False by (auto simp: o(2))
      qed
    qed
  qed
qed

lemma vslprintf_cuts:
  "ngx_vslprintf None fmt args = Some out \<Longrightarrow> no_hex_string fmt args
     \<Longrightarrow> ngx_vslprintf (Some k) fmt args = Some (take k out)"
proof (induction fmt arbitrary: k args out rule: length_induct)
  case (1 fmt)
  show ?case
  proof (cases "fmt = [] \<or> k = 0")
    case True
    then show ?thesis using "1.prems" by (cases fmt) auto
  next
    case False
    then obtain c f where fmt: "fmt = c # f" and k: "0 < k" by (cases fmt) auto
    show ?thesis
    proof (cases "c = b_pct")
      case False
      then obtain o1 where "ngx_vslprintf None f args = Some o1" "out = c # o1"
        using "1.prems" fmt by auto
      with "1.IH" "1.prems" fmt k False show ?thesis by (cases k) auto
    next
      case True
      then obtain s d fmt' args' where dir: "pf_directive f args = Some (s, d, fmt', args')"
        using "1.prems" fmt by (auto split: option.splits)
      have len: "length fmt' < length fmt" using pf_directive_length [OF dir] fmt by simp
      have base: "d \<in> {86, 118, 115} \<longrightarrow> pf_base s = 0"
        and free: "no_hex_string fmt' (if takes_arg d then tl args' else args')"
        using "1.prems"(2) fmt True dir by auto
      show ?thesis
      proof (cases "takes_arg d")
        case nt: False
        then obtain o2 where o: "ngx_vslprintf None fmt' args' = Some o2" "out = pf_plain d # o2"
          using "1.prems" fmt True dir by auto
        have "ngx_vslprintf (Some (k - 1)) fmt' args' = Some (take (k - 1) o2)" using "1.IH" o(1) len free nt by simp
        then show ?thesis using k fmt True dir nt by (cases k) (simp_all add: o(2))
      next
        case ta: True
        then obtain a args'' o1 o2 where o: "args' = a # args''" "pf_convert s None d a = Some o1"
            "ngx_vslprintf None fmt' args'' = Some o2" "out = o1 @ o2"
          using "1.prems" fmt True dir by (auto split: list.splits option.splits)
        have "pf_convert s (Some k) d a = Some (take k o1)" by (rule pf_convert_cuts [OF base k o(2)])
        moreover have "ngx_vslprintf (Some (k - length (take k o1))) fmt' args'' = Some (take (k - length (take k o1)) o2)"
          using "1.IH" o(1,3) len free ta by simp
        moreover have "take k o1 @ take (k - length (take k o1)) o2 = take k (o1 @ o2)"
          by (cases "k \<le> length o1") simp_all
        ultimately show ?thesis using k fmt True dir ta o(1) by (simp add: o(4) del: take_append length_take)
      qed
    qed
  qed
qed

section \<open>Numbers are read back\<close>

text \<open>The loop that writes the digits of a number in some base from the last one on, and the reading of
  digits by Horner's rule that undoes it.\<close>

locale digit_loop =
  fixes base :: nat and dig :: "nat \<Rightarrow> byte" and dval :: "byte \<Rightarrow> nat" and ok :: "byte \<Rightarrow> bool"
    and loop :: "nat \<Rightarrow> byte list \<Rightarrow> byte list" and rd :: "nat \<Rightarrow> byte list \<Rightarrow> nat"
  assumes base: "2 \<le> base"
    and digit: "d < base \<Longrightarrow> ok (dig d) \<and> dval (dig d) = d"
    and loop: "loop n temp = (if n div base = 0 then dig (n mod base) # temp
      else loop (n div base) (dig (n mod base) # temp))"
    and rd: "rd v w = foldl (\<lambda>v c. v * base + dval c) v w"
begin

lemma mod_base: "n mod base < base"
  using base by simp

lemma loop_digits:
  "\<exists>D. loop n temp = D @ temp \<and> D \<noteq> [] \<and> list_all ok D \<and> (\<forall>v. rd v D = v * base ^ length D + n)
     \<and> (\<forall>m. 0 < m \<longrightarrow> n < base ^ m \<longrightarrow> length D \<le> m)"
proof (induction n arbitrary: temp rule: less_induct)
  case (less n)
  let ?c = "dig (n mod base)"
  have c: "ok ?c" "dval ?c = n mod base" using digit [OF mod_base] by simp_all
  show ?case
  proof (cases "n div base = 0")
    case True
    then have "n mod base = n" using base by (simp add: div_eq_0_iff)
    then show ?thesis using c True by (intro exI [of _ "[?c]"]) (simp add: loop [of n] rd)
  next
    case False
    then have "n div base < n" using base by (cases n) (simp_all add: div_less_dividend)
    from less.IH [OF this, of "?c # temp"] obtain D where D: "loop (n div base) (?c # temp) = D @ ?c # temp"
        "list_all ok D" "\<And>v. rd v D = v * base ^ length D + n div base"
        "\<And>m. 0 < m \<Longrightarrow> n div base < base ^ m \<Longrightarrow> length D \<le> m"
      by blast
    have "rd v (D @ [?c]) = (v * base ^ length D + n div base) * base + n mod base" for v
      using D(3) [of v] c(2) by (simp add: rd)
    then have "rd v (D @ [?c]) = v * base ^ length (D @ [?c]) + n" for v
      by (simp add: algebra_simps)
    moreover have "length (D @ [?c]) \<le> m" if "0 < m" "n < base ^ m" for m
    proof (cases m)
      case (Suc j)
      then have "n div base < base ^ j" using that(2) by (simp add: less_mult_imp_div_less mult.commute)
      moreover from this have "j \<noteq> 0" using False by (cases j) simp_all
      ultimately show ?thesis using D(4) [of j] Suc by simp
    qed (use that in simp)
    moreover have "loop n temp = (D @ [?c]) @ temp" using False D(1) by (simp add: loop [of n])
    ultimately show ?thesis using D(2) c(1) by (intro exI [of _ "D @ [?c]"]) simp
  qed
qed

lemma loop_read:
  "loop n [] \<noteq> []" "list_all ok (loop n [])" "rd 0 (loop n []) = n"
  "0 < m \<Longrightarrow> n < base ^ m \<Longrightarrow> length (loop n []) \<le> m"
  using loop_digits [of n "[]"] by auto

end

lemma dec_digit:
  assumes "d < 10"
  shows "is_digit (of_nat d + b_0)" "digit_val (of_nat d + b_0) = d"
proof -
  have "unat (of_nat d + b_0 :: byte) = d + 48" using assms by (simp add: unat_word_ariths unat_of_nat)
  then show "is_digit (of_nat d + b_0)" using assms by (simp add: is_digit_def word_le_nat_alt)
  show "digit_val (of_nat d + b_0) = d" using assms by (simp add: digit_val_def unat_of_nat)
qed

lemma hex_tables: "i < 16 \<Longrightarrow> hex_digit (pf_hex ! i) = Some i" "i < 16 \<Longrightarrow> hex_digit (pf_HEX ! i) = Some i"
proof -
  have "list_all (\<lambda>i. hex_digit (pf_hex ! i) = Some i \<and> hex_digit (pf_HEX ! i) = Some i) [0..<16]" by code_simp
  then show "i < 16 \<Longrightarrow> hex_digit (pf_hex ! i) = Some i" "i < 16 \<Longrightarrow> hex_digit (pf_HEX ! i) = Some i"
    by (simp_all add: list_all_iff)
qed

interpretation dl: digit_loop 10 "\<lambda>d. of_nat d + b_0" digit_val is_digit num_dec dec_from
proof
  show "num_dec n temp = (if n div 10 = 0 then (of_nat (n mod 10) + b_0) # temp
      else num_dec (n div 10) ((of_nat (n mod 10) + b_0) # temp))" for n temp
    by (simp add: num_dec.simps [of n temp] Let_def)
qed (use dec_digit in \<open>simp_all add: dec_from_def\<close>)

interpretation hl: digit_loop 16 "(!) pf_hex" "\<lambda>c. the (hex_digit c)" "\<lambda>c. hex_digit c \<noteq> None"
  "num_hex pf_hex" hex_val_from
proof
  show "num_hex pf_hex n temp = (if n div 16 = 0 then pf_hex ! (n mod 16) # temp
      else num_hex pf_hex (n div 16) (pf_hex ! (n mod 16) # temp))" for n temp
    by (simp add: num_hex.simps [of pf_hex n temp] Let_def)
qed (simp_all add: hex_val_from_def hex_tables)

interpretation hu: digit_loop 16 "(!) pf_HEX" "\<lambda>c. the (hex_digit c)" "\<lambda>c. hex_digit c \<noteq> None"
  "num_hex pf_HEX" hex_val_from
proof
  show "num_hex pf_HEX n temp = (if n div 16 = 0 then pf_HEX ! (n mod 16) # temp
      else num_hex pf_HEX (n div 16) (pf_HEX ! (n mod 16) # temp))" for n temp
    by (simp add: num_hex.simps [of pf_HEX n temp] Let_def)
qed (simp_all add: hex_val_from_def hex_tables)

lemma num_text_dec: "num_text ui64 0 = num_dec (unat ui64) []"
proof -
  have "unat (ucast ui64 :: u32) = unat ui64" if "ui64 \<le> 0xffffffff"
    using that by (simp add: word_le_nat_alt unsigned_ucast_eq take_bit_nat_eq_self)
  then show ?thesis by (auto simp: num_text_def)
qed

lemma num_text_length: "length (num_text ui64 h) \<le> 20"
proof -
  have "unat ui64 < 2 ^ LENGTH(64)" by (rule unsigned_less)
  then have "unat ui64 < 10 ^ 20" "unat ui64 < 16 ^ 20" by simp_all
  then have "length (num_text ui64 0) \<le> 20" "length (num_hex pf_hex (unat ui64) []) \<le> 20"
      "length (num_hex pf_HEX (unat ui64) []) \<le> 20"
    using dl.loop_read(4) [of 20] hl.loop_read(4) [of 20] hu.loop_read(4) [of 20] by (simp_all add: num_text_dec)
  then show ?thesis by (cases "h = 0") (auto simp: num_text_def)
qed

text \<open>The formats \<open>%L\<close>, \<open>%uL\<close>, \<open>%xL\<close> and \<open>%XL\<close>.\<close>

lemma sprintf_L:
  assumes "0 \<le> n" "n < 2 ^ 63"
  shows "ngx_sprintf [37, 76] [A_num n] = Some (num_text (word_of_int n) 0)"
    "ngx_sprintf [37, 117, 76] [A_num n] = Some (num_text (word_of_int n) 0)"
    "ngx_sprintf [37, 120, 76] [A_num n] = Some (num_text (word_of_int n) 1)"
    "ngx_sprintf [37, 88, 76] [A_num n] = Some (num_text (word_of_int n) 2)"
proof -
  have "arg_int64 n = n" using assms by (simp add: arg_int64_def signed_of_int signed_take_bit_int_eq_self)
  then show "ngx_sprintf [37, 76] [A_num n] = Some (num_text (word_of_int n) 0)"
    "ngx_sprintf [37, 117, 76] [A_num n] = Some (num_text (word_of_int n) 0)"
    "ngx_sprintf [37, 120, 76] [A_num n] = Some (num_text (word_of_int n) 1)"
    "ngx_sprintf [37, 88, 76] [A_num n] = Some (num_text (word_of_int n) 2)"
    using assms
    by (simp_all add: ngx_sprintf_def pf_directive_def pf_start_def is_digit_def takes_arg_def pf_num_def
        pf_integer_def arg_uint64_def ngx_sprintf_num_def Let_def)
qed

section \<open>Properties\<close>

text \<open>
  C27: Formatted printing respects the buffer. For every format and all arguments that match it,
  \<open>ngx_snprintf(buf, n, ...)\<close> writes at most \<open>n\<close> bytes, and the digits of a number never need more
  than the \<open>NGX_INT64_LEN\<close> bytes of \<open>temp\<close>. If the format prints no string in hexadecimal (\<open>%xV\<close>,
  \<open>%Xs\<close> and the like), what it writes is the first \<open>n\<close> bytes of what \<open>ngx_sprintf\<close> writes: the text is
  cut, never garbled. A hexadecimal string that does not fit is left out from some byte on, while
  what follows it may still be printed.
\<close>

theorem sprintf_bounded:
  "(\<forall>out. ngx_snprintf n fmt args = Some out \<longrightarrow> length out \<le> n)
   \<and> length (num_text ui64 h) \<le> 20
   \<and> (\<forall>out. no_hex_string fmt args \<longrightarrow> ngx_sprintf fmt args = Some out
        \<longrightarrow> ngx_snprintf n fmt args = Some (take n out))"
  using vslprintf_fits vslprintf_cuts num_text_length
  by (auto simp: ngx_snprintf_def ngx_sprintf_def)

text \<open>The format \<open>a%05d%s\<close>, with room for four bytes.\<close>

lemma sprintf_sample:
  "ngx_sprintf [97, 37, 48, 53, 100, 37, 115] [A_num (- 42), A_ptr [98, 0]] = Some [97, 45, 48, 48, 48, 52, 50, 98]"
  by (simp add: ngx_sprintf_def pf_directive_def pf_start_def is_digit_def digit_val_def takes_arg_def pf_num_def
      pf_integer_def arg_int_def ngx_sprintf_num_def num_text_def num_dec.simps Let_def ngx_sprintf_str_def
      numeral_3_eq_3)

theorem sprintf_bounded_witness:
  "ngx_snprintf 4 [97, 37, 48, 53, 100, 37, 115] [A_num (- 42), A_ptr [98, 0]] = Some [97, 45, 48, 48]"
proof -
  have "no_hex_string [97, 37, 48, 53, 100, 37, 115] [A_num (- 42), A_ptr [98, 0]]"
    by (simp add: pf_directive_def pf_start_def is_digit_def digit_val_def takes_arg_def)
  then show ?thesis
    using sprintf_bounded [of 4 "[97, 37, 48, 53, 100, 37, 115]" "[A_num (- 42), A_ptr [98, 0]]" 0 0] sprintf_sample
    by simp
qed

text \<open>
  C28: Numbers are read back as they were printed: for every non-negative 64-bit integer, \<open>ngx_atoi\<close>
  of what \<open>%L\<close> and \<open>%uL\<close> print, and \<open>ngx_hextoi\<close> of what \<open>%xL\<close> and \<open>%XL\<close> print, is that integer.
\<close>

theorem sprintf_number_roundtrip:
  assumes "0 \<le> n" "n \<le> NGX_MAX_INT_T_VALUE"
  shows "map_option ngx_atoi (ngx_sprintf [37, 76] [A_num n]) = Some n
    \<and> map_option ngx_atoi (ngx_sprintf [37, 117, 76] [A_num n]) = Some n
    \<and> map_option ngx_hextoi (ngx_sprintf [37, 120, 76] [A_num n]) = Some n
    \<and> map_option ngx_hextoi (ngx_sprintf [37, 88, 76] [A_num n]) = Some n"
proof -
  let ?n = "unat (word_of_int n :: u64)"
  have n: "int ?n = n" using assms by (simp add: unsigned_of_int take_bit_int_eq_self)
  have "ngx_atoi (num_text (word_of_int n) 0) = n"
    using dl.loop_read [of ?n] assms n by (simp add: ato_eqs dec_number_def num_text_dec)
  moreover have "ngx_hextoi (num_text (word_of_int n) 1) = n"
    using hl.loop_read [of ?n] hextoi_loop_eq [of 0 "num_hex pf_hex ?n []"] assms n
    by (simp add: num_text_def ngx_hextoi_def hex_string_def list_all_iff)
  moreover have "ngx_hextoi (num_text (word_of_int n) 2) = n"
    using hu.loop_read [of ?n] hextoi_loop_eq [of 0 "num_hex pf_HEX ?n []"] assms n
    by (simp add: num_text_def ngx_hextoi_def hex_string_def list_all_iff)
  ultimately show ?thesis using sprintf_L [of n] assms by simp
qed

theorem sprintf_number_roundtrip_witness:
  "map_option ngx_hextoi (ngx_sprintf [37, 120, 76] [A_num 48879]) = Some 48879"
  using sprintf_number_roundtrip [of 48879] by simp

end
