(* ===== verification/Ngx_Times_Spec.thy ===== *)
theory Ngx_Times_Spec
  imports Ngx_Times
begin

text \<open>
  The calendar that \<open>ngx_gmtime\<close> and \<open>ngx_parse_http_time\<close> are measured against, and their
  correctness: years and months are counted one by one, without Gauss' formula.
\<close>

section \<open>The calendar\<close>

definition leap_year :: "nat \<Rightarrow> bool" where
  "leap_year y \<longleftrightarrow> y mod 4 = 0 \<and> (y mod 100 \<noteq> 0 \<or> y mod 400 = 0)"

definition month_len :: "nat \<Rightarrow> nat \<Rightarrow> nat" where
  "month_len y m = (if m = 1 \<and> leap_year y then 29 else time_mday ! m)"

text \<open>Days before a year, since the start of year 0, and days of a year before one of its months,
  counted from 0 for January.\<close>

primrec year_start :: "nat \<Rightarrow> nat" where
  "year_start 0 = 0"
| "year_start (Suc y) = year_start y + (if leap_year y then 366 else 365)"

definition month_start :: "nat \<Rightarrow> nat \<Rightarrow> nat" where
  "month_start y m = sum_list (map (month_len y) [0..<m])"

text \<open>The seconds since January 1, 1970, which is day 719528 of this count.\<close>

definition civil_days :: "nat \<Rightarrow> nat \<Rightarrow> nat \<Rightarrow> int" where
  "civil_days y m d = int (year_start y + month_start y m + d) - 1 - 719528"

definition civil_time :: "nat \<Rightarrow> nat \<Rightarrow> nat \<Rightarrow> nat \<Rightarrow> nat \<Rightarrow> nat \<Rightarrow> int" where
  "civil_time y m d hour minute sec = civil_days y m d * 86400 + int (hour * 3600 + minute * 60 + sec)"

definition clock_ok :: "nat \<Rightarrow> nat \<Rightarrow> nat \<Rightarrow> bool" where
  "clock_ok hour minute sec \<longleftrightarrow> hour \<le> 23 \<and> minute \<le> 59 \<and> sec \<le> 59"

definition date_ok :: "nat \<Rightarrow> nat \<Rightarrow> nat \<Rightarrow> bool" where
  "date_ok y m d \<longleftrightarrow> m < 12 \<and> 1 \<le> d \<and> d \<le> month_len y m"

section \<open>Gauss' formula\<close>

text \<open>Days before March of a year.\<close>

definition gauss_year :: "int \<Rightarrow> int" where
  "gauss_year y = 365 * y + y div 4 - y div 100 + y div 400"

lemma century_mods: "(y :: nat) mod 400 = 0 \<Longrightarrow> y mod 100 = 0" "y mod 100 = 0 \<Longrightarrow> y mod 4 = 0"
  using mod_mod_cancel [of 100 400 y] mod_mod_cancel [of 4 100 y] by simp_all

lemma year_start_closed:
  "int (year_start y) = int (365 * y + (y + 3) div 4 + (y + 399) div 400) - int ((y + 99) div 100)"
proof (induction y)
  case (Suc y)
  obtain a where a: "(y + 3) div 4 = a" "(Suc y + 3) div 4 = a + (if y mod 4 = 0 then 1 else 0)"
    using div_Suc [of "y + 3" 4] by simp
  obtain b where b: "(y + 99) div 100 = b" "(Suc y + 99) div 100 = b + (if y mod 100 = 0 then 1 else 0)"
    using div_Suc [of "y + 99" 100] by simp
  obtain c where c: "(y + 399) div 400 = c" "(Suc y + 399) div 400 = c + (if y mod 400 = 0 then 1 else 0)"
    using div_Suc [of "y + 399" 400] by simp
  show ?case
    using Suc century_mods [of y] unfolding a b c year_start.simps leap_year_def by auto
qed simp

lemma gauss_year_int: "gauss_year (int y) = int (365 * y + y div 4 + y div 400) - int (y div 100)"
  by (simp add: gauss_year_def zdiv_int)

lemma gauss_year_step: "gauss_year (int (Suc y)) = gauss_year (int y) + 365 + (if leap_year (Suc y) then 1 else 0)"
proof -
  have "Suc y div 4 = y div 4 + (if Suc y mod 4 = 0 then 1 else 0)"
      "Suc y div 100 = y div 100 + (if Suc y mod 100 = 0 then 1 else 0)"
      "Suc y div 400 = y div 400 + (if Suc y mod 400 = 0 then 1 else 0)"
    using div_Suc [of y 4] div_Suc [of y 100] div_Suc [of y 400] by auto
  then show ?thesis
    using century_mods [of "Suc y"] gauss_year_int [of y] gauss_year_int [of "Suc y"] by (auto simp: leap_year_def)
qed

lemma gauss_year_start: "gauss_year (int y) + 366 = int (year_start (Suc y))"
proof -
  obtain a b c where abc: "y div 4 = a" "y div 100 = b" "y div 400 = c" by blast
  have "(Suc y + 3) div 4 = a + 1" "(Suc y + 99) div 100 = b + 1" "(Suc y + 399) div 400 = c + 1"
    unfolding abc [symmetric] by simp_all
  with year_start_closed [of "Suc y"] have "int (year_start (Suc y)) = int (365 * Suc y + (a + 1) + (c + 1)) - int (b + 1)"
    by (simp only:)
  moreover have "gauss_year (int y) = int (365 * y + a + c) - int b" unfolding gauss_year_int abc ..
  ultimately show ?thesis by (simp del: year_start.simps)
qed

text \<open>The month in a year that starts in March: 1 for March, 12 for February.\<close>

definition gauss_month :: "nat \<Rightarrow> int" where
  "gauss_month m = (if m < 2 then int m + 11 else int m - 1)"

lemma month_cases: "(m :: nat) < 12 \<Longrightarrow> m \<in> {0, 1, 2, 3, 4, 5, 6, 7, 8, 9, 10, 11}"
  by (simp add: eval_nat_numeral less_Suc_eq; blast)

lemma gauss_civil_early:
  assumes "m < 2"
  shows "gauss_year (int y) + 367 * gauss_month m div 12 - 30 + int d - 1 - 719527 + 59 = civil_days (Suc y) m d"
proof -
  have "m = 0 \<or> m = 1" using assms by auto
  then show ?thesis
    using gauss_year_start [of y]
    by (auto simp: gauss_month_def civil_days_def month_start_def month_len_def time_mday_def
        simp del: year_start.simps)
qed

lemma gauss_civil_late:
  assumes "2 \<le> m" "m < 12"
  shows "gauss_year (int y) + 367 * gauss_month m div 12 - 30 + int d - 1 - 719527 + 59 = civil_days y m d"
proof -
  have "gauss_year (int y) + 366 = int (year_start y) + (if leap_year y then 366 else 365)"
    using gauss_year_start [of y] by simp
  moreover have "int (month_start y m) = 367 * gauss_month m div 12 - 30 + (if leap_year y then 60 else 59)"
    using month_cases [OF assms(2)] assms(1)
    by (elim insertE) (simp_all add: gauss_month_def month_start_def month_len_def time_mday_def upt_rec)
  ultimately show ?thesis by (simp add: civil_days_def split: if_splits)
qed

section \<open>\<open>ngx_gmtime\<close>\<close>

text \<open>The quotient that \<open>ngx_gmtime\<close> starts from is the year, or the year after it.\<close>

lemma gm_year_estimate:
  assumes "year = (days + 2) * 400 div (146097 :: int)"
  shows "days < gauss_year (year + 1)" "gauss_year (year - 1) \<le> days"
proof -
  have b: "146097 * year \<le> (days + 2) * 400" "(days + 2) * 400 < 146097 * year + 146097"
  proof -
    have "(days + 2) * 400 = year * 146097 + (days + 2) * 400 mod 146097" by (simp only: assms div_mult_mod_eq)
    then obtain m where m: "(days + 2) * 400 = year * 146097 + m" "0 \<le> m" "m < 146097" by fastforce
    show "146097 * year \<le> (days + 2) * 400" using m by linarith
    show "(days + 2) * 400 < 146097 * year + 146097" using m by linarith
  qed
  have g: "400 * gauss_year n \<ge> 146097 * n - 699" "400 * gauss_year n \<le> 146097 * n + 396" for n
  proof -
    obtain a where a: "n div 4 = a" "4 * a \<le> n" "n < 4 * a + 4" by fastforce
    obtain b where b: "n div 100 = b" "100 * b \<le> n" "n < 100 * b + 100" by fastforce
    obtain c where c: "n div 400 = c" "400 * c \<le> n" "n < 400 * c + 400" by fastforce
    have "gauss_year n = 365 * n + a - b + c" by (simp add: gauss_year_def a b c)
    then show "400 * gauss_year n \<ge> 146097 * n - 699" "400 * gauss_year n \<le> 146097 * n + 396"
      using a(2,3) b(2,3) c(2,3) by (simp_all add: algebra_simps)
  qed
  show "days < gauss_year (year + 1)" using b(2) g(1) [of "year + 1"] by (simp add: algebra_simps)
  show "gauss_year (year - 1) \<le> days" using b(1) g(2) [of "year - 1"] by (simp add: algebra_simps)
qed

lemma int_mod_0: "(int k mod numeral w = 0) = (k mod numeral w = 0)"
  by (metis of_nat_0_eq_iff of_nat_numeral zmod_int)

lemma gm_year_correct:
  assumes "400 \<le> days" "gm_year days = (year, yday)"
  shows "\<exists>y. year = int y \<and> 0 \<le> yday \<and> yday \<le> 364 + (if leap_year (Suc y) then 1 else 0)
    \<and> gauss_year year + yday = days"
proof -
  define e where "e = (days + 2) * 400 div (146097 :: int)"
  note est = gm_year_estimate [OF e_def]
  have e1: "1 \<le> e" using assms(1) by (simp add: e_def)
  have "e = int (Suc (nat (e - 1)))" using e1 by simp
  then obtain n where n: "e = int (Suc n)" ..
  have leap: "(e mod 4 = 0 \<and> (e mod 100 \<noteq> 0 \<or> e mod 400 = 0)) = leap_year (Suc n)"
    unfolding n leap_year_def by (simp only: int_mod_0)
  have num: "365 * 400 + 100 - 4 + 1 = (146097 :: int)" by simp
  have gm: "gm_year days = (if days - gauss_year e < 0
      then (e - 1, 365 + (if leap_year (Suc n) then 1 else 0) + (days - gauss_year e)) else (e, days - gauss_year e))"
    unfolding gm_year_def Let_def gauss_year_def leap [symmetric] num e_def [symmetric] ..
  show ?thesis
  proof (cases "days < gauss_year e")
    case True
    then have "gm_year days = (e - 1, 365 + (if leap_year (Suc n) then 1 else 0) + (days - gauss_year e))"
      unfolding gm by simp
    then have "year = int n" "yday = 365 + (if leap_year (Suc n) then 1 else 0) + (days - gauss_year e)"
      unfolding assms(2) n by auto
    moreover have "gauss_year e = gauss_year (int n) + 365 + (if leap_year (Suc n) then 1 else 0)"
      using gauss_year_step [of n] n by simp
    moreover have "gauss_year (int n) \<le> days" using est(2) n by simp
    ultimately show ?thesis using True by (intro exI [of _ n]) auto
  next
    case False
    then have "gm_year days = (e, days - gauss_year e)" unfolding gm by simp
    then have "year = int (Suc n)" "yday = days - gauss_year e" unfolding assms(2) n by auto
    moreover have "gauss_year (e + 1) = gauss_year e + 365 + (if leap_year (Suc (Suc n)) then 1 else 0)"
      using gauss_year_step [of "Suc n"] n by simp
    ultimately show ?thesis using False est(1) n by (intro exI [of _ "Suc n"]) (auto simp: algebra_simps)
  qed
qed

text \<open>The months of a year that starts in March, for each of its days.\<close>

definition march_month :: "int \<Rightarrow> int" where
  "march_month yday = (yday + 31) * 10 div 306"

definition march_mday :: "int \<Rightarrow> int" where
  "march_mday yday = yday - (367 * march_month yday div 12 - 30) + 1"

lemma march_month_cases:
  assumes "0 \<le> k" "k \<le> 365"
  obtains "k \<le> 305" "march_month k \<in> {1..10}" "1 \<le> march_mday k"
      "march_mday k \<le> int (time_mday ! (nat (march_month k) + 1))"
    | "306 \<le> k" "march_month k = 11" "1 \<le> march_mday k" "march_mday k \<le> 31"
    | "306 \<le> k" "march_month k = 12" "1 \<le> march_mday k" "march_mday k \<le> k - 336"
proof -
  have "(k + 31) * 10 = march_month k * 306 + (k + 31) * 10 mod 306"
    unfolding march_month_def by (simp only: div_mult_mod_eq)
  then obtain M r where M: "march_month k = M" "(k + 31) * 10 = M * 306 + r" "0 \<le> r" "r < 306" by fastforce
  have "1 \<le> M" "M \<le> 12" using M(2-4) assms by auto
  then have "M \<in> {1, 2, 3, 4, 5, 6, 7, 8, 9, 10, 11, 12}" by (simp only: insert_iff empty_iff) presburger
  then show thesis
    using M that assms unfolding march_mday_def
    by (elim insertE emptyE) (simp_all add: time_mday_def)
qed

lemma march_month_nonneg: "0 \<le> yday \<Longrightarrow> 0 \<le> march_month yday"
  by (simp add: march_month_def)

lemma gm_month_correct:
  assumes "0 \<le> yday" "yday \<le> 364 + (if leap_year (Suc y) then 1 else 0)"
    and "gm_month (int y) yday = (year, mon, mday)"
  shows "\<exists>m d. year = int (if 306 \<le> yday then Suc y else y) \<and> mon = int (Suc m) \<and> mday = int d
    \<and> date_ok (if 306 \<le> yday then Suc y else y) m d
    \<and> civil_days (if 306 \<le> yday then Suc y else y) m d = gauss_year (int y) + yday - 719468"
proof -
  have k: "yday \<le> 365" using assms(2) by (simp split: if_splits)
  define M where "M = nat (march_month yday)"
  have M: "march_month yday = int M" using march_month_nonneg [OF assms(1)] by (simp add: M_def)
  define d where "d = nat (march_mday yday)"
  have d: "march_mday yday = int d" by (cases rule: march_month_cases [OF assms(1) k]) (simp_all add: d_def)
  have gm: "gm_month (int y) yday = (if 306 \<le> yday then (int y + 1, int M - 10, int d) else (int y, int M + 2, int d))"
    unfolding gm_month_def Let_def using M d by (simp add: march_month_def march_mday_def)
  have days: "int d = yday - (367 * int M div 12 - 30) + 1" using d M by (simp add: march_mday_def)
  show ?thesis
  proof (cases "306 \<le> yday")
    case y: False
    then have t: "M \<in> {1..10}" "1 \<le> d" "d \<le> time_mday ! (M + 1)"
      using M d by (cases rule: march_month_cases [OF assms(1) k]; force)+
    have "year = int y" "mon = int (Suc (M + 1))" "mday = int d" using assms(3) y unfolding gm by auto
    moreover have "date_ok y (M + 1) d" using t by (auto simp: date_ok_def month_len_def)
    moreover have "gauss_month (M + 1) = int M" using t(1) by (simp add: gauss_month_def)
    then have "civil_days y (M + 1) d = gauss_year (int y) + yday - 719468"
      using gauss_civil_late [of "M + 1" y d] t(1) days by simp
    ultimately show ?thesis using y by (simp only: if_False) blast
  next
    case y: True
    then have M': "M = 11 \<or> M = 12" and t: "1 \<le> d" "M = 11 \<Longrightarrow> d \<le> 31" "M = 12 \<Longrightarrow> int d \<le> yday - 336"
      using M d by (cases rule: march_month_cases [OF assms(1) k]; force)+
    have "year = int (Suc y)" "mon = int (Suc (M - 11))" "mday = int d" using assms(3) y M' unfolding gm by auto
    moreover have "date_ok (Suc y) (M - 11) d"
      using t M' assms(2) by (auto simp: date_ok_def month_len_def time_mday_def split: if_splits)
    moreover have "gauss_month (M - 11) = int M" using M' by (auto simp: gauss_month_def)
    then have "civil_days (Suc y) (M - 11) d = gauss_year (int y) + yday - 719468"
      using gauss_civil_early [of "M - 11" y d] M' days by auto
    ultimately show ?thesis using y by (simp only: if_True) blast
  qed
qed

text \<open>The times up to the end of year 9999 are broken down exactly.\<close>

definition tm_is :: "ngx_tm \<Rightarrow> nat \<Rightarrow> nat \<Rightarrow> nat \<Rightarrow> nat \<Rightarrow> nat \<Rightarrow> nat \<Rightarrow> bool" where
  "tm_is tm y m d hour minute sec \<longleftrightarrow>
     tm_year tm = int y \<and> tm_mon tm = int (Suc m) \<and> tm_mday tm = int d \<and> tm_hour tm = int hour
     \<and> tm_min tm = int minute \<and> tm_sec tm = int sec"

lemma gmtime_clock:
  assumes "0 \<le> s" "s < 86400"
  shows "\<exists>h mi se. s div 3600 = int h \<and> s mod 3600 div 60 = int mi \<and> s mod 3600 mod 60 = int se
    \<and> clock_ok h mi se \<and> int (h * 3600 + mi * 60 + se) = s"
proof -
  obtain a r where a: "s div 3600 = a" "s mod 3600 = r" "s = a * 3600 + r" "0 \<le> r" "r < 3600"
    by (metis div_mult_mod_eq pos_mod_bound pos_mod_sign zero_less_numeral)
  obtain b c where b: "r div 60 = b" "r mod 60 = c" "r = b * 60 + c" "0 \<le> c" "c < 60"
    by (metis div_mult_mod_eq pos_mod_bound pos_mod_sign zero_less_numeral)
  have "0 \<le> a" "a < 24" "0 \<le> b" "b < 60" using a(3-5) b(3-5) assms by auto
  then have "int (nat a) = a" "int (nat b) = b" "int (nat c) = c" "clock_ok (nat a) (nat b) (nat c)"
    using b(4,5) by (simp_all add: clock_ok_def nat_le_iff)
  moreover from this have "int (nat a * 3600 + nat b * 60 + nat c) = s" using a(3) b(3) by simp
  ultimately show ?thesis unfolding a(1,2) b(1,2) by metis
qed

lemma gauss_year_mono: "a \<le> b \<Longrightarrow> gauss_year (int a) \<le> gauss_year (int b)"
  by (rule lift_Suc_mono_le [of "\<lambda>n. gauss_year (int n)"]) (simp_all only: gauss_year_step, simp)

lemma gmtime_unfold:
  assumes "0 \<le> t" "t div 86400 = D" "t mod 86400 = S" "D \<le> 2932896"
    and "gm_year (D - (31 + 28) + 719527) = (Y, k)" "gm_month Y k = (year, mon, mday)"
  shows "ngx_gmtime t = \<lparr>tm_sec = S mod 3600 mod 60, tm_min = S mod 3600 div 60, tm_hour = S div 3600,
    tm_mday = mday, tm_mon = mon, tm_year = year, tm_wday = (4 + D) mod 7\<rparr>"
proof -
  have "\<not> t < 0" "\<not> D > 2932896" using assms(1,4) by simp_all
  then show ?thesis unfolding ngx_gmtime_def Let_def by (simp only: assms if_False case_prod_conv)
qed

text \<open>The first and the last year of the range.\<close>

lemma gauss_year_range:
  assumes "719468 \<le> gauss_year (int y) + k" "gauss_year (int y) + k \<le> 3652364" "0 \<le> k" "k \<le> 365"
  shows "1970 \<le> (if 306 \<le> k then Suc y else y)" "(if 306 \<le> k then Suc y else y) \<le> 9999"
proof -
  have g: "gauss_year (int 1968) = 718797" "gauss_year (int 1969) = 719162" "gauss_year (int 9999) = 3652059"
      "gauss_year (int 10000) = 3652425"
    by (simp_all add: gauss_year_def)
  have lo: "\<not> y \<le> 1968" using gauss_year_mono [of y 1968] g assms by linarith
  have hi: "\<not> 10000 \<le> y" using gauss_year_mono [of 10000 y] g assms by linarith
  have "y = 1969 \<Longrightarrow> 306 \<le> k" using g(2) assms(1) by simp
  with lo show "1970 \<le> (if 306 \<le> k then Suc y else y)" by (cases "y = 1969") auto
  have "y = 9999 \<Longrightarrow> \<not> 306 \<le> k" using g(3) assms(2) by simp
  with hi show "(if 306 \<le> k then Suc y else y) \<le> 9999" by (cases "y = 9999") auto
qed

lemma gmtime_correct:
  assumes "0 \<le> t" "t \<le> 253402300799"
  shows "\<exists>y m d h mi s. tm_is (ngx_gmtime t) y m d h mi s \<and> tm_wday (ngx_gmtime t) = (4 + t div 86400) mod 7
    \<and> 1970 \<le> y \<and> y \<le> 9999 \<and> date_ok y m d \<and> clock_ok h mi s \<and> civil_time y m d h mi s = t"
proof -
  obtain D S where t: "t div 86400 = D" "t mod 86400 = S" "t = D * 86400 + S" "0 \<le> S" "S < 86400"
    by (metis div_mult_mod_eq pos_mod_bound pos_mod_sign zero_less_numeral)
  have D: "0 \<le> D" "D \<le> 2932896" using t(3-5) assms by auto
  obtain Y k where gy: "gm_year (D - (31 + 28) + 719527) = (Y, k)" by (metis prod.exhaust)
  have "400 \<le> D - (31 + 28) + 719527" using D by simp
  from gm_year_correct [OF this gy] obtain y where y: "Y = int y" "0 \<le> k"
      "k \<le> 364 + (if leap_year (Suc y) then 1 else 0)" "gauss_year Y + k = D - (31 + 28) + 719527"
    by blast
  obtain year mon mday where gm: "gm_month (int y) k = (year, mon, mday)" by (metis prod_cases3)
  define y' where "y' = (if 306 \<le> k then Suc y else y)"
  obtain m d where md: "year = int y'" "mon = int (Suc m)" "mday = int d" "date_ok y' m d"
      "civil_days y' m d = gauss_year (int y) + k - 719468"
    using gm_month_correct [OF y(2,3) gm] unfolding y'_def by blast
  obtain h mi s where hms: "S div 3600 = int h" "S mod 3600 div 60 = int mi"
      "S mod 3600 mod 60 = int s" "clock_ok h mi s" "int (h * 3600 + mi * 60 + s) = S"
    using gmtime_clock [OF t(4,5)] by blast
  have "tm_is (ngx_gmtime t) y' m d h mi s \<and> tm_wday (ngx_gmtime t) = (4 + t div 86400) mod 7"
    unfolding gmtime_unfold [OF assms(1) t(1,2) D(2) gy gm [folded y(1)]] tm_is_def t(1)
    by (simp only: ngx_tm.simps hms md(1-3))
  moreover have "civil_days y' m d = D" using md(5) y(1,4) by simp
  then have "civil_time y' m d h mi s = t" unfolding civil_time_def hms(5) t(3) by (simp only:)
  moreover have "719468 \<le> gauss_year (int y) + k" "gauss_year (int y) + k \<le> 3652364" "k \<le> 365"
    using y D by (auto split: if_splits)
  from gauss_year_range [OF this(1,2) y(2) this(3)] have "1970 \<le> y' \<and> y' \<le> 9999" by (simp only: y'_def)
  ultimately show ?thesis using md(4) hms(4) by blast
qed

end
