(* ===== verification/Ngx_Times_Parse.thy ===== *)
theory Ngx_Times_Parse
  imports Ngx_Times_Spec
begin

text \<open>
  \<open>ngx_parse_http_time\<close> against the calendar: it never reads past the end of its argument, what it
  accepts is a date of the calendar, and it reads back the dates that \<open>ngx_http_time\<close> and
  \<open>ngx_http_cookie_time\<close> print.
\<close>

section \<open>The formula in 64-bit arithmetic\<close>

lemma gauss_time_int:
  assumes "Y < 2 ^ 64"
  shows "gauss_time (of_nat Y) M (of_nat d) (of_nat h) (of_nat mi) (of_nat s) =
    of_int ((gauss_year (int Y) + 367 * M div 12 - 30 + int d - 1 - 719527 + 59) * 86400
      + int (h * 3600 + mi * 60 + s))"
proof -
  have "(of_nat Y :: u64) div 4 = of_nat (Y div 4)" "(of_nat Y :: u64) div 100 = of_nat (Y div 100)"
      "(of_nat Y :: u64) div 400 = of_nat (Y div 400)"
    using word_div_nat [OF assms] by simp_all
  then show ?thesis unfolding gauss_time_def gauss_year_int by (simp add: algebra_simps)
qed

lemma civil_time_range:
  assumes "y \<le> 9999" "m < 12" "d \<le> 31" "clock_ok h mi s"
  shows "- (2 ^ 63) \<le> civil_time y m d h mi s" "civil_time y m d h mi s < 2 ^ 63"
proof -
  have "year_start y \<le> 366 * y" by (induction y) auto
  moreover have "month_start y m \<le> 31 * 12"
  proof -
    have "month_len y i \<le> 31" if "i < 12" for i
      using month_cases [OF that] by (elim insertE emptyE) (auto simp: month_len_def time_mday_def)
    then have "sum_list (map (month_len y) [0..<m]) \<le> sum_list (map (\<lambda>i. 31) [0..<m])"
      using assms(2) by (intro sum_list_mono) simp
    then show ?thesis using assms(2) by (simp add: month_start_def sum_list_triv)
  qed
  ultimately have "year_start y + month_start y m + d \<le> 4000000" using assms by linarith
  moreover have "h * 3600 + mi * 60 + s \<le> 86399" using assms(4) by (auto simp: clock_ok_def)
  ultimately show "- (2 ^ 63) \<le> civil_time y m d h mi s" "civil_time y m d h mi s < 2 ^ 63"
    by (simp_all add: civil_time_def civil_days_def)
qed

definition day_ok :: "nat \<Rightarrow> nat \<Rightarrow> nat \<Rightarrow> bool" where
  "day_ok y m d \<longleftrightarrow> d \<le> month_len y m"

lemma finish_check:
  assumes "m < 12"
  shows "(if d = 29 \<and> m = 1 then y mod 4 \<noteq> 0 \<or> y mod 100 = 0 \<and> y mod 400 \<noteq> 0 else d > time_mday ! m)
    \<longleftrightarrow> \<not> day_ok y m d"
  by (auto simp: day_ok_def month_len_def leap_year_def time_mday_def)

lemma http_time_finish_eq:
  assumes "m < 12" "0 < y \<or> 2 \<le> m" "y \<le> 9999"
  shows "http_time_finish y m d h mi s =
    (if clock_ok h mi s \<and> day_ok y m d then Time (civil_time y m d h mi s) else Time_error)"
proof -
  consider (bad) "\<not> clock_ok h mi s" | (day) "clock_ok h mi s" "\<not> day_ok y m d" | (ok) "clock_ok h mi s" "day_ok y m d"
    by blast
  then show ?thesis
  proof cases
    case bad
    then show ?thesis by (auto simp: http_time_finish_def clock_ok_def)
  next
    case day
    then show ?thesis unfolding http_time_finish_def finish_check [OF assms(1)] by (simp add: clock_ok_def not_less)
  next
    case ok
    let ?t = "civil_time y m d h mi s"
    have "d \<le> 31" using ok(2) month_cases [OF assms(1)]
      by (elim insertE emptyE) (auto simp: day_ok_def month_len_def time_mday_def split: if_splits)
    then have t: "sint (of_int ?t :: u64) = ?t"
      using civil_time_range [OF assms(3,1) _ ok(1)] by (intro sint_small) simp_all
    have "http_time_finish y m d h mi s = Time (sint (of_int ?t :: u64))"
    proof (cases "m < 2")
      case True
      then obtain x where x: "y = Suc x" using assms(2) by (cases y) auto
      have "x < 2 ^ 64" "of_nat y - 1 = (of_nat x :: u64)" using assms(3) x by simp_all
      then have "gauss_time (of_nat y - 1) (gauss_month m) (of_nat d) (of_nat h) (of_nat mi) (of_nat s) = of_int ?t"
        by (simp only: gauss_time_int gauss_civil_early [OF True] x civil_time_def)
      moreover have "int m - 1 + 12 = gauss_month m" "int m - 1 \<le> 0" using True by (simp_all add: gauss_month_def)
      ultimately show ?thesis
        using ok unfolding http_time_finish_def finish_check [OF assms(1)] Let_def
        by (simp add: clock_ok_def not_less)
    next
      case False
      then have "2 \<le> m" "y < 2 ^ 64" using assms(3) by simp_all
      then have "gauss_time (of_nat y) (gauss_month m) (of_nat d) (of_nat h) (of_nat mi) (of_nat s) = of_int ?t"
        by (simp only: gauss_time_int gauss_civil_late [OF _ assms(1)] civil_time_def)
      moreover have "int m - 1 = gauss_month m" "\<not> int m - 1 \<le> 0" using False by (simp_all add: gauss_month_def)
      ultimately show ?thesis
        using ok unfolding http_time_finish_def finish_check [OF assms(1)] Let_def
        by (simp add: clock_ok_def not_less)
    qed
    with t ok show ?thesis by simp
  qed
qed

section \<open>Printed dates\<close>

definition two :: "nat \<Rightarrow> byte list" where
  "two n = [of_nat (n div 10) + b_0, of_nat (n mod 10) + b_0]"

definition four :: "nat \<Rightarrow> byte list" where
  "four n = [of_nat (n div 1000) + b_0, of_nat (n div 100 mod 10) + b_0, of_nat (n div 10 mod 10) + b_0,
     of_nat (n mod 10) + b_0]"

lemma num_text_small: "n < 2 ^ 31 \<Longrightarrow> num_text (word_of_int (int n)) 0 = num_dec n []"
  by (simp add: num_text_dec unat_of_nat)

lemma num_dec_two: "n < 10 \<Longrightarrow> num_dec n [] = [of_nat n + b_0]" "10 \<le> n \<Longrightarrow> n < 100 \<Longrightarrow> num_dec n [] = two n"
  by (simp_all add: num_dec.simps [of n] num_dec.simps [of "n div 10"] two_def Let_def div_eq_0_iff)

lemma num_dec_four:
  assumes "1000 \<le> n" "n < 10000"
  shows "num_dec n [] = four n"
proof -
  have "n div 10 \<noteq> 0" "n div 10 div 10 \<noteq> 0" "n div 10 div 10 div 10 \<noteq> 0" "n div 10 div 10 div 10 div 10 = 0"
    using assms by (simp_all add: div_mult2_eq [symmetric] div_eq_0_iff not_less)
  then show ?thesis
    using assms by (simp add: num_dec.simps [of n] num_dec.simps [of "n div 10"] num_dec.simps [of "n div 100"]
        num_dec.simps [of "n div 1000"] four_def Let_def div_mult2_eq [symmetric])
qed

lemma pf_text_eqs:
  "c \<noteq> b_pct \<Longrightarrow> ngx_vslprintf None (c # f) args = map_option (Cons c) (ngx_vslprintf None f args)"
  "ngx_vslprintf None (37 # 115 # f) (A_ptr p # args)
     = map_option ((@) (takeWhile (\<lambda>c. c \<noteq> NUL) p)) (ngx_vslprintf None f args)"
  by (simp_all add: pf_directive_def pf_start_def is_digit_def takes_arg_def ngx_sprintf_str_def)

lemma arg_int_nat: "n < 2 ^ 31 \<Longrightarrow> arg_int (int n) = int n"
  by (simp add: arg_int_def signed_of_nat signed_take_bit_int_eq_self)

lemma pf_two_eq:
  assumes "n < 100"
  shows "ngx_vslprintf None (37 # 48 # 50 # 100 # f) (A_num (int n) # args)
    = map_option ((@) (two n)) (ngx_vslprintf None f args)"
proof -
  have "ngx_sprintf_num None (word_of_int (int n)) b_0 0 2 = two n"
    using assms num_dec_two [of n] num_text_small [of n]
    by (cases "n < 10") (simp_all add: ngx_sprintf_num_def Let_def two_def)
  then have "ngx_sprintf_num None (word_of_int (int n)) b_0 0 (Suc (Suc 0)) = two n" by (simp only: numeral_2_eq_2)
  then show ?thesis
    using assms arg_int_nat [of n]
    by (simp add: pf_directive_def pf_start_def is_digit_def digit_val_def takes_arg_def pf_num_def pf_integer_def)
qed

lemma pf_four_eq:
  assumes "1000 \<le> n" "n < 10000"
  shows "ngx_vslprintf None (37 # 52 # 100 # f) (A_num (int n) # args)
    = map_option ((@) (four n)) (ngx_vslprintf None f args)"
proof -
  have "ngx_sprintf_num None (word_of_int (int n)) SP 0 4 = four n"
    using assms num_dec_four [of n] num_text_small [of n] by (simp add: ngx_sprintf_num_def Let_def four_def)
  then show ?thesis
    using assms arg_int_nat [of n]
    by (simp add: pf_directive_def pf_start_def is_digit_def digit_val_def takes_arg_def pf_num_def pf_integer_def)
qed

lemma http_formats:
  "fmt_bytes ''%s, %02d %s %4d %02d:%02d:%02d GMT'' = [37, 115, 44, 32, 37, 48, 50, 100, 32, 37, 115, 32, 37, 52, 100, 32,
     37, 48, 50, 100, 58, 37, 48, 50, 100, 58, 37, 48, 50, 100, 32, 71, 77, 84]"
  "fmt_bytes ''%s, %02d-%s-%02d %02d:%02d:%02d GMT'' = [37, 115, 44, 32, 37, 48, 50, 100, 45, 37, 115, 45, 37, 48, 50, 100,
     32, 37, 48, 50, 100, 58, 37, 48, 50, 100, 58, 37, 48, 50, 100, 32, 71, 77, 84]"
  by (simp_all add: fmt_bytes_def)

lemma week_cases: "(m :: nat) < 7 \<Longrightarrow> m \<in> {0, 1, 2, 3, 4, 5, 6}"
  by (simp add: eval_nat_numeral less_Suc_eq; blast)

definition name_clean :: "byte list \<Rightarrow> bool" where
  "name_clean w \<longleftrightarrow> list_all (\<lambda>c. c \<noteq> NUL \<and> c \<noteq> b_comma \<and> c \<noteq> SP) w"

lemma names_clean: "w < 7 \<Longrightarrow> name_clean (time_week ! w)" "m < 12 \<Longrightarrow> name_clean (time_months ! m)"
proof -
  have "list_all name_clean time_week" "list_all name_clean time_months" by code_simp+
  moreover have "length time_week = 7" "length time_months = 12" by (simp_all add: time_week_def time_months_def)
  ultimately show "w < 7 \<Longrightarrow> name_clean (time_week ! w)" "m < 12 \<Longrightarrow> name_clean (time_months ! m)"
    by (simp_all add: list_all_length)
qed

lemma clean_takeWhile: "name_clean w \<Longrightarrow> takeWhile (\<lambda>c. c \<noteq> NUL) (w @ [NUL]) = w"
  by (auto simp: name_clean_def list_all_iff intro: takeWhile_append2 [of w _ "[NUL]", simplified])

text \<open>The text of a date, with a given separator and year.\<close>

definition date_text :: "byte list \<Rightarrow> byte \<Rightarrow> byte list \<Rightarrow> nat \<Rightarrow> nat \<Rightarrow> nat \<Rightarrow> nat \<Rightarrow> nat \<Rightarrow> byte list" where
  "date_text name sep year m d h mi s =
     name @ [44, 32] @ two d @ [sep] @ time_months ! m @ [sep] @ year @ [32] @ two h @ [58] @ two mi @ [58] @ two s
     @ [32, 71, 77, 84]"

lemma http_time_text:
  assumes "tm_is (ngx_gmtime t) y m d h mi s" "tm_wday (ngx_gmtime t) = int w" "w < 7"
    and "1000 \<le> y" "y < 10000" "m < 12" "d < 100" "clock_ok h mi s"
  shows "ngx_http_time t = Some (date_text (time_week ! w) 32 (four y) m d h mi s)"
    and "y \<le> 2037 \<Longrightarrow> ngx_http_cookie_time t = Some (date_text (time_week ! w) 45 (two (y mod 100)) m d h mi s)"
proof -
  have tm: "tm_year (ngx_gmtime t) = int y" "tm_mon (ngx_gmtime t) = int (Suc m)" "tm_mday (ngx_gmtime t) = int d"
      "tm_hour (ngx_gmtime t) = int h" "tm_min (ngx_gmtime t) = int mi" "tm_sec (ngx_gmtime t) = int s"
    using assms(1) by (simp_all add: tm_is_def)
  have small: "h < 100" "mi < 100" "s < 100" "y mod 100 < 100" using assms(8) by (simp_all add: clock_ok_def)
  note clean = clean_takeWhile [OF names_clean(1) [OF assms(3)]] clean_takeWhile [OF names_clean(2) [OF assms(6)]]
  have y: "int y mod 100 = int (y mod 100)" by (simp add: zmod_int)
  show "ngx_http_time t = Some (date_text (time_week ! w) 32 (four y) m d h mi s)"
    unfolding ngx_http_time_def Let_def tm assms(2) http_formats ngx_sprintf_def
    by (simp add: pf_text_eqs pf_two_eq pf_four_eq assms(4,5,7) small clean date_text_def del: ngx_vslprintf.simps(2))
  show "ngx_http_cookie_time t = Some (date_text (time_week ! w) 45 (two (y mod 100)) m d h mi s)" if "y \<le> 2037"
    using that unfolding ngx_http_cookie_time_def Let_def tm assms(2) http_formats ngx_sprintf_def y
    by (simp add: pf_text_eqs pf_two_eq assms(7) small clean date_text_def del: ngx_vslprintf.simps(2))
qed

section \<open>Reading printed dates\<close>

lemma rd_at: "i < length w \<Longrightarrow> rd w i k = k (w ! i)"
  by (simp add: rd_def)

lemma digit_at: "i < length w \<Longrightarrow> w ! i = of_nat n + b_0 \<Longrightarrow> n < 10 \<Longrightarrow> rd_digit w i k = k n"
  by (simp add: rd_digit_def rd_at dec_digit)

text \<open>A piece of text at an offset.\<close>

definition at :: "byte list \<Rightarrow> nat \<Rightarrow> byte list \<Rightarrow> bool" where
  "at w i x \<longleftrightarrow> take (length x) (drop i w) = x \<and> i + length x \<le> length w"

lemma at_append: "at w i (x @ y) \<longleftrightarrow> at w i x \<and> at w (i + length x) y"
  by (auto simp: at_def take_add ac_simps append_eq_append_conv)

lemma at_Cons: "at w i (c # y) \<longleftrightarrow> i < length w \<and> w ! i = c \<and> at w (Suc i) y"
  by (cases "i < length w") (auto simp: at_def take_Suc_conv_app_nth Cons_nth_drop_Suc [symmetric])

lemma at_Nil: "at w i [] \<longleftrightarrow> i \<le> length w"
  by (simp add: at_def)

lemma at_whole: "at (x @ y) 0 x"
  by (simp add: at_def)

lemma rd_two_at: "at w i (two n) \<Longrightarrow> n < 100 \<Longrightarrow> rd_two w i k = k n"
  by (simp add: rd_two_def two_def at_Cons digit_at [of _ w "n div 10"] digit_at [of _ w "n mod 10"]
      div_mult_mod_eq less_mult_imp_div_less)

lemma rd_four_at: "at w i (four n) \<Longrightarrow> n < 10000 \<Longrightarrow> rd_four w i k = k n"
proof -
  assume a: "at w i (four n)" "n < 10000"
  have "n div 1000 * 1000 + n div 100 mod 10 * 100 + n div 10 mod 10 * 10 + n mod 10 = n"
  proof -
    have "n = n div 10 * 10 + n mod 10" "n div 10 = n div 100 * 10 + n div 10 mod 10"
        "n div 100 = n div 1000 * 10 + n div 100 mod 10"
      using div_mult_mod_eq [of "n div 10" 10] div_mult_mod_eq [of "n div 100" 10] by (simp_all flip: div_mult2_eq)
    then show ?thesis by linarith
  qed
  then show ?thesis
    using a by (simp add: rd_four_def four_def at_Cons digit_at [of _ w "n div 1000"] digit_at [of _ w "n div 100 mod 10"]
        digit_at [of _ w "n div 10 mod 10"] digit_at [of _ w "n mod 10"] less_mult_imp_div_less
        numeral_3_eq_3)
qed

lemma rd_is_at: "at w i [c] \<Longrightarrow> rd_is w i c k = k"
  by (simp add: rd_is_def at_Cons rd_at)

lemma rd_month_at:
  assumes "at w i (time_months ! m)" "m < 12"
  shows "rd_month w i k = k m"
  using month_cases [OF assms(2)] assms(1)
  by (elim insertE emptyE) (simp_all add: rd_month_def time_months_def at_Cons rd_at)

lemma rd_clock_at:
  assumes "at w i ([32] @ two h @ [58] @ two mi @ [58] @ two s)" "clock_ok h mi s"
  shows "rd_clock w i k = k h mi s"
proof -
  have "length (two n) = 2" for n by (simp add: two_def)
  then have p: "at w i [32]" "at w (i + 1) (two h)" "at w (i + 3) [58]" "at w (i + 4) (two mi)" "at w (i + 6) [58]"
      "at w (i + 7) (two s)"
    using assms(1) by (simp_all add: at_append ac_simps eval_nat_numeral del: append_Cons append_Nil)
  have l: "h < 100" "mi < 100" "s < 100" using assms(2) by (simp_all add: clock_ok_def)
  show ?thesis
    unfolding rd_clock_def rd_is_at [OF p(1)] rd_is_at [OF p(3)] rd_is_at [OF p(5)] rd_two_at [OF p(2) l(1)]
      rd_two_at [OF p(4) l(2)] rd_two_at [OF p(6) l(3)] ..
qed

lemma digit_not_SP: "is_digit c \<Longrightarrow> c \<noteq> SP"
  by (auto simp: is_digit_def)

lemma date_skip:
  assumes "name_clean name" "d < 100"
  shows "ngx_parse_http_time (name @ [44, 32] @ two d @ rest)
    = (if length rest < 16 then Time_error else http_time_rfc (two d @ rest))"
proof -
  have "dropWhile (\<lambda>c. c \<noteq> b_comma \<and> c \<noteq> SP) (name @ 44 # 32 # two d @ rest) = 44 # 32 # two d @ rest"
    using assms(1) by (simp add: dropWhile_append2 name_clean_def list_all_iff)
  moreover have "of_nat (d div 10) + b_0 \<noteq> SP"
    using digit_not_SP [OF dec_digit(1) [of "d div 10"]] assms(2) by (simp add: less_mult_imp_div_less)
  ultimately show ?thesis by (simp add: ngx_parse_http_time_def Let_def two_def)
qed

lemma parse_date_text:
  assumes "name_clean name" "m < 12" "d < 100" "clock_ok h mi s"
  shows "y < 10000 \<Longrightarrow> ngx_parse_http_time (date_text name 32 (four y) m d h mi s) = http_time_finish y m d h mi s"
    and "yy < 100 \<Longrightarrow> ngx_parse_http_time (date_text name 45 (two yy) m d h mi s)
      = http_time_finish (yy + (if yy < 70 then 2000 else 1900)) m d h mi s"
proof -
  have len: "length (time_months ! m) = 3" "length (two n) = 2" "length (four n) = 4" for n
    using month_cases [OF assms(2)] by (auto simp: time_months_def two_def four_def)
  let ?clock = "[32] @ two h @ [58] @ two mi @ [58] @ two s"
  {
    assume y: "y < 10000"
    define w where "w = (two d @ [32] @ time_months ! m @ [32] @ four y @ ?clock) @ [32, 71, 77, 84]"
    have "at w 0 (two d @ [32] @ time_months ! m @ [32] @ four y @ ?clock)" unfolding w_def by (rule at_whole)
    then have p: "at w 0 (two d)" "at w 2 [32]" "at w 3 (time_months ! m)" "at w 6 [32]" "at w 7 (four y)" "at w 11 ?clock"
      by (simp_all only: at_append len list.size add_0_left, simp_all)
    have "length w = 24" by (simp add: w_def len)
    moreover have "w ! 2 = 32" "2 < length w" using p(2) by (simp_all add: at_Cons)
    ultimately have "http_time_rfc w = http_time_finish y m d h mi s"
      by (simp add: http_time_rfc_def rd_two_at [OF p(1) assms(3)] rd_at rd_month_at [OF p(3) assms(2)] rd_is_at [OF p(4)]
          rd_four_at [OF p(5) y] rd_clock_at [OF p(6) assms(4)])
    moreover have "date_text name 32 (four y) m d h mi s = name @ [44, 32] @ two d @ drop 2 w"
      by (simp add: date_text_def w_def len)
    moreover have "two d @ drop 2 w = w" by (simp add: w_def len)
    ultimately show "ngx_parse_http_time (date_text name 32 (four y) m d h mi s) = http_time_finish y m d h mi s"
      using date_skip [OF assms(1,3), of "drop 2 w"] \<open>length w = 24\<close> by simp
  }
  {
    assume y: "yy < 100"
    define w where "w = (two d @ [45] @ time_months ! m @ [45] @ two yy @ ?clock) @ [32, 71, 77, 84]"
    have "at w 0 (two d @ [45] @ time_months ! m @ [45] @ two yy @ ?clock)" unfolding w_def by (rule at_whole)
    then have p: "at w 0 (two d)" "at w 2 [45]" "at w 3 (time_months ! m)" "at w 6 [45]" "at w 7 (two yy)" "at w 9 ?clock"
      by (simp_all only: at_append len list.size add_0_left, simp_all)
    have "length w = 22" by (simp add: w_def len)
    moreover have "w ! 2 = 45" "2 < length w" using p(2) by (simp_all add: at_Cons)
    ultimately have "http_time_rfc w = http_time_finish (yy + (if yy < 70 then 2000 else 1900)) m d h mi s"
      by (simp add: http_time_rfc_def rd_two_at [OF p(1) assms(3)] rd_at rd_month_at [OF p(3) assms(2)] rd_is_at [OF p(4)]
          rd_two_at [OF p(5) y] rd_clock_at [OF p(6) assms(4)] Let_def)
    moreover have "date_text name 45 (two yy) m d h mi s = name @ [44, 32] @ two d @ drop 2 w"
      by (simp add: date_text_def w_def len)
    moreover have "two d @ drop 2 w = w" by (simp add: w_def len)
    ultimately show "ngx_parse_http_time (date_text name 45 (two yy) m d h mi s)
        = http_time_finish (yy + (if yy < 70 then 2000 else 1900)) m d h mi s"
      using date_skip [OF assms(1,3), of "drop 2 w"] \<open>length w = 22\<close> by simp
  }
qed

text \<open>
  C25: Times are printed and read back exactly. For every time from 1970 to the end of 9999,
  \<open>ngx_gmtime\<close> gives the date and the time of day of the calendar (with the right day of the week,
  1970 having started on a Thursday); \<open>ngx_http_time\<close> prints 29 bytes that \<open>ngx_parse_http_time\<close> reads
  as the same time; and so does \<open>ngx_http_cookie_time\<close> up to the year 2037, with two digits for the
  year.
\<close>

theorem http_time_roundtrip:
  assumes "0 \<le> t" "t \<le> 253402300799"
  shows "(\<exists>y m d h mi s. tm_is (ngx_gmtime t) y m d h mi s \<and> date_ok y m d \<and> clock_ok h mi s
      \<and> civil_time y m d h mi s = t)
    \<and> tm_wday (ngx_gmtime t) = (4 + t div 86400) mod 7
    \<and> (\<exists>x. ngx_http_time t = Some x \<and> length x = 29 \<and> ngx_parse_http_time x = Time t)
    \<and> (tm_year (ngx_gmtime t) \<le> 2037 \<longrightarrow>
         (\<exists>x. ngx_http_cookie_time t = Some x \<and> ngx_parse_http_time x = Time t))"
proof -
  obtain y m d h mi s where tm: "tm_is (ngx_gmtime t) y m d h mi s" "tm_wday (ngx_gmtime t) = (4 + t div 86400) mod 7"
      "1970 \<le> y" "y \<le> 9999" "date_ok y m d" "clock_ok h mi s" "civil_time y m d h mi s = t"
    using gmtime_correct [OF assms] by blast
  define w where "w = nat (tm_wday (ngx_gmtime t))"
  have w: "tm_wday (ngx_gmtime t) = int w" "w < 7" unfolding w_def tm(2) by simp_all
  have m: "m < 12" and day: "day_ok y m d" using tm(5) by (simp_all add: date_ok_def day_ok_def)
  have d: "d < 100" using tm(5) month_cases [OF m]
    by (elim insertE emptyE) (auto simp: date_ok_def month_len_def time_mday_def split: if_splits)
  have fin: "http_time_finish y m d h mi s = Time t"
    using http_time_finish_eq [OF m _ tm(4), of d h mi s] tm(3,6,7) day by simp
  note pr = http_time_text [OF tm(1) w _ _ m d tm(6)]
  note clean = names_clean(1) [OF w(2)]
  have len: "length (time_months ! m) = 3" "length (time_week ! w) = 3"
    using month_cases [OF m] week_cases [OF w(2)] by (auto simp: time_months_def time_week_def)
  have "ngx_http_time t = Some (date_text (time_week ! w) 32 (four y) m d h mi s)" using pr(1) tm(3,4) by simp
  moreover have "length (date_text (time_week ! w) 32 (four y) m d h mi s) = 29"
    by (simp add: date_text_def len two_def four_def)
  moreover have "ngx_parse_http_time (date_text (time_week ! w) 32 (four y) m d h mi s) = Time t"
    using parse_date_text(1) [OF clean m d tm(6)] tm(4) fin by simp
  moreover have "\<exists>x. ngx_http_cookie_time t = Some x \<and> ngx_parse_http_time x = Time t" if "y \<le> 2037"
  proof -
    have "y mod 100 + (if y mod 100 < 70 then 2000 else 1900) = y"
    proof (cases "y < 2000")
      case True
      then obtain z where "y = z + 19 * 100" "z < 100" using tm(3) by (intro that [of "y - 1900"]) simp_all
      then have "y mod 100 = y - 1900" by (simp only: mod_mult_self1) simp
      with tm(3) True show ?thesis by simp
    next
      case False
      then obtain z where "y = z + 20 * 100" "z < 100" using \<open>y \<le> 2037\<close> by (intro that [of "y - 2000"]) simp_all
      then have "y mod 100 = y - 2000" by (simp only: mod_mult_self1) simp
      with False that show ?thesis by simp
    qed
    then show ?thesis
      using pr(2) [OF _ _ that] tm(3,4) parse_date_text(2) [OF clean m d tm(6), of "y mod 100"] fin by simp
  qed
  moreover have "tm_year (ngx_gmtime t) = int y" using tm(1) by (simp add: tm_is_def)
  moreover have "\<exists>y m d h mi s. tm_is (ngx_gmtime t) y m d h mi s \<and> date_ok y m d \<and> clock_ok h mi s
      \<and> civil_time y m d h mi s = t"
    using tm(1,5-7) by blast
  ultimately show ?thesis using tm(2) by auto
qed

theorem http_time_roundtrip_witness:
  "\<exists>x. ngx_http_time 784111777 = Some x \<and> length x = 29 \<and> ngx_parse_http_time x = Time 784111777"
  using http_time_roundtrip [of 784111777] by simp

section \<open>No read past the end\<close>

definition no_overread :: "http_time \<Rightarrow> bool" where
  "no_overread res \<longleftrightarrow> res \<noteq> Time_overread"

lemma no_overread_error: "no_overread Time_error"
  by (simp add: no_overread_def)

lemma no_overread_finish: "no_overread (http_time_finish y m d h mi s)"
  unfolding http_time_finish_def Let_def by (simp add: no_overread_def split: prod.split)

lemma no_overread_rd: "i < length w \<Longrightarrow> (\<And>c. no_overread (k c)) \<Longrightarrow> no_overread (rd w i k)"
  by (simp add: rd_def)

lemma no_overread_digit: "i < length w \<Longrightarrow> (\<And>n. no_overread (k n)) \<Longrightarrow> no_overread (rd_digit w i k)"
  unfolding rd_digit_def by (rule no_overread_rd) (simp_all add: no_overread_error)

lemma no_overread_two: "i + 1 < length w \<Longrightarrow> (\<And>n. no_overread (k n)) \<Longrightarrow> no_overread (rd_two w i k)"
  unfolding rd_two_def by (intro no_overread_digit) simp_all

lemma no_overread_four: "i + 3 < length w \<Longrightarrow> (\<And>n. no_overread (k n)) \<Longrightarrow> no_overread (rd_four w i k)"
  unfolding rd_four_def by (intro no_overread_digit) simp_all

lemma no_overread_is: "i < length w \<Longrightarrow> no_overread k \<Longrightarrow> no_overread (rd_is w i c k)"
  unfolding rd_is_def by (rule no_overread_rd) (simp_all add: no_overread_error)

lemma no_overread_month: "i + 2 < length w \<Longrightarrow> (\<And>m. no_overread (k m)) \<Longrightarrow> no_overread (rd_month w i k)"
  unfolding rd_month_def by (simp add: rd_at no_overread_error)

lemma no_overread_clock:
  "i + 8 < length w \<Longrightarrow> (\<And>h mi s. no_overread (k h mi s)) \<Longrightarrow> no_overread (rd_clock w i k)"
  unfolding rd_clock_def by (intro no_overread_is no_overread_two) simp_all

lemma no_overread_if:
  "(b \<Longrightarrow> no_overread x) \<Longrightarrow> (\<not> b \<Longrightarrow> no_overread y) \<Longrightarrow> no_overread (if b then x else y)"
  by simp

lemmas no_overread_intros = no_overread_error no_overread_if no_overread_rd no_overread_digit no_overread_two
  no_overread_four no_overread_is no_overread_month no_overread_clock no_overread_finish

lemma no_overread_rfc: "18 \<le> length w \<Longrightarrow> no_overread (http_time_rfc w)"
  unfolding http_time_rfc_def Let_def by (intro no_overread_intros) simp_all

lemma no_overread_isoc: "18 \<le> length w \<Longrightarrow> no_overread (http_time_isoc w)"
  unfolding http_time_isoc_def Let_def by (intro no_overread_intros) simp_all

section \<open>The date that an accepted text spells\<close>

lemma digit_text: "is_digit c \<Longrightarrow> c = of_nat (digit_val c) + b_0"
  by (simp add: is_digit_def digit_val_def word_le_nat_alt unat_sub)

lemma rd_digitD:
  "rd_digit w i k = Time t \<Longrightarrow> \<exists>n<10. i < length w \<and> w ! i = of_nat n + b_0 \<and> k n = Time t"
  using digit_text [of "w ! i"] digit_val_le [of "w ! i"]
  by (auto simp: rd_digit_def rd_def less_Suc_eq_le intro!: exI [of _ "digit_val (w ! i)"] split: if_splits)

lemma rd_twoD: "rd_two w i k = Time t \<Longrightarrow> \<exists>n<100. at w i (two n) \<and> k n = Time t"
proof -
  assume "rd_two w i k = Time t"
  then obtain a b where "a < 10" "b < 10" "i < length w" "w ! i = of_nat a + b_0" "i + 1 < length w"
      "w ! (i + 1) = of_nat b + b_0" "k (a * 10 + b) = Time t"
    unfolding rd_two_def by (blast dest!: rd_digitD)
  then show ?thesis by (intro exI [of _ "a * 10 + b"]) (simp add: two_def at_Cons at_Nil)
qed

lemma rd_fourD: "rd_four w i k = Time t \<Longrightarrow> \<exists>n<10000. at w i (four n) \<and> k n = Time t"
proof -
  assume "rd_four w i k = Time t"
  then obtain a b c d where d: "a < 10" "b < 10" "c < 10" "d < 10" "i < length w" "w ! i = of_nat a + b_0"
      "i + 1 < length w" "w ! (i + 1) = of_nat b + b_0" "i + 2 < length w" "w ! (i + 2) = of_nat c + b_0"
      "i + 3 < length w" "w ! (i + 3) = of_nat d + b_0" "k (a * 1000 + b * 100 + c * 10 + d) = Time t"
    unfolding rd_four_def by (blast dest!: rd_digitD)
  define n where "n = a * 1000 + b * 100 + c * 10 + d"
  have n: "n = ((a * 10 + b) * 10 + c) * 10 + d" by (simp add: n_def)
  have last_digit: "(x * 10 + e) div 10 = x" "(x * 10 + e) mod 10 = e" if "e < 10" for x e :: nat
    using that by simp_all
  have "n mod 10 = d" "n div 10 mod 10 = c" "n div 10 div 10 mod 10 = b" "n div 10 div 10 div 10 = a"
    unfolding n by (simp_all only: last_digit d(1-4))
  moreover have "n div 10 div 10 = n div 100" "n div 10 div 10 div 10 = n div 1000"
    by (simp_all flip: div_mult2_eq)
  ultimately have "four n = [of_nat a + b_0, of_nat b + b_0, of_nat c + b_0, of_nat d + b_0]"
    by (simp add: four_def)
  moreover have "n < 10000" using d(1-4) by (simp add: n_def)
  ultimately show ?thesis
    using d by (intro exI [of _ n]) (simp add: at_Cons at_Nil numeral_3_eq_3 flip: n_def)
qed

lemma rd_isD: "rd_is w i c k = Time t \<Longrightarrow> at w i [c] \<and> k = Time t"
  by (auto simp: rd_is_def rd_def at_Cons at_Nil split: if_splits)

text \<open>The letters that tell the months apart.\<close>

definition month_at :: "byte list \<Rightarrow> nat \<Rightarrow> nat \<Rightarrow> bool" where
  "month_at w i m \<longleftrightarrow>
     (let c = w ! i; d = w ! (i + 1); e = w ! (i + 2) in
      m = 0 \<and> c = 74 \<and> d = 97 \<or> m = 5 \<and> c = 74 \<and> d \<noteq> 97 \<and> e = 110 \<or> m = 6 \<and> c = 74 \<and> d \<noteq> 97 \<and> e \<noteq> 110
      \<or> m = 1 \<and> c = 70 \<or> m = 2 \<and> c = 77 \<and> e = 114 \<or> m = 4 \<and> c = 77 \<and> e \<noteq> 114
      \<or> m = 3 \<and> c = 65 \<and> d = 112 \<or> m = 7 \<and> c = 65 \<and> d \<noteq> 112
      \<or> m = 8 \<and> c = 83 \<or> m = 9 \<and> c = 79 \<or> m = 10 \<and> c = 78 \<or> m = 11 \<and> c = 68)"

lemma rd_monthD: "rd_month w i k = Time t \<Longrightarrow> \<exists>m<12. month_at w i m \<and> k m = Time t"
  by (auto simp: rd_month_def rd_def month_at_def Let_def split: if_splits)

definition clock_text :: "nat \<Rightarrow> nat \<Rightarrow> nat \<Rightarrow> byte list" where
  "clock_text h mi s = [SP] @ two h @ [b_colon] @ two mi @ [b_colon] @ two s"

lemma rd_clockD: "rd_clock w i k = Time t \<Longrightarrow> \<exists>h mi s. at w i (clock_text h mi s) \<and> k h mi s = Time t"
proof -
  assume "rd_clock w i k = Time t"
  then obtain h mi s where "at w i [SP]" "at w (i + 1) (two h)" "at w (i + 3) [b_colon]" "at w (i + 4) (two mi)"
      "at w (i + 6) [b_colon]" "at w (i + 7) (two s)" "k h mi s = Time t"
    unfolding rd_clock_def by (blast dest!: rd_isD rd_twoD)
  moreover have "length (two n) = 2" for n by (simp add: two_def)
  ultimately show ?thesis
    by (intro exI [of _ h] exI [of _ mi] exI [of _ s])
      (simp add: clock_text_def at_append ac_simps eval_nat_numeral del: append_Cons append_Nil)
qed

text \<open>A date as the three formats write it, after the name of the day.\<close>

definition rfc822_at :: "byte list \<Rightarrow> nat \<Rightarrow> nat \<Rightarrow> nat \<Rightarrow> nat \<Rightarrow> nat \<Rightarrow> nat \<Rightarrow> bool" where
  "rfc822_at w y m d h mi s \<longleftrightarrow> at w 0 (two d) \<and> at w 2 [SP] \<and> month_at w 3 m \<and> at w 6 [SP] \<and> at w 7 (four y)
     \<and> at w 11 (clock_text h mi s) \<and> d < 100 \<and> y < 10000"

definition rfc850_at :: "byte list \<Rightarrow> nat \<Rightarrow> nat \<Rightarrow> nat \<Rightarrow> nat \<Rightarrow> nat \<Rightarrow> nat \<Rightarrow> bool" where
  "rfc850_at w y m d h mi s \<longleftrightarrow> at w 0 (two d) \<and> at w 2 [b_minus] \<and> month_at w 3 m \<and> at w 6 [b_minus]
     \<and> at w 7 (two (y mod 100)) \<and> at w 9 (clock_text h mi s) \<and> d < 100 \<and> 1970 \<le> y \<and> y < 2070"

definition isoc_at :: "byte list \<Rightarrow> nat \<Rightarrow> nat \<Rightarrow> nat \<Rightarrow> nat \<Rightarrow> nat \<Rightarrow> nat \<Rightarrow> bool" where
  "isoc_at w y m d h mi s \<longleftrightarrow> month_at w 0 m \<and> y < 10000
     \<and> (\<exists>p q. p = (if w ! 4 = SP then 5 else 4)
          \<and> (d < 10 \<and> at w p [of_nat d + b_0, SP] \<and> q = p + 1 \<or> d < 100 \<and> at w p (two d) \<and> q = p + 2)
          \<and> at w q (clock_text h mi s) \<and> at w (q + 9) [SP] \<and> at w (q + 10) (four y))"

definition date_written :: "byte list \<Rightarrow> nat \<Rightarrow> nat \<Rightarrow> nat \<Rightarrow> nat \<Rightarrow> nat \<Rightarrow> nat \<Rightarrow> bool" where
  "date_written x y m d h mi s \<longleftrightarrow> m < 12 \<and> (\<exists>u w. x = u @ w \<and>
     (rfc822_at w y m d h mi s \<or> rfc850_at w y m d h mi s \<or> isoc_at w y m d h mi s))"

lemma finishD:
  assumes "http_time_finish y m d h mi s = Time t" "m < 12" "y < 10000"
  shows "clock_ok h mi s \<and> day_ok y m d \<and> (0 < y \<or> 2 \<le> m \<longrightarrow> t = civil_time y m d h mi s)"
proof -
  have "clock_ok h mi s \<and> day_ok y m d"
    using assms(1) unfolding http_time_finish_def finish_check [OF assms(2)]
    by (auto simp: clock_ok_def split: if_splits)
  moreover have "t = civil_time y m d h mi s" if "0 < y \<or> 2 \<le> m"
    using http_time_finish_eq [OF assms(2) that, of d h mi s] assms(1,3) by (auto split: if_splits)
  ultimately show ?thesis by blast
qed

lemma century:
  assumes "yy < 100" "y = yy + (if yy < 70 then 2000 else 1900)"
  shows "y mod 100 = yy" "1970 \<le> y" "y < (2070 :: nat)"
proof -
  have "(yy + 20 * 100) mod 100 = yy mod 100" "(yy + 19 * 100) mod 100 = yy mod 100"
    by (rule mod_mult_self1)+
  with assms show "y mod 100 = yy" "1970 \<le> y" "y < 2070" by (cases "yy < 70"; simp)+
qed

lemma http_time_rfcD:
  assumes "http_time_rfc w = Time t"
  shows "\<exists>y m d h mi s. m < 12 \<and> (rfc822_at w y m d h mi s \<or> rfc850_at w y m d h mi s)
    \<and> http_time_finish y m d h mi s = Time t \<and> y < 10000"
proof -
  obtain d where d: "d < 100" "at w 0 (two d)" and rest: "rd w 2 (\<lambda>c.
     if c = SP then
       (if length w < 2 + 18 then Time_error
        else rd_month w 3 (\<lambda>month. rd_is w 6 SP (rd_four w 7 (\<lambda>year.
          rd_clock w 11 (\<lambda>hour minute sec. http_time_finish year month d hour minute sec)))))
     else if c = b_minus then
       rd_month w 3 (\<lambda>month. rd_is w 6 b_minus (rd_two w 7 (\<lambda>yy.
         let year = yy + (if yy < 70 then 2000 else 1900)
         in rd_clock w 9 (\<lambda>hour minute sec. http_time_finish year month d hour minute sec))))
     else Time_error) = Time t"
    using rd_twoD [OF assms [unfolded http_time_rfc_def]] by blast
  consider (sp) "at w 2 [SP]" "rd_month w 3 (\<lambda>month. rd_is w 6 SP (rd_four w 7 (\<lambda>year.
          rd_clock w 11 (\<lambda>hour minute sec. http_time_finish year month d hour minute sec)))) = Time t"
    | (minus) "at w 2 [b_minus]" "rd_month w 3 (\<lambda>month. rd_is w 6 b_minus (rd_two w 7 (\<lambda>yy.
         rd_clock w 9 (\<lambda>hour minute sec. http_time_finish (yy + (if yy < 70 then 2000 else 1900)) month d hour minute sec))))
         = Time t"
    using rest by (auto simp: rd_def at_Cons at_Nil Let_def split: if_splits)
  then show ?thesis
  proof cases
    case sp
    then obtain m y h mi s where "m < 12" "month_at w 3 m" "at w 6 [SP]" "y < 10000" "at w 7 (four y)"
        "at w 11 (clock_text h mi s)" "http_time_finish y m d h mi s = Time t"
      by (blast dest!: rd_monthD rd_isD rd_fourD rd_clockD)
    with d sp(1) show ?thesis unfolding rfc822_at_def by blast
  next
    case minus
    then obtain m yy h mi s where f: "m < 12" "month_at w 3 m" "at w 6 [b_minus]" "yy < 100" "at w 7 (two yy)"
        "at w 9 (clock_text h mi s)"
        "http_time_finish (yy + (if yy < 70 then 2000 else 1900)) m d h mi s = Time t"
      by (blast dest!: rd_monthD rd_isD rd_twoD rd_clockD)
    define y where "y = yy + (if yy < 70 then 2000 else 1900)"
    note c = century [OF f(4) y_def]
    have "rfc850_at w y m d h mi s" using d minus(1) f c by (simp add: rfc850_at_def)
    moreover have "http_time_finish y m d h mi s = Time t" using f(7) by (simp only: y_def)
    moreover have "y < 10000" using c(3) by simp
    ultimately show ?thesis using f(1) by blast
  qed
qed

lemma http_time_isocD:
  assumes "http_time_isoc w = Time t"
  shows "\<exists>y m d h mi s. m < 12 \<and> isoc_at w y m d h mi s \<and> http_time_finish y m d h mi s = Time t \<and> y < 10000"
proof -
  define p where "p = (if w ! 4 = SP then 5 else 4 :: nat)"
  define fin where "fin m d q = (if length w < q + 14 then Time_error
     else rd_clock w q (\<lambda>hour minute sec. rd_is w (q + 9) SP (rd_four w (q + 10) (\<lambda>year.
            http_time_finish year m d hour minute sec))))" for m d q
  obtain m where m: "m < 12" "month_at w 0 m" and rest: "rd_digit w p (\<lambda>d. rd w (p + 1) (\<lambda>c.
       if c = SP then fin m d (p + 1) else rd_digit w (p + 1) (\<lambda>e. fin m (d * 10 + e) (p + 2)))) = Time t"
  proof -
    have eq: "http_time_isoc w = rd_month w 0 (\<lambda>m. if 4 < length w then rd_digit w p (\<lambda>d. rd w (p + 1) (\<lambda>c.
        if c = SP then fin m d (p + 1) else rd_digit w (p + 1) (\<lambda>e. fin m (d * 10 + e) (p + 2))))
        else Time_overread)"
      unfolding http_time_isoc_def rd_def [of w 4] Let_def p_def fin_def by (rule refl)
    from rd_monthD [OF assms [unfolded eq]] that show ?thesis by (auto split: if_splits)
  qed
  obtain a where a: "a < 10" "at w p [of_nat a + b_0]" and
      more: "rd w (p + 1) (\<lambda>c. if c = SP then fin m a (p + 1) else rd_digit w (p + 1) (\<lambda>e. fin m (a * 10 + e) (p + 2)))
        = Time t"
    using rd_digitD [OF rest] by (auto simp: at_Cons at_Nil)
  have "\<exists>d q. (d < 10 \<and> at w p [of_nat d + b_0, SP] \<and> q = p + 1 \<or> d < 100 \<and> at w p (two d) \<and> q = p + 2)
      \<and> fin m d q = Time t"
  proof (cases "w ! (p + 1) = SP")
    case True
    then have "fin m a (p + 1) = Time t" "p + 1 < length w" using more by (auto simp: rd_def split: if_splits)
    with a True have "at w p [of_nat a + b_0, SP]" by (simp add: at_Cons at_Nil)
    with a(1) \<open>fin m a (p + 1) = Time t\<close> show ?thesis by blast
  next
    case False
    then have "rd_digit w (p + 1) (\<lambda>e. fin m (a * 10 + e) (p + 2)) = Time t"
      using more by (auto simp: rd_def split: if_splits)
    then obtain e where e: "e < 10" "p + 1 < length w" "w ! (p + 1) = of_nat e + b_0" "fin m (a * 10 + e) (p + 2) = Time t"
      using rd_digitD by blast
    have "at w p (two (a * 10 + e))" using a e by (simp add: two_def at_Cons at_Nil)
    moreover have "a * 10 + e < 100" using a(1) e(1) by simp
    ultimately show ?thesis using e(4) by blast
  qed
  then obtain d q where dq: "d < 10 \<and> at w p [of_nat d + b_0, SP] \<and> q = p + 1 \<or> d < 100 \<and> at w p (two d) \<and> q = p + 2"
      "fin m d q = Time t"
    by blast
  then have "rd_clock w q (\<lambda>hour minute sec. rd_is w (q + 9) SP (rd_four w (q + 10) (\<lambda>year.
      http_time_finish year m d hour minute sec))) = Time t"
    by (simp add: fin_def split: if_splits)
  then obtain h mi s y where f: "at w q (clock_text h mi s)" "at w (q + 9) [SP]" "y < 10000" "at w (q + 10) (four y)"
      "http_time_finish y m d h mi s = Time t"
    by (blast dest!: rd_isD rd_fourD rd_clockD)
  have "isoc_at w y m d h mi s" unfolding isoc_at_def using m f dq(1) p_def by blast
  with m(1) f show ?thesis by blast
qed

text \<open>
  C26: \<open>ngx_parse_http_time\<close> never reads past the end of its argument, whatever the bytes are. Every time
  it accepts is the time of the date that these bytes spell in one of the three formats (the month
  only by the letters that tell the months apart), with a time of day up to 23:59:59 and a day that does
  not exceed the length of the month in that year, leap years included; only for January and February
  of the year 0000, which the formula does not cover, the value is left open. The day of the month is
  checked from above only: day 0 is accepted for the last day of the month before, as in
  \<open>Tue, 00 Jan 2002 00:00:00 GMT\<close>, which is read as December 31, 2001.
\<close>

theorem parse_http_time_calendar:
  "ngx_parse_http_time x \<noteq> Time_overread
   \<and> (\<forall>t. ngx_parse_http_time x = Time t \<longrightarrow>
        (\<exists>y m d h mi s. date_written x y m d h mi s \<and> clock_ok h mi s \<and> d \<le> month_len y m
           \<and> (0 < y \<or> 2 \<le> m \<longrightarrow> t = civil_time y m d h mi s)))
   \<and> ngx_parse_http_time (date_text [84, 117, 101] 32 (four 2002) 0 0 0 0 0) = Time (civil_time 2001 11 31 0 0 0)"
proof -
  define v where "v = dropWhile (\<lambda>c. c \<noteq> b_comma \<and> c \<noteq> SP) x"
  define w where "w = dropWhile (\<lambda>c. c = SP) (drop 1 v)"
  have parse: "ngx_parse_http_time x = (if length w < 18 then Time_error
      else if take 1 v = [SP] then http_time_isoc w else http_time_rfc w)"
    by (simp add: ngx_parse_http_time_def Let_def w_def v_def)
  have "ngx_parse_http_time x \<noteq> Time_overread"
    unfolding no_overread_def [symmetric] parse
    by (simp add: no_overread_error no_overread_rfc no_overread_isoc not_less)
  moreover have "\<exists>y m d h mi s. date_written x y m d h mi s \<and> clock_ok h mi s \<and> d \<le> month_len y m
           \<and> (0 < y \<or> 2 \<le> m \<longrightarrow> t = civil_time y m d h mi s)" if t: "ngx_parse_http_time x = Time t" for t
  proof -
    have "http_time_isoc w = Time t \<or> http_time_rfc w = Time t" using t parse by (auto split: if_splits)
    then obtain y m d h mi s where f: "m < 12" "http_time_finish y m d h mi s = Time t" "y < 10000"
        "rfc822_at w y m d h mi s \<or> rfc850_at w y m d h mi s \<or> isoc_at w y m d h mi s"
      using http_time_rfcD http_time_isocD by blast
    obtain u where u: "x = u @ w"
    proof
      show "x = (takeWhile (\<lambda>c. c \<noteq> b_comma \<and> c \<noteq> SP) x @ take 1 v @ takeWhile (\<lambda>c. c = SP) (drop 1 v)) @ w"
        unfolding w_def append_assoc takeWhile_dropWhile_id append_take_drop_id v_def ..
    qed
    have "date_written x y m d h mi s" unfolding date_written_def using f(1,4) u by blast
    with finishD [OF f(2,1,3)] show ?thesis unfolding day_ok_def by blast
  qed
  moreover have "civil_time 2002 0 0 0 0 0 = civil_time 2001 11 31 0 0 0"
    by (simp add: civil_time_def civil_days_def month_start_def month_len_def time_mday_def year_start_closed upt_rec
        leap_year_def del: year_start.simps)
  then have "ngx_parse_http_time (date_text [84, 117, 101] 32 (four 2002) 0 0 0 0 0) = Time (civil_time 2001 11 31 0 0 0)"
    using parse_date_text(1) [of "[84, 117, 101]" 0 0 0 0 0 2002]
    by (simp add: http_time_finish_eq name_clean_def clock_ok_def day_ok_def)
  ultimately show ?thesis by blast
qed

text \<open>\<open>Sun, 06 Nov 1994 08:49:37 GMT\<close>.\<close>

theorem parse_http_time_calendar_witness:
  "\<exists>t y m d h mi s. ngx_parse_http_time (date_text [83, 117, 110] 32 (four 1994) 10 6 8 49 37) = Time t
     \<and> date_written (date_text [83, 117, 110] 32 (four 1994) 10 6 8 49 37) y m d h mi s
     \<and> clock_ok h mi s \<and> d \<le> month_len y m"
proof -
  have "ngx_parse_http_time (date_text [83, 117, 110] 32 (four 1994) 10 6 8 49 37) = Time (civil_time 1994 10 6 8 49 37)"
    using parse_date_text(1) [of "[83, 117, 110]" 10 6 8 49 37 1994]
    by (simp add: http_time_finish_eq name_clean_def clock_ok_def day_ok_def month_len_def time_mday_def)
  with parse_http_time_calendar [of "date_text [83, 117, 110] 32 (four 1994) 10 6 8 49 37"] show ?thesis by blast
qed

end
