(* ===== verification/Http_Limit_Req.thy ===== *)
theory Http_Limit_Req
  imports Ngx_Numbers
begin

text \<open>
  The request rate limiter, \<open>src/http/modules/ngx_http_limit_req_module.c\<close>: the leaky bucket of a key,
  the lookup, expiry and accounting of a zone, and the handler that runs a request through the limits
  of its location, with Tengine's rates from variables, white list and forbid actions.

  The nodes of a zone are in a red-black tree ordered by hash and key and, all of them, in a queue
  ordered by last use; a zone is the list of its nodes in the order of the queue, and the search of the
  tree is the search for the key. \<open>ctx->node\<close> is the key of the node it points to.
\<close>

section \<open>Zones\<close>

record lr_node =
  lr_key :: "byte list"
  lr_last :: u64
  lr_excess :: u64
  lr_count :: u64

record lr_ctx =
  lc_rate :: u64
  lc_queue :: "lr_node list"
  lc_node :: "byte list option"

text \<open>\<open>(ngx_msec_int_t) (now - lr->last)\<close>, brought into range, and the excess after one more request.\<close>

definition lr_ms :: "u64 \<Rightarrow> u64 \<Rightarrow> int" where
  "lr_ms now last_ms =
     (let ms = sint (now - last_ms) in if ms < - 60000 then 1 else if ms < 0 then 0 else ms)"

definition lr_next_excess :: "u64 \<Rightarrow> u64 \<Rightarrow> int \<Rightarrow> int" where
  "lr_next_excess rate excess ms =
     (let e = sint (excess - rate * word_of_int ms div 1000 + 1000) in if e < 0 then 0 else e)"

definition lr_update :: "byte list \<Rightarrow> (lr_node \<Rightarrow> lr_node) \<Rightarrow> lr_node list \<Rightarrow> lr_node list" where
  "lr_update key f = map (\<lambda>lr. if lr_key lr = key then f lr else lr)"

text \<open>\<open>ngx_http_limit_req_expire\<close>: idle nodes leave from the end of the queue, and for \<open>n = 0\<close> the last
  one does so by force.\<close>

function ngx_http_limit_req_expire :: "u64 \<Rightarrow> lr_ctx \<Rightarrow> nat \<Rightarrow> lr_ctx" where
  "ngx_http_limit_req_expire now ctx n =
     (if n \<ge> 3 \<or> lc_queue ctx = [] then ctx
      else
        (let lr = last (lc_queue ctx) in
         if lr_count lr \<noteq> 0 then ctx
         else if n \<noteq> 0 \<and>
           (let ms = abs (sint (now - lr_last lr)) in
            ms < 60000 \<or> sint (lr_excess lr - lc_rate ctx * word_of_int ms div 1000) > 0)
         then ctx
         else ngx_http_limit_req_expire now (ctx\<lparr>lc_queue := butlast (lc_queue ctx)\<rparr>) (n + 1)))"
  by pat_completeness auto
termination
  by (relation "measure (\<lambda>(now, ctx, n). 3 - n)") auto

declare ngx_http_limit_req_expire.simps [simp del]

text \<open>\<open>ngx_http_limit_req_lookup\<close>. The two allocations from the slab pool may fail.\<close>

definition lr_found :: "u64 \<Rightarrow> u64 \<Rightarrow> bool \<Rightarrow> lr_node \<Rightarrow> lr_ctx \<Rightarrow> int \<times> int \<times> lr_ctx" where
  "lr_found now burst account lr ctx =
     (let key = lr_key lr;
          queue = lr # filter (\<lambda>x. lr_key x \<noteq> key) (lc_queue ctx);
          ms = lr_ms now (lr_last lr);
          excess = lr_next_excess (lc_rate ctx) (lr_excess lr) ms
      in if word_of_int excess > burst then (NGX_BUSY, excess, ctx\<lparr>lc_queue := queue\<rparr>)
         else if account then
           (NGX_OK, excess,
            ctx\<lparr>lc_queue := lr_update key (\<lambda>lr. lr\<lparr>lr_excess := word_of_int excess,
                lr_last := (if ms \<noteq> 0 then now else lr_last lr)\<rparr>) queue\<rparr>)
         else
           (NGX_AGAIN, excess,
            ctx\<lparr>lc_queue := lr_update key (\<lambda>lr. lr\<lparr>lr_count := lr_count lr + 1\<rparr>) queue, lc_node := Some key\<rparr>))"

definition lr_insert :: "u64 \<Rightarrow> bool \<Rightarrow> byte list \<Rightarrow> lr_ctx \<Rightarrow> int \<times> int \<times> lr_ctx" where
  "lr_insert now account key ctx =
     (if account then
        (NGX_OK, 0, ctx\<lparr>lc_queue := \<lparr>lr_key = key, lr_last = now, lr_excess = 0, lr_count = 0\<rparr> # lc_queue ctx\<rparr>)
      else
        (NGX_AGAIN, 0, ctx\<lparr>lc_queue := \<lparr>lr_key = key, lr_last = 0, lr_excess = 0, lr_count = 1\<rparr> # lc_queue ctx,
           lc_node := Some key\<rparr>))"

definition ngx_http_limit_req_lookup :: "u64 \<Rightarrow> bool \<times> bool \<Rightarrow> u64 \<Rightarrow> byte list \<Rightarrow> bool \<Rightarrow> lr_ctx
    \<Rightarrow> int \<times> int \<times> lr_ctx" where
  "ngx_http_limit_req_lookup now alloc burst key account ctx =
     (case find (\<lambda>lr. lr_key lr = key) (lc_queue ctx) of
        Some lr \<Rightarrow> lr_found now burst account lr ctx
      | None \<Rightarrow>
          (let ctx1 = ngx_http_limit_req_expire now ctx 1 in
           if fst alloc then lr_insert now account key ctx1
           else
             (let ctx2 = ngx_http_limit_req_expire now ctx1 0 in
              if snd alloc then lr_insert now account key ctx2 else (NGX_ERROR, 0, ctx2))))"

section \<open>Limits of a location\<close>

text \<open>A limit names its zone by its index; \<open>lm_forbid\<close> is the length of \<open>forbid_action\<close>, only whether
  it is empty matters here.\<close>

record lr_limit =
  lm_zone :: nat
  lm_burst :: u64
  lm_delay :: u64
  lm_forbid :: nat

definition zone_of :: "lr_limit \<Rightarrow> lr_ctx list \<Rightarrow> lr_ctx" where
  "zone_of lm zones = zones ! lm_zone lm"

definition set_zone :: "lr_limit \<Rightarrow> lr_ctx \<Rightarrow> lr_ctx list \<Rightarrow> lr_ctx list" where
  "set_zone lm ctx zones = zones[lm_zone lm := ctx]"

text \<open>\<open>ngx_http_limit_req_account\<close>, the loop \<open>while (n--)\<close>: the limits before the last one that was looked
  up, from the last to the first. The code divides by the rate, which is positive except when
  \<open>rate * 1000\<close> wraps around to 0, for multiples of \<open>2\<^sup>6\<^sup>1\<close>; there the code faults, and the quotient
  below is 0.\<close>

fun lr_account_loop :: "u64 \<Rightarrow> lr_limit list \<Rightarrow> u64 \<Rightarrow> lr_ctx list \<Rightarrow> u64 \<times> lr_ctx list" where
  "lr_account_loop now [] max_delay zones = (max_delay, zones)"
| "lr_account_loop now (lm # lms) max_delay zones =
     (let ctx = zone_of lm zones in
      case lc_node ctx of
        None \<Rightarrow> lr_account_loop now lms max_delay zones
      | Some key \<Rightarrow>
          (case find (\<lambda>lr. lr_key lr = key) (lc_queue ctx) of
             None \<Rightarrow> lr_account_loop now lms max_delay zones
           | Some lr \<Rightarrow>
               (let ms = lr_ms now (lr_last lr);
                    excess = lr_next_excess (lc_rate ctx) (lr_excess lr) ms;
                    queue = lr_update key (\<lambda>lr. lr\<lparr>lr_last := (if ms \<noteq> 0 then now else lr_last lr),
                      lr_excess := word_of_int excess, lr_count := lr_count lr - 1\<rparr>) (lc_queue ctx);
                    zones' = set_zone lm (ctx\<lparr>lc_queue := queue, lc_node := None\<rparr>) zones;
                    delay = (word_of_int excess - lm_delay lm) * 1000 div lc_rate ctx
                in if word_of_int excess \<le> lm_delay lm then lr_account_loop now lms max_delay zones'
                   else lr_account_loop now lms (if delay > max_delay then delay else max_delay) zones')))"

definition ngx_http_limit_req_account :: "u64 \<Rightarrow> lr_limit list \<Rightarrow> lr_limit \<Rightarrow> u64 \<Rightarrow> lr_ctx list \<Rightarrow> u64 \<times> lr_ctx list" where
  "ngx_http_limit_req_account now before lm excess zones =
     lr_account_loop now (rev before)
       (if excess \<le> lm_delay lm then 0 else (excess - lm_delay lm) * 1000 div lc_rate (zone_of lm zones)) zones"

fun lr_unlock_loop :: "lr_limit list \<Rightarrow> lr_ctx list \<Rightarrow> lr_ctx list" where
  "lr_unlock_loop [] zones = zones"
| "lr_unlock_loop (lm # lms) zones =
     (let ctx = zone_of lm zones in
      case lc_node ctx of
        None \<Rightarrow> lr_unlock_loop lms zones
      | Some key \<Rightarrow>
          lr_unlock_loop lms
            (set_zone lm (ctx\<lparr>lc_queue := lr_update key (\<lambda>lr. lr\<lparr>lr_count := lr_count lr - 1\<rparr>) (lc_queue ctx),
               lc_node := None\<rparr>) zones))"

definition ngx_http_limit_req_unlock :: "lr_limit list \<Rightarrow> lr_ctx list \<Rightarrow> lr_ctx list" where
  "ngx_http_limit_req_unlock before zones = lr_unlock_loop (rev before) zones"

text \<open>\<open>ngx_http_limit_req_rate_value\<close>: the rate from a variable. The outer option tells whether the zone
  has such a variable, the inner one whether the request has a value for it. \<open>rate\<close> is unsigned.\<close>

definition ngx_http_limit_req_rate_value :: "byte list option option \<Rightarrow> lr_ctx \<Rightarrow> lr_ctx option" where
  "ngx_http_limit_req_rate_value rate_var ctx =
     (case rate_var of
        None \<Rightarrow> Some ctx
      | Some None \<Rightarrow> None
      | Some (Some v) \<Rightarrow>
          if length v \<le> 3 \<or> length v > 65535 then None
          else
            (let scale = (if drop (length v - 3) v = [114, 47, 109] then 60 else 1);
                 rate = word_of_int (ngx_atoi (take (length v - 3) v)) :: u64
             in if rate \<le> 0 then None else Some (ctx\<lparr>lc_rate := rate * 1000 div scale\<rparr>)))"

text \<open>What a request brings to one limit: the value of the rate variable, the value of the key (\<open>None\<close> when
  it cannot be evaluated), and whether allocations succeed.\<close>

record lr_input =
  in_rate :: "byte list option option"
  in_key :: "byte list option"
  in_alloc :: "bool \<times> bool"

text \<open>How the loop over the limits ends: with a code, the excess, the limits before index \<open>n\<close> and the limit
  looked at last, or with the return of an internal error. A limit that is the last one is accounted for
  at once.\<close>

datatype lr_loop_res = LR_rc int int "lr_limit list" lr_limit "lr_ctx list" | LR_error "lr_ctx list"

fun lr_limits_loop :: "u64 \<Rightarrow> lr_limit list \<Rightarrow> lr_limit \<Rightarrow> (lr_limit \<times> lr_input) list \<Rightarrow> int \<Rightarrow> int \<Rightarrow> lr_ctx list
    \<Rightarrow> lr_loop_res" where
  "lr_limits_loop now before lm0 [] rc excess zones = LR_rc rc excess before lm0 zones"
| "lr_limits_loop now before lm0 ((lm, inp) # rest) rc excess zones =
     (case ngx_http_limit_req_rate_value (in_rate inp) (zone_of lm zones) of
        None \<Rightarrow> LR_error zones
      | Some ctx \<Rightarrow>
          (let zones1 = set_zone lm ctx zones in
           case in_key inp of
             None \<Rightarrow> LR_error (ngx_http_limit_req_unlock before zones1)
           | Some key \<Rightarrow>
               if key = [] \<or> length key > 65535 then lr_limits_loop now (before @ [lm]) lm rest rc excess zones1
               else
                 (case ngx_http_limit_req_lookup now (in_alloc inp) (lm_burst lm) key (rest = []) ctx of
                    (rc', excess', ctx') \<Rightarrow>
                      if rc' \<noteq> NGX_AGAIN then LR_rc rc' excess' before lm (set_zone lm ctx' zones1)
                      else lr_limits_loop now (before @ [lm]) lm rest rc' excess' (set_zone lm ctx' zones1))))"

section \<open>The handler\<close>

abbreviation (input) LIMIT_REQ_PASSED :: nat where "LIMIT_REQ_PASSED \<equiv> 1"
abbreviation (input) LIMIT_REQ_DELAYED :: nat where "LIMIT_REQ_DELAYED \<equiv> 2"
abbreviation (input) LIMIT_REQ_REJECTED :: nat where "LIMIT_REQ_REJECTED \<equiv> 3"
abbreviation (input) LIMIT_REQ_DELAYED_DRY_RUN :: nat where "LIMIT_REQ_DELAYED_DRY_RUN \<equiv> 4"
abbreviation (input) LIMIT_REQ_REJECTED_DRY_RUN :: nat where "LIMIT_REQ_REJECTED_DRY_RUN \<equiv> 5"

record lr_conf =
  cf_enable :: bool
  cf_limits :: "lr_limit list"
  cf_dry_run :: bool

record lr_req =
  rq_status :: nat
  rq_white_listed :: bool
  rq_inputs :: "lr_input list"

text \<open>What the handler decides: go on, answer with an internal error or with the configured status, run the
  forbid action, or wait.\<close>

datatype lr_action = LR_declined | LR_internal_error | LR_status_code | LR_forbid_action | LR_delayed u64

definition lr_reject :: "lr_conf \<Rightarrow> int \<Rightarrow> lr_limit \<Rightarrow> lr_req \<Rightarrow> lr_action \<times> lr_req" where
  "lr_reject conf rc lm r =
     (if cf_dry_run conf then (LR_declined, r\<lparr>rq_status := LIMIT_REQ_REJECTED_DRY_RUN\<rparr>)
      else if rc = NGX_ERROR \<or> lm_forbid lm = 0 then (LR_status_code, r\<lparr>rq_status := LIMIT_REQ_REJECTED\<rparr>)
      else (LR_forbid_action, r))"

definition lr_admit :: "lr_conf \<Rightarrow> u64 \<Rightarrow> lr_req \<Rightarrow> lr_action \<times> lr_req" where
  "lr_admit conf delay r =
     (if delay = 0 then (LR_declined, r\<lparr>rq_status := LIMIT_REQ_PASSED\<rparr>)
      else if cf_dry_run conf then (LR_declined, r\<lparr>rq_status := LIMIT_REQ_DELAYED_DRY_RUN\<rparr>)
      else (LR_delayed delay, r\<lparr>rq_status := LIMIT_REQ_DELAYED\<rparr>))"

definition ngx_http_limit_req_handler :: "u64 \<Rightarrow> lr_conf \<Rightarrow> lr_req \<Rightarrow> lr_ctx list \<Rightarrow> (lr_action \<times> lr_req) \<times> lr_ctx list" where
  "ngx_http_limit_req_handler now conf r zones =
     (if rq_status r \<noteq> 0 \<or> \<not> cf_enable conf \<or> rq_white_listed r then ((LR_declined, r), zones)
      else
        (case lr_limits_loop now [] (hd (cf_limits conf)) (zip (cf_limits conf) (rq_inputs r)) NGX_DECLINED 0 zones of
           LR_error zones' \<Rightarrow> ((LR_internal_error, r), zones')
         | LR_rc rc excess before lm zones' \<Rightarrow>
             if rc = NGX_DECLINED then ((LR_declined, r), zones')
             else if rc = NGX_BUSY \<or> rc = NGX_ERROR then
               (lr_reject conf rc lm r, ngx_http_limit_req_unlock before zones')
             else
               (case ngx_http_limit_req_account now before lm (if rc = NGX_AGAIN then 0 else word_of_int excess) zones' of
                  (delay, zones2) \<Rightarrow> (lr_admit conf delay r, zones2))))"

end
