(* ===== verification/Http_Limit_Req_Rate.thy ===== *)
theory Http_Limit_Req_Rate
  imports Http_Limit_Req
begin

text \<open>
  The rate limiter keeps its promise: in every window of time the requests of a key that are let through
  are at most those that the rate and the burst allow.
\<close>

section \<open>The leaky bucket\<close>

lemma lr_ms_eq: "unat l \<le> unat now \<Longrightarrow> unat now < 2 ^ 63 \<Longrightarrow> lr_ms now l = int (unat now - unat l)"
proof -
  assume a: "unat l \<le> unat now" "unat now < 2 ^ 63"
  have "now - l = of_int (int (unat now - unat l))"
    using a(1) by (simp add: of_nat_diff)
  moreover have "sint (of_int (int (unat now - unat l)) :: u64) = int (unat now - unat l)"
    using a(2) by (intro sint_small) auto
  ultimately show ?thesis by (simp add: lr_ms_def Let_def)
qed

lemma excess_sint: "x < 2 ^ 62 \<Longrightarrow> q < 2 ^ 62 \<Longrightarrow> sint (of_int (int x - int q + 1000) :: u64) = int x - int q + 1000"
  by (intro sint_small) auto

lemma lr_next_excess_eq:
  assumes "unat rate * m < 2 ^ 62" "unat e < 2 ^ 62"
  shows "lr_next_excess rate e (int m) = max 0 (int (unat e) - int (unat rate * m div 1000) + 1000)"
proof -
  obtain q where q: "unat rate * m div 1000 = q" "q < 2 ^ 62"
    using le_less_trans [OF div_le_dividend assms(1)] by blast
  have "rate * word_of_int (int m) = of_nat (unat rate * m)" by simp
  then have "rate * word_of_int (int m) div 1000 = of_nat q"
    using assms(1) word_div_nat [of "unat rate * m" 1000] q(1) by simp
  then have "e - rate * word_of_int (int m) div 1000 + 1000 = of_int (int (unat e) - int q + 1000)"
    by simp
  moreover have "sint (of_int (int (unat e) - int q + 1000) :: u64) = int (unat e) - int q + 1000"
    using excess_sint [OF assms(2) q(2)] by simp
  ultimately show ?thesis unfolding q(1) by (simp add: lr_next_excess_def Let_def max_def)
qed

section \<open>Expiry\<close>

lemma expire_cases:
  obtains "ngx_http_limit_req_expire now ctx n = ctx"
  | "n < 3" "lc_queue ctx \<noteq> []" "lr_count (last (lc_queue ctx)) = 0"
    "n \<noteq> 0 \<Longrightarrow> \<not> \<bar>sint (now - lr_last (last (lc_queue ctx)))\<bar> < 60000"
    "ngx_http_limit_req_expire now ctx n = ngx_http_limit_req_expire now (ctx\<lparr>lc_queue := butlast (lc_queue ctx)\<rparr>) (Suc n)"
  using ngx_http_limit_req_expire.simps [of now ctx n] by (auto simp: Let_def split: if_splits)

lemma expire_subset:
  "set (lc_queue (ngx_http_limit_req_expire now ctx n)) \<subseteq> set (lc_queue ctx)
     \<and> lc_rate (ngx_http_limit_req_expire now ctx n) = lc_rate ctx"
proof (induction "3 - n" arbitrary: ctx n)
  case (Suc x)
  show ?case
  proof (cases rule: expire_cases [of now ctx n])
    case 2
    have "x = 3 - Suc n" using Suc.hyps(2) by simp
    from Suc.hyps(1) [OF this, of "ctx\<lparr>lc_queue := butlast (lc_queue ctx)\<rparr>"] 2(5) show ?thesis
      by (auto dest: in_set_butlastD)
  qed simp
qed (simp add: ngx_http_limit_req_expire.simps)

text \<open>A node in recent use does not expire.\<close>

lemma in_butlast: "x \<in> set xs \<Longrightarrow> x \<noteq> last xs \<Longrightarrow> x \<in> set (butlast xs)"
  by (induction xs) auto

lemma expire_keeps:
  "lr \<in> set (lc_queue ctx) \<Longrightarrow> \<bar>sint (now - lr_last lr)\<bar> < 60000 \<Longrightarrow> n \<noteq> 0
     \<Longrightarrow> lr \<in> set (lc_queue (ngx_http_limit_req_expire now ctx n))"
proof (induction "3 - n" arbitrary: ctx n)
  case 0
  then show ?case by (simp add: ngx_http_limit_req_expire.simps)
next
  case (Suc x)
  show ?case
  proof (cases rule: expire_cases [of now ctx n])
    case 2
    then have "lr \<noteq> last (lc_queue ctx)" using Suc.prems by auto
    then have "lr \<in> set (butlast (lc_queue ctx))" using Suc.prems(1) by (intro in_butlast)
    then show ?thesis using Suc.hyps(1) [of "Suc n" "ctx\<lparr>lc_queue := butlast (lc_queue ctx)\<rparr>"] Suc.hyps(2) Suc.prems(2) 2(5)
      by simp
  qed (use Suc.prems in simp)
qed

section \<open>The invariant of a window\<close>

text \<open>
  \<open>admitted t0 t A\<close>: in the window that started at \<open>t0\<close>, up to the time \<open>t\<close>, \<open>A\<close> requests with the key
  \<open>K\<close> were let through. Once there was one, the node of the key stays, and what the bucket has leaked
  since then plus what is left in it accounts for all of them but the first.
\<close>

definition lr_nodes_ok :: "u64 \<Rightarrow> nat \<Rightarrow> lr_ctx \<Rightarrow> bool" where
  "lr_nodes_ok burst t ctx \<longleftrightarrow> (\<forall>lr \<in> set (lc_queue ctx). unat (lr_last lr) \<le> t \<and> lr_excess lr \<le> burst)"

definition paid :: "u64 \<Rightarrow> nat \<Rightarrow> nat \<Rightarrow> lr_node \<Rightarrow> bool" where
  "paid rate t0 A lr \<longleftrightarrow> t0 \<le> unat (lr_last lr)
     \<and> 1000 * A \<le> unat (lr_excess lr) + 1000 + unat rate * (unat (lr_last lr) - t0) div 1000"

definition admitted :: "u64 \<Rightarrow> byte list \<Rightarrow> nat \<Rightarrow> nat \<Rightarrow> lr_ctx \<Rightarrow> bool" where
  "admitted burst K t0 A ctx \<longleftrightarrow>
     (A \<noteq> 0 \<longrightarrow> (\<exists>lr \<in> set (lc_queue ctx). lr_key lr = K)
        \<and> (\<forall>lr \<in> set (lc_queue ctx). lr_key lr = K \<longrightarrow> paid (lc_rate ctx) t0 A lr))"

text \<open>One more request that is let through pays for itself.\<close>

lemma paid_step:
  assumes "paid rate t0 A lr" "unat (lr_last lr) \<le> now"
    and "int e' = max 0 (int (unat (lr_excess lr)) - int (unat rate * (now - unat (lr_last lr)) div 1000) + 1000)"
  shows "1000 * Suc A \<le> e' + 1000 + unat rate * (now - t0) div 1000"
proof -
  let ?l = "unat (lr_last lr)"
  obtain a where a: "unat rate * (?l - t0) div 1000 = a" by blast
  obtain b where b: "unat rate * (now - ?l) div 1000 = b" by blast
  have "unat rate * (?l - t0) + unat rate * (now - ?l) = unat rate * (now - t0)"
    using assms(1,2) by (simp add: paid_def flip: distrib_left)
  moreover obtain c where c: "unat rate * (now - t0) div 1000 = c" by blast
  ultimately have "a + b \<le> c" using a b by (metis div_add1_eq le_add1)
  moreover have "1000 * A \<le> unat (lr_excess lr) + 1000 + a" using assms(1) a by (simp add: paid_def)
  moreover have "unat (lr_excess lr) + 1000 \<le> e' + b" using assms(3) unfolding b by linarith
  ultimately show ?thesis unfolding c by simp
qed

definition lr_safe :: "u64 \<Rightarrow> u64 \<Rightarrow> u64 \<Rightarrow> bool" where
  "lr_safe rate burst now \<longleftrightarrow> unat rate * unat now < 2 ^ 62 \<and> unat burst < 2 ^ 62 \<and> unat now < 2 ^ 63"

lemma clamp_nat: "x < 2 ^ 62 \<Longrightarrow> \<exists>e'. max 0 (int x - int q + 1000) = int e' \<and> e' < 2 ^ 63"
  by (rule exI [of _ "nat (max 0 (int x - int q + 1000))"]) auto

lemma found_excess:
  assumes "lr_safe rate burst now" "unat (lr_last lr) \<le> unat now" "lr_excess lr \<le> burst"
  shows "lr_ms now (lr_last lr) = int (unat now - unat (lr_last lr))"
    and "\<exists>e'. lr_next_excess rate (lr_excess lr) (lr_ms now (lr_last lr)) = int e' \<and> e' < 2 ^ 63
      \<and> int e' = max 0 (int (unat (lr_excess lr)) - int (unat rate * (unat now - unat (lr_last lr)) div 1000) + 1000)"
proof -
  show ms: "lr_ms now (lr_last lr) = int (unat now - unat (lr_last lr))"
    using assms(1,2) by (intro lr_ms_eq) (simp_all add: lr_safe_def)
  have e: "unat (lr_excess lr) < 2 ^ 62" using assms(1,3) by (simp add: lr_safe_def word_le_nat_alt)
  have "unat rate * (unat now - unat (lr_last lr)) \<le> unat rate * unat now" by (rule mult_le_mono2) simp
  moreover have "unat rate * unat now < 2 ^ 62" using assms(1) by (simp add: lr_safe_def)
  ultimately have "unat rate * (unat now - unat (lr_last lr)) < 2 ^ 62" by (rule le_less_trans)
  from lr_next_excess_eq [OF this e] ms
  have *: "lr_next_excess rate (lr_excess lr) (lr_ms now (lr_last lr))
      = max 0 (int (unat (lr_excess lr)) - int (unat rate * (unat now - unat (lr_last lr)) div 1000) + 1000)"
    by simp
  show "\<exists>e'. lr_next_excess rate (lr_excess lr) (lr_ms now (lr_last lr)) = int e' \<and> e' < 2 ^ 63
      \<and> int e' = max 0 (int (unat (lr_excess lr)) - int (unat rate * (unat now - unat (lr_last lr)) div 1000) + 1000)"
    unfolding * using clamp_nat [OF e] by metis
qed

lemma lookup_found_step:
  assumes "find (\<lambda>lr. lr_key lr = key) (lc_queue ctx) = Some lr"
    and "lr_safe (lc_rate ctx) burst now" "t0 \<le> unat now" "t \<le> unat now"
    and "lr_nodes_ok burst t ctx" "admitted burst K t0 A ctx"
    and "lr_found now burst True lr ctx = (rc, excess, ctx')"
  shows "lc_rate ctx' = lc_rate ctx \<and> lr_nodes_ok burst (unat now) ctx'
    \<and> admitted burst K t0 (if key = K \<and> rc = NGX_OK then Suc A else A) ctx'"
proof -
  have lr: "lr \<in> set (lc_queue ctx)" "lr_key lr = key" using assms(1) by (auto simp: find_Some_iff)
  have l: "unat (lr_last lr) \<le> unat now" "lr_excess lr \<le> burst" using assms(4,5) lr(1) by (auto simp: lr_nodes_ok_def)
  note ms = found_excess(1) [OF assms(2) l]
  obtain e' where e': "lr_next_excess (lc_rate ctx) (lr_excess lr) (lr_ms now (lr_last lr)) = int e'" "e' < 2 ^ 63"
      "int e' = max 0 (int (unat (lr_excess lr)) - int (unat (lc_rate ctx) * (unat now - unat (lr_last lr)) div 1000) + 1000)"
    using found_excess(2) [OF assms(2) l] by blast
  define new where "new = lr\<lparr>lr_excess := word_of_int (int e'), lr_last := (if lr_ms now (lr_last lr) \<noteq> 0 then now else lr_last lr)\<rparr>"
  let ?others = "filter (\<lambda>x. lr_key x \<noteq> key) (lc_queue ctx)"
  have upd: "lr_update key f (lr # ?others) = f lr # ?others" for f
    using lr(2) by (auto simp: lr_update_def intro: map_idI)
  show ?thesis
  proof (cases "word_of_int (int e') > burst")
    case True
    then have "rc = NGX_BUSY" "ctx' = ctx\<lparr>lc_queue := lr # ?others\<rparr>"
      using assms(7) lr(2) by (auto simp: lr_found_def Let_def e'(1))
    then show ?thesis
      using assms(4-6) lr by (fastforce simp: lr_nodes_ok_def admitted_def)
  next
    case False
    then have ok: "rc = NGX_OK" "ctx' = ctx\<lparr>lc_queue := new # ?others\<rparr>"
      using assms(7) lr(2) upd by (auto simp: lr_found_def Let_def e'(1) new_def)
    have last: "unat (lr_last new) = unat now"
    proof (cases "lr_ms now (lr_last lr) = 0")
      case True
      then have "unat now - unat (lr_last lr) = 0" using ms by linarith
      then show ?thesis using True l(1) by (simp add: new_def)
    qed (simp add: new_def)
    have exc: "unat (lr_excess new) = e'" "lr_excess new \<le> burst"
      using e'(2) False by (simp_all add: new_def unat_of_nat)
    have key: "lr_key new = key" using lr(2) by (simp add: new_def)
    have "paid (lc_rate ctx) t0 (Suc A) new" if "key = K"
    proof (cases "A = 0")
      case True
      then show ?thesis using assms(3) last by (simp add: paid_def)
    next
      case False
      then have "paid (lc_rate ctx) t0 A lr" using assms(6) lr that by (simp add: admitted_def)
      from paid_step [OF this l(1) e'(3)] show ?thesis using assms(3) last exc by (simp add: paid_def)
    qed
    moreover have "lr_nodes_ok burst (unat now) ctx'"
      using assms(4,5) last exc(2) by (auto simp: ok(2) lr_nodes_ok_def)
    ultimately show ?thesis using assms(6) ok key by (auto simp: admitted_def)
  qed
qed

lemma lookup_insert_step:
  assumes "find (\<lambda>lr. lr_key lr = key) (lc_queue ctx) = None"
    and "t0 \<le> unat now" "t \<le> unat now" "unat now - t0 < 60000" "unat now < 2 ^ 63"
    and "lr_nodes_ok burst t ctx" "admitted burst K t0 A ctx"
    and "lr_insert now True key (ngx_http_limit_req_expire now ctx 1) = (rc, excess, ctx')"
  shows "lc_rate ctx' = lc_rate ctx \<and> lr_nodes_ok burst (unat now) ctx'
    \<and> admitted burst K t0 (if key = K \<and> rc = NGX_OK then Suc A else A) ctx'"
proof -
  let ?c = "ngx_http_limit_req_expire now ctx 1"
  have c: "set (lc_queue ?c) \<subseteq> set (lc_queue ctx)" "lc_rate ?c = lc_rate ctx" using expire_subset by auto
  have absent: "\<forall>lr \<in> set (lc_queue ctx). lr_key lr \<noteq> key" using assms(1) by (auto simp: find_None_iff)
  let ?new = "\<lparr>lr_key = key, lr_last = now, lr_excess = 0, lr_count = 0\<rparr>"
  have ok: "rc = NGX_OK" "ctx' = ?c\<lparr>lc_queue := ?new # lc_queue ?c\<rparr>" using assms(8) by (auto simp: lr_insert_def)
  have nodes: "lr_nodes_ok burst (unat now) ctx'"
    using assms(3,6) c(1) by (fastforce simp: ok(2) lr_nodes_ok_def)
  show ?thesis
  proof (cases "key = K")
    case True
    then have "A = 0" using assms(7) absent by (auto simp: admitted_def)
    moreover have "paid (lc_rate ctx) t0 1 ?new" using assms(2) by (simp add: paid_def)
    ultimately show ?thesis
      using True nodes absent c ok by (auto simp: admitted_def)
  next
    case False
    have "\<exists>lr \<in> set (lc_queue ?c). lr_key lr = K" if "A \<noteq> 0"
    proof -
      obtain lr where lr: "lr \<in> set (lc_queue ctx)" "lr_key lr = K" "paid (lc_rate ctx) t0 A lr"
        using assms(7) \<open>A \<noteq> 0\<close> by (auto simp: admitted_def)
      have l: "unat (lr_last lr) \<le> unat now" "t0 \<le> unat (lr_last lr)"
        using assms(3,6) lr by (auto simp: lr_nodes_ok_def paid_def)
      have "now - lr_last lr = of_int (int (unat now - unat (lr_last lr)))" using l(1) by (simp add: of_nat_diff)
      then have "sint (now - lr_last lr) = int (unat now - unat (lr_last lr))"
        using assms(5) sint_small [of "int (unat now - unat (lr_last lr))"] by auto
      moreover obtain x where "unat now - unat (lr_last lr) = x" "x < 60000" using l assms(4) by auto
      ultimately have "\<bar>sint (now - lr_last lr)\<bar> < 60000" by (simp only:)
      from expire_keeps [OF lr(1) this, of 1] lr(2) show ?thesis by auto
    qed
    then show ?thesis
      using False nodes assms(7) c ok by (auto simp: admitted_def)
  qed
qed

section \<open>Requests of a location with one limit\<close>

definition lr_single :: "lr_limit \<Rightarrow> lr_conf" where
  "lr_single lm = \<lparr>cf_enable = True, cf_limits = [lm], cf_dry_run = False\<rparr>"

definition lr_fresh :: "byte list \<Rightarrow> lr_req" where
  "lr_fresh key = \<lparr>rq_status = 0, rq_white_listed = False,
     rq_inputs = [\<lparr>in_rate = None, in_key = Some key, in_alloc = (True, True)\<rparr>]\<rparr>"

definition let_through :: "lr_req \<Rightarrow> bool" where
  "let_through r \<longleftrightarrow> rq_status r = LIMIT_REQ_PASSED \<or> rq_status r = LIMIT_REQ_DELAYED"

text \<open>How many of a sequence of requests, given by their times and keys, have the key \<open>K\<close> and are let
  through, at once or after a delay.\<close>

fun lr_serve :: "byte list \<Rightarrow> lr_limit \<Rightarrow> (u64 \<times> byte list) list \<Rightarrow> lr_ctx list \<Rightarrow> nat" where
  "lr_serve K lm [] zones = 0"
| "lr_serve K lm ((now, key) # reqs) zones =
     (case ngx_http_limit_req_handler now (lr_single lm) (lr_fresh key) zones of
        ((action, r), zones') \<Rightarrow> (if key = K \<and> let_through r then 1 else 0) + lr_serve K lm reqs zones')"

definition key_ok :: "byte list \<Rightarrow> bool" where
  "key_ok key \<longleftrightarrow> key \<noteq> [] \<and> length key \<le> 65535"

lemma set_zone_set [simp]: "set_zone lm c (set_zone lm c' zones) = set_zone lm c zones"
  by (simp add: set_zone_def)

lemma zone_of_set [simp]: "lm_zone lm < length zones \<Longrightarrow> zone_of lm (set_zone lm c zones) = c"
  by (simp add: zone_of_def set_zone_def)

lemma length_set_zone [simp]: "length (set_zone lm c zones) = length zones"
  by (simp add: set_zone_def)

lemma lookup_rc:
  "ngx_http_limit_req_lookup now (True, x) burst key True ctx = (rc, e, ctx') \<Longrightarrow> rc = NGX_OK \<or> rc = NGX_BUSY"
  by (auto simp: ngx_http_limit_req_lookup_def lr_found_def lr_insert_def Let_def split: option.splits if_splits)

lemma handler_single:
  assumes "key_ok key" "ngx_http_limit_req_lookup now (True, True) (lm_burst lm) key True (zone_of lm zones) = (rc, e, ctx')"
  shows "\<exists>action r. ngx_http_limit_req_handler now (lr_single lm) (lr_fresh key) zones
      = ((action, r), set_zone lm ctx' zones) \<and> (let_through r \<longleftrightarrow> rc = NGX_OK)"
proof -
  have "lr_limits_loop now [] lm [(lm, \<lparr>in_rate = None, in_key = Some key, in_alloc = (True, True)\<rparr>)] NGX_DECLINED 0 zones
      = LR_rc rc e [] lm (set_zone lm ctx' zones)"
    using assms lookup_rc [OF assms(2)] by (auto simp: ngx_http_limit_req_rate_value_def key_ok_def Let_def)
  then show ?thesis
    using lookup_rc [OF assms(2)]
    by (auto simp: ngx_http_limit_req_handler_def lr_single_def lr_fresh_def ngx_http_limit_req_unlock_def
        ngx_http_limit_req_account_def lr_reject_def lr_admit_def let_through_def)
qed

lemma lookup_step:
  assumes "ngx_http_limit_req_lookup now (True, x) burst key True ctx = (rc, e, ctx')"
    and "lr_safe (lc_rate ctx) burst now" "t0 \<le> unat now" "t \<le> unat now" "unat now - t0 < 60000"
    and "lr_nodes_ok burst t ctx" "admitted burst K t0 A ctx"
  shows "lc_rate ctx' = lc_rate ctx \<and> lr_nodes_ok burst (unat now) ctx'
    \<and> admitted burst K t0 (if key = K \<and> rc = NGX_OK then Suc A else A) ctx'"
proof (cases "find (\<lambda>lr. lr_key lr = key) (lc_queue ctx)")
  case (Some lr)
  then have "lr_found now burst True lr ctx = (rc, e, ctx')" using assms(1) by (simp add: ngx_http_limit_req_lookup_def)
  from lookup_found_step [OF Some assms(2-4,6,7) this] show ?thesis .
next
  case None
  then have "lr_insert now True key (ngx_http_limit_req_expire now ctx 1) = (rc, e, ctx')"
    using assms(1) by (simp add: ngx_http_limit_req_lookup_def)
  moreover have "unat now < 2 ^ 63" using assms(2) by (simp add: lr_safe_def)
  ultimately show ?thesis using lookup_insert_step [OF None assms(3-5) _ assms(6,7)] by blast
qed

lemma serve_bound:
  assumes "lm_zone lm < length zones" "lr_nodes_ok (lm_burst lm) t (zone_of lm zones)"
    and "admitted (lm_burst lm) K t0 A (zone_of lm zones)" "lc_rate (zone_of lm zones) = rate"
    and "sorted (map (unat \<circ> fst) reqs)" "\<forall>(now, key) \<in> set reqs. key_ok key \<and> t \<le> unat now \<and> t0 \<le> unat now
      \<and> unat now - t0 \<le> T \<and> lr_safe rate (lm_burst lm) now" "T < 60000"
    and "A \<noteq> 0 \<Longrightarrow> t - t0 \<le> T"
  shows "1000 * (A + lr_serve K lm reqs zones) \<le> unat (lm_burst lm) + 1000 + unat rate * T div 1000"
  using assms
proof (induction reqs arbitrary: zones t A)
  case Nil
  show ?case
  proof (cases "A = 0")
    case False
    then obtain lr where lr: "lr \<in> set (lc_queue (zone_of lm zones))" "paid rate t0 A lr"
      using Nil.prems(3,4) by (auto simp: admitted_def)
    then have l: "unat (lr_last lr) \<le> t" "lr_excess lr \<le> lm_burst lm" using Nil.prems(2) by (auto simp: lr_nodes_ok_def)
    then have "unat rate * (unat (lr_last lr) - t0) div 1000 \<le> unat rate * T div 1000"
      using Nil.prems(8) False by (intro div_le_mono mult_le_mono2) linarith
    moreover have "unat (lr_excess lr) \<le> unat (lm_burst lm)" using l(2) by (simp add: word_le_nat_alt)
    moreover have "1000 * A \<le> unat (lr_excess lr) + 1000 + unat rate * (unat (lr_last lr) - t0) div 1000"
      using lr(2) by (simp add: paid_def)
    ultimately show ?thesis unfolding lr_serve.simps add_0_right by (meson add_le_mono le_trans order_refl)
  qed simp
next
  case (Cons req reqs)
  obtain now key where req: "req = (now, key)" by (cases req)
  have now: "key_ok key" "t \<le> unat now" "t0 \<le> unat now" "unat now - t0 \<le> T" "lr_safe rate (lm_burst lm) now"
    using Cons.prems(6) by (auto simp: req)
  obtain rc e ctx' where lk: "ngx_http_limit_req_lookup now (True, True) (lm_burst lm) key True (zone_of lm zones) = (rc, e, ctx')"
    by (metis prod_cases3)
  obtain action r where h: "ngx_http_limit_req_handler now (lr_single lm) (lr_fresh key) zones = ((action, r), set_zone lm ctx' zones)"
      "let_through r \<longleftrightarrow> rc = NGX_OK"
    using handler_single [OF now(1) lk] by blast
  let ?A = "if key = K \<and> rc = NGX_OK then Suc A else A"
  have step: "lc_rate ctx' = rate \<and> lr_nodes_ok (lm_burst lm) (unat now) ctx' \<and> admitted (lm_burst lm) K t0 ?A ctx'"
    using lookup_step [OF lk _ now(3,2) _ Cons.prems(2,3)] now(4,5) Cons.prems(4,7) by simp
  have "1000 * (?A + lr_serve K lm reqs (set_zone lm ctx' zones)) \<le> unat (lm_burst lm) + 1000 + unat rate * T div 1000"
    using Cons.prems step now by (intro Cons.IH [of _ "unat now"]) (auto simp: req)
  moreover have "A + lr_serve K lm (req # reqs) zones = ?A + lr_serve K lm reqs (set_zone lm ctx' zones)"
    using h by (simp add: req)
  ultimately show ?case by (simp only:)
qed

text \<open>
  C13: The rate limiter limits the rate. In a location with one limit, for any sequence of requests with
  any keys that arrive within \<open>T\<close> milliseconds, \<open>T\<close> below 60000, the requests with a key \<open>K\<close> that are let
  through, at once or delayed, are at most one plus the burst plus what the rate allows in that time,
  whatever nodes the zone starts with (last used in the past, no fuller than the burst) and whatever nodes
  expire in between. Rates and bursts are counted in thousandths of a request; \<open>lr_safe\<close> keeps the
  products in the signed range, and no node is evicted by force in that time.
\<close>

theorem limit_req_rate:
  assumes "lm_zone lm < length zones" "ctx = zone_of lm zones" "lr_nodes_ok (lm_burst lm) t0 ctx"
    and "sorted (map (unat \<circ> fst) reqs)"
    and "\<forall>(now, key) \<in> set reqs. key_ok key \<and> t0 \<le> unat now \<and> unat now - t0 \<le> T \<and> lr_safe (lc_rate ctx) (lm_burst lm) now"
    and "T < 60000"
  shows "1000 * lr_serve K lm reqs zones \<le> unat (lm_burst lm) + 1000 + unat (lc_rate ctx) * T div 1000"
proof -
  have "admitted (lm_burst lm) K t0 0 (zone_of lm zones)" by (simp add: admitted_def)
  from serve_bound [OF assms(1) assms(3) [unfolded assms(2)] this _ assms(4) _ assms(6)] assms(2,5)
  show ?thesis by force
qed

theorem limit_req_rate_witness:
  "1000 * lr_serve [97] \<lparr>lm_zone = 0, lm_burst = 5000, lm_delay = 0, lm_forbid = 0\<rparr> (map (\<lambda>i. (of_nat i, [97])) [1..<30])
     [\<lparr>lc_rate = 2000, lc_queue = [], lc_node = None\<rparr>] \<le> 6056"
proof -
  let ?lm = "\<lparr>lm_zone = 0, lm_burst = 5000, lm_delay = 0, lm_forbid = 0\<rparr> :: lr_limit"
  let ?z = "\<lparr>lc_rate = 2000, lc_queue = [], lc_node = None\<rparr> :: lr_ctx"
  let ?reqs = "map (\<lambda>i. (of_nat i, [97])) [1..<30] :: (u64 \<times> byte list) list"
  have u: "unat (of_nat i :: u64) = i" if "i < 30" for i using that by (simp add: unat_of_nat)
  have "map (unat \<circ> fst) ?reqs = [1..<30]" using u by (auto intro: map_idI)
  then have "sorted (map (unat \<circ> fst) ?reqs)" by (simp only:) simp
  moreover have "\<forall>(now, key) \<in> set ?reqs. key_ok key \<and> 1 \<le> unat now \<and> unat now - 1 \<le> 28
      \<and> lr_safe (lc_rate ?z) (lm_burst ?lm) now"
    using u by (auto simp: key_ok_def lr_safe_def)
  ultimately show ?thesis
    using limit_req_rate [of ?lm "[?z]" ?z 1 ?reqs 28 "[97]"] by (simp add: zone_of_def lr_nodes_ok_def)
qed

end
