(* ===== verification/Http_Limit_Req_Pins.thy ===== *)
theory Http_Limit_Req_Pins
  imports Http_Limit_Req
begin

text \<open>
  The pins of the request rate limiter. A request that passes a limit which is not its last one leaves
  the node of its key with \<open>count\<close> incremented, which protects it from expiry, and remembers it in
  \<open>ctx->node\<close>; accounting or unlocking takes the pin back. The lemmas follow the pins through the
  handler, and show the path that leaves one behind.
\<close>

definition unpinned :: "lr_ctx \<Rightarrow> bool" where
  "unpinned ctx \<longleftrightarrow> lc_node ctx = None \<and> (\<forall>lr \<in> set (lc_queue ctx). lr_count lr = 0)"

definition pinned_at :: "byte list \<Rightarrow> lr_ctx \<Rightarrow> bool" where
  "pinned_at key ctx \<longleftrightarrow> lc_node ctx = Some key \<and> (\<exists>lr \<in> set (lc_queue ctx). lr_key lr = key)
     \<and> (\<forall>lr \<in> set (lc_queue ctx). lr_count lr = (if lr_key lr = key then 1 else 0))"

definition pin_ok :: "lr_ctx \<Rightarrow> bool" where
  "pin_ok ctx \<longleftrightarrow> unpinned ctx \<or> (\<exists>key. pinned_at key ctx)"

section \<open>Zones\<close>

lemma expire_unpinned: "unpinned ctx \<Longrightarrow> unpinned (ngx_http_limit_req_expire now ctx n)"
proof (induction now ctx n rule: ngx_http_limit_req_expire.induct)
  case (1 now ctx n)
  have "unpinned (ctx\<lparr>lc_queue := butlast (lc_queue ctx)\<rparr>)"
    using "1.prems" by (auto simp: unpinned_def dest: in_set_butlastD)
  with "1.IH" "1.prems" show ?case by (subst ngx_http_limit_req_expire.simps) (simp add: Let_def)
qed

lemma found_pins:
  assumes "unpinned ctx" "find (\<lambda>lr. lr_key lr = key) (lc_queue ctx) = Some lr"
    and "lr_found now burst account lr ctx = (rc, e, ctx')"
  shows "if rc = NGX_AGAIN then pinned_at key ctx' else unpinned ctx'"
proof -
  have lr: "lr \<in> set (lc_queue ctx)" "lr_key lr = key" using assms(2) by (auto simp: find_Some_iff)
  with assms(1,3) show ?thesis
    by (auto simp: lr_found_def unpinned_def pinned_at_def lr_update_def Let_def split: if_splits)
qed

lemma insert_pins:
  assumes "unpinned ctx" "find (\<lambda>lr. lr_key lr = key) (lc_queue ctx) = None" "lr_insert now account key ctx = (rc, e, ctx')"
  shows "if rc = NGX_AGAIN then pinned_at key ctx' else unpinned ctx'"
proof (cases account)
  case True
  then show ?thesis using assms(1,3) by (auto simp: lr_insert_def unpinned_def)
next
  case False
  then have "rc = NGX_AGAIN" "lc_node ctx' = Some key"
      "lc_queue ctx' = \<lparr>lr_key = key, lr_last = 0, lr_excess = 0, lr_count = 1\<rparr> # lc_queue ctx"
    using assms(3) by (auto simp: lr_insert_def)
  then show ?thesis using assms(1,2) by (auto simp: unpinned_def pinned_at_def find_None_iff)
qed

lemma expire_find_None:
  "find P (lc_queue ctx) = None \<Longrightarrow> find P (lc_queue (ngx_http_limit_req_expire now ctx n)) = None"
proof (induction now ctx n rule: ngx_http_limit_req_expire.induct)
  case (1 now ctx n)
  have "find P (lc_queue (ctx\<lparr>lc_queue := butlast (lc_queue ctx)\<rparr>)) = None"
    using "1.prems" by (auto simp: find_None_iff dest: in_set_butlastD)
  with "1.IH" "1.prems" show ?case by (subst ngx_http_limit_req_expire.simps) (simp add: Let_def)
qed

lemma lookup_pins:
  assumes "unpinned ctx" "ngx_http_limit_req_lookup now alloc burst key account ctx = (rc, e, ctx')"
  shows "if rc = NGX_AGAIN then pinned_at key ctx' else unpinned ctx'"
proof (cases "find (\<lambda>lr. lr_key lr = key) (lc_queue ctx)")
  case (Some lr)
  then show ?thesis using found_pins [OF assms(1) Some] assms(2) by (simp add: ngx_http_limit_req_lookup_def)
next
  case None
  let ?c1 = "ngx_http_limit_req_expire now ctx 1"
  let ?c2 = "ngx_http_limit_req_expire now ?c1 0"
  have c: "unpinned ?c1" "unpinned ?c2" using assms(1) by (auto intro: expire_unpinned)
  have f: "find (\<lambda>lr. lr_key lr = key) (lc_queue ?c1) = None" "find (\<lambda>lr. lr_key lr = key) (lc_queue ?c2) = None"
    using None by (auto intro: expire_find_None)
  from assms(2) None consider "lr_insert now account key ?c1 = (rc, e, ctx')"
    | "lr_insert now account key ?c2 = (rc, e, ctx')" | "rc = NGX_ERROR" "ctx' = ?c2"
    by (auto simp: ngx_http_limit_req_lookup_def Let_def split: if_splits)
  then show ?thesis
  proof cases
    case 1 then show ?thesis by (rule insert_pins [OF c(1) f(1)])
  next
    case 2 then show ?thesis by (rule insert_pins [OF c(2) f(2)])
  next
    case 3 with c(2) show ?thesis by simp
  qed
qed

lemma unpin_unpinned:
  assumes "pinned_at key ctx" "\<And>lr. lr_count (f lr) = lr_count lr - 1"
  shows "unpinned (ctx\<lparr>lc_queue := lr_update key f (lc_queue ctx), lc_node := None\<rparr>)"
  using assms by (auto simp: pinned_at_def unpinned_def lr_update_def)

section \<open>The zones of a location\<close>

lemma pin_okI: "unpinned ctx \<Longrightarrow> pin_ok ctx"
  by (simp add: pin_ok_def)

lemma nth_set_zone: "i < length zones \<Longrightarrow> set_zone lm ctx zones ! i = (if i = lm_zone lm then ctx else zones ! i)"
  by (simp add: set_zone_def nth_list_update)

lemma length_zones: "length (set_zone lm ctx zones) = length zones"
  by (simp add: set_zone_def)

text \<open>\<open>pins_within before zones\<close>: only zones of the limits in \<open>before\<close> may hold a pin.\<close>

definition pins_within :: "lr_limit list \<Rightarrow> lr_ctx list \<Rightarrow> bool" where
  "pins_within before zones \<longleftrightarrow>
     (\<forall>i < length zones. pin_ok (zones ! i) \<and> (i \<notin> lm_zone ` set before \<longrightarrow> unpinned (zones ! i)))"

lemma pins_within_Nil: "pins_within [] zones \<longleftrightarrow> (\<forall>ctx \<in> set zones. unpinned ctx)"
  by (auto simp: pins_within_def all_set_conv_all_nth intro: pin_okI)

lemma pins_within_set: "pins_within before zones \<Longrightarrow> unpinned ctx \<Longrightarrow> pins_within before (set_zone lm ctx zones)"
  by (auto simp: pins_within_def nth_set_zone length_zones intro: pin_okI)

lemma pins_within_pin:
  "pins_within before zones \<Longrightarrow> pin_ok ctx \<Longrightarrow> pins_within (before @ [lm]) (set_zone lm ctx zones)"
  by (auto simp: pins_within_def nth_set_zone length_zones)

lemma pins_within_snoc: "pins_within before zones \<Longrightarrow> pins_within (before @ [lm]) zones"
  by (auto simp: pins_within_def)

lemma pins_within_drop:
  "pins_within (lm # lms) zones \<Longrightarrow> lm_zone lm < length zones \<Longrightarrow> unpinned (zone_of lm zones) \<Longrightarrow> pins_within lms zones"
  by (auto simp: pins_within_def zone_of_def)

lemma pins_within_release:
  "pins_within (lm # lms) zones \<Longrightarrow> unpinned ctx \<Longrightarrow> pins_within lms (set_zone lm ctx zones)"
  by (auto simp: pins_within_def nth_set_zone length_zones intro: pin_okI)

lemma pins_within_cases:
  assumes "pins_within (lm # lms) zones" "lm_zone lm < length zones"
  obtains (unpinned) "unpinned (zone_of lm zones)" "lc_node (zone_of lm zones) = None" "pins_within lms zones"
    | (pinned) key where "pinned_at key (zone_of lm zones)" "lc_node (zone_of lm zones) = Some key"
proof -
  have "pin_ok (zone_of lm zones)" using assms by (simp add: pins_within_def zone_of_def)
  then show thesis
    using that pins_within_drop [OF assms] by (auto simp: pin_ok_def unpinned_def pinned_at_def)
qed

lemma unlock_loop_unpins:
  "pins_within lms zones \<Longrightarrow> \<forall>lm \<in> set lms. lm_zone lm < length zones \<Longrightarrow> pins_within [] (lr_unlock_loop lms zones)"
proof (induction lms zones rule: lr_unlock_loop.induct)
  case (2 lm lms zones)
  then have "lm_zone lm < length zones" by simp
  with "2.prems"(1) show ?case
  proof (cases rule: pins_within_cases)
    case unpinned
    then show ?thesis using "2.IH"(1) [OF refl] "2.prems"(2) by (simp add: Let_def)
  next
    case (pinned key)
    let ?z = "set_zone lm ((zone_of lm zones)\<lparr>lc_queue := lr_update key (\<lambda>lr. lr\<lparr>lr_count := lr_count lr - 1\<rparr>)
      (lc_queue (zone_of lm zones)), lc_node := None\<rparr>) zones"
    have "pins_within lms ?z"
      using pinned(1) by (intro pins_within_release [OF "2.prems"(1)] unpin_unpinned) simp_all
    moreover have "\<forall>lm \<in> set lms. lm_zone lm < length ?z" using "2.prems"(2) by (simp add: set_zone_def)
    ultimately show ?thesis using "2.IH"(2) [OF refl pinned(2)] pinned(2) by (simp add: Let_def)
  qed
qed simp

lemma account_loop_unpins:
  "pins_within lms zones \<Longrightarrow> \<forall>lm \<in> set lms. lm_zone lm < length zones
    \<Longrightarrow> pins_within [] (snd (lr_account_loop now lms d zones))"
proof (induction lms arbitrary: zones d)
  case (Cons lm lms)
  then have "lm_zone lm < length zones" by simp
  with Cons.prems(1) show ?case
  proof (cases rule: pins_within_cases)
    case unpinned
    then show ?thesis using Cons by (simp add: Let_def)
  next
    case (pinned key)
    then obtain lr where lr: "find (\<lambda>lr. lr_key lr = key) (lc_queue (zone_of lm zones)) = Some lr"
      by (cases "find (\<lambda>lr. lr_key lr = key) (lc_queue (zone_of lm zones))") (auto simp: pinned_at_def find_None_iff)
    let ?z = "\<lambda>l e. set_zone lm ((zone_of lm zones)\<lparr>lc_queue := lr_update key
      (\<lambda>lr. lr\<lparr>lr_last := l lr, lr_excess := e, lr_count := lr_count lr - 1\<rparr>)
      (lc_queue (zone_of lm zones)), lc_node := None\<rparr>) zones"
    have "pins_within lms (?z l e)" for l e
      using pinned(1) by (intro pins_within_release [OF Cons.prems(1)] unpin_unpinned) simp_all
    moreover have "\<forall>lm \<in> set lms. lm_zone lm < length (?z l e)" for l e using Cons.prems(2) by (simp add: set_zone_def)
    ultimately have "pins_within [] (snd (lr_account_loop now lms d' (?z l e)))" for d' l e by (rule Cons.IH)
    then show ?thesis using pinned(2) lr by (simp add: Let_def)
  qed
qed simp

lemma unlock_unpins:
  "pins_within before zones \<Longrightarrow> \<forall>lm \<in> set before. lm_zone lm < length zones
    \<Longrightarrow> pins_within [] (ngx_http_limit_req_unlock before zones)"
  unfolding ngx_http_limit_req_unlock_def by (rule unlock_loop_unpins) (simp_all add: pins_within_def)

lemma account_unpins:
  "pins_within before zones \<Longrightarrow> \<forall>lm \<in> set before. lm_zone lm < length zones
    \<Longrightarrow> pins_within [] (snd (ngx_http_limit_req_account now before lm e zones))"
  unfolding ngx_http_limit_req_account_def by (rule account_loop_unpins) (simp_all add: pins_within_def)

section \<open>The loop over the limits\<close>

definition rate_readable :: "lr_input \<Rightarrow> bool" where
  "rate_readable inp \<longleftrightarrow> (\<forall>ctx. ngx_http_limit_req_rate_value (in_rate inp) ctx \<noteq> None)"

fun loop_pins :: "lr_limit list \<Rightarrow> lr_ctx list \<Rightarrow> lr_loop_res \<Rightarrow> bool" where
  "loop_pins limits zones (LR_rc rc e before lm zones') \<longleftrightarrow>
     set before \<subseteq> set limits \<and> length zones' = length zones \<and> pins_within before zones'
     \<and> (rc = NGX_DECLINED \<longrightarrow> pins_within [] zones')"
| "loop_pins limits zones (LR_error zones') \<longleftrightarrow> pins_within [] zones'"

lemma rate_value_unpinned:
  "ngx_http_limit_req_rate_value v ctx = Some ctx' \<Longrightarrow> unpinned ctx' = unpinned ctx"
  by (auto simp: ngx_http_limit_req_rate_value_def unpinned_def Let_def split: option.splits if_splits)

lemma lookup_not_declined:
  "ngx_http_limit_req_lookup now alloc burst key account ctx = (rc, e, ctx') \<Longrightarrow> rc \<noteq> NGX_DECLINED"
  by (auto simp: ngx_http_limit_req_lookup_def lr_found_def lr_insert_def Let_def split: option.splits if_splits)

lemma limits_loop_pins:
  assumes "pins_within before zones" "rc = NGX_DECLINED \<Longrightarrow> pins_within [] zones"
    and "distinct (map lm_zone (before @ map fst work))" "\<forall>lm \<in> set (before @ map fst work). lm_zone lm < length zones"
    and "\<forall>inp \<in> set (map snd work). rate_readable inp"
  shows "loop_pins (before @ map fst work) zones (lr_limits_loop now before lm0 work rc e zones)"
  using assms
proof (induction work arbitrary: before lm0 rc e zones)
  case Nil
  then show ?case by simp
next
  case (Cons w work)
  obtain lm inp where w: "w = (lm, inp)" by (cases w)
  let ?all = "before @ map fst (w # work)"
  have lm: "lm_zone lm < length zones" "lm_zone lm \<notin> lm_zone ` set before" using Cons.prems(3,4) by (auto simp: w)
  obtain ctx where ctx: "ngx_http_limit_req_rate_value (in_rate inp) (zone_of lm zones) = Some ctx"
    using Cons.prems(5) by (auto simp: w rate_readable_def) blast
  have "unpinned (zone_of lm zones)" using Cons.prems(1) lm by (simp add: pins_within_def zone_of_def)
  then have u: "unpinned ctx" using rate_value_unpinned [OF ctx] by simp
  let ?z = "set_zone lm ctx zones"
  have z: "pins_within before ?z" "rc = NGX_DECLINED \<Longrightarrow> pins_within [] ?z"
    using Cons.prems(1,2) u by (auto intro: pins_within_set)
  have IH: "loop_pins ?all zones (lr_limits_loop now (before @ [lm]) lm work rc' e' zs)"
    if "pins_within (before @ [lm]) zs" "rc' = NGX_DECLINED \<Longrightarrow> pins_within [] zs" "length zs = length zones" for rc' e' zs
    using Cons.IH [of "before @ [lm]" zs rc' lm e'] that Cons.prems(3-5)
    by (cases "lr_limits_loop now (before @ [lm]) lm work rc' e' zs") (simp_all add: w)
  show ?case
  proof (cases "in_key inp")
    case None
    then show ?thesis using unlock_unpins [OF z(1)] Cons.prems(4) ctx by (simp add: w length_zones)
  next
    case (Some key)
    show ?thesis
    proof (cases "key = [] \<or> length key > 65535")
      case True
      then show ?thesis using IH [of ?z rc e] z pins_within_snoc [OF z(1)] Some ctx by (simp add: w length_zones)
    next
      case False
      obtain rc' e' ctx' where lk: "ngx_http_limit_req_lookup now (in_alloc inp) (lm_burst lm) key (work = []) ctx = (rc', e', ctx')"
        by (metis prod_cases3)
      note p = lookup_pins [OF u lk]
      show ?thesis
      proof (cases "rc' = NGX_AGAIN")
        case True
        then have "pin_ok ctx'" using p by (auto simp: pin_ok_def)
        then show ?thesis
          using IH [of "set_zone lm ctx' ?z" rc' e'] pins_within_pin [OF z(1)] True False Some ctx lk by (simp add: w length_zones)
      next
        case nagain: False
        then have "pins_within before (set_zone lm ctx' ?z)" using p z(1) by (auto intro: pins_within_set)
        then show ?thesis
          using nagain False Some ctx lk lookup_not_declined [OF lk] by (auto simp: w length_zones)
      qed
    qed
  qed
qed

text \<open>
  C14: The limiter leaves no pin behind. For a location whose limits are in different zones, none of
  which holds a pinned node, and a request for which every rate variable can be read, no zone holds a
  pinned node after the handler, whether the request is let through, delayed, rejected by a limit, fails
  for a key that cannot be evaluated, or finds the slab pool exhausted.
\<close>

theorem limit_req_unpinned:
  assumes "distinct (map lm_zone (cf_limits conf))" "\<forall>lm \<in> set (cf_limits conf). lm_zone lm < length zones"
    and "\<forall>inp \<in> set (rq_inputs r). rate_readable inp" "\<forall>ctx \<in> set zones. unpinned ctx"
  shows "\<forall>ctx \<in> set (snd (ngx_http_limit_req_handler now conf r zones)). unpinned ctx"
proof (cases "rq_status r \<noteq> 0 \<or> \<not> cf_enable conf \<or> rq_white_listed r")
  case True
  then show ?thesis using assms(4) by (simp add: ngx_http_limit_req_handler_def)
next
  case False
  let ?work = "zip (cf_limits conf) (rq_inputs r)"
  let ?res = "lr_limits_loop now [] (hd (cf_limits conf)) ?work NGX_DECLINED 0 zones"
  have "loop_pins ([] @ map fst ?work) zones ?res"
    using assms by (intro limits_loop_pins)
      (auto simp: pins_within_Nil map_fst_zip_take dest: in_set_takeD set_zip_rightD simp flip: take_map)
  moreover have "set (map fst ?work) \<subseteq> set (cf_limits conf)" by (auto dest: set_zip_leftD)
  ultimately have r: "loop_pins (cf_limits conf) zones ?res" by (cases ?res) auto
  have "pins_within [] (snd (ngx_http_limit_req_handler now conf r zones))"
  proof (cases ?res)
    case (LR_error zones')
    then show ?thesis using r False by (simp add: ngx_http_limit_req_handler_def)
  next
    case (LR_rc rc e before lm zones')
    then have p: "pins_within before zones'" "\<forall>lm \<in> set before. lm_zone lm < length zones'"
        "rc = NGX_DECLINED \<Longrightarrow> pins_within [] zones'"
      using r assms(2) by auto
    then show ?thesis
      using unlock_unpins [OF p(1,2)] account_unpins [OF p(1,2)] False LR_rc
      by (auto simp: ngx_http_limit_req_handler_def split: prod.splits) (metis snd_conv)+
  qed
  then show ?thesis by (simp add: pins_within_Nil)
qed

theorem limit_req_unpinned_witness:
  "list_all unpinned (snd (ngx_http_limit_req_handler 5
      \<lparr>cf_enable = True, cf_limits = [\<lparr>lm_zone = 0, lm_burst = 0, lm_delay = 0, lm_forbid = 0\<rparr>,
         \<lparr>lm_zone = 1, lm_burst = 0, lm_delay = 0, lm_forbid = 0\<rparr>], cf_dry_run = False\<rparr>
      \<lparr>rq_status = 0, rq_white_listed = False,
         rq_inputs = [\<lparr>in_rate = None, in_key = Some [97], in_alloc = (True, True)\<rparr>,
           \<lparr>in_rate = None, in_key = Some [98], in_alloc = (False, False)\<rparr>]\<rparr>
      [\<lparr>lc_rate = 1000, lc_queue = [], lc_node = None\<rparr>, \<lparr>lc_rate = 1000, lc_queue = [], lc_node = None\<rparr>]))"
  unfolding list_all_iff
  by (rule limit_req_unpinned) (auto simp: rate_readable_def ngx_http_limit_req_rate_value_def unpinned_def)

section \<open>The paths that go wrong\<close>

lemma expire_pinned: "pinned_at key ctx \<Longrightarrow> pinned_at key (ngx_http_limit_req_expire now ctx n)"
proof (induction now ctx n rule: ngx_http_limit_req_expire.induct)
  case (1 now ctx n)
  have "pinned_at key (ctx\<lparr>lc_queue := butlast (lc_queue ctx)\<rparr>)"
    if "lc_queue ctx \<noteq> []" "lr_count (last (lc_queue ctx)) = 0"
  proof -
    have l: "lc_queue ctx = butlast (lc_queue ctx) @ [last (lc_queue ctx)]" using that(1) by simp
    have "lr_key (last (lc_queue ctx)) \<noteq> key" using "1.prems" that by (auto simp: pinned_at_def)
    moreover have "\<exists>lr \<in> set (butlast (lc_queue ctx) @ [last (lc_queue ctx)]). lr_key lr = key"
      using "1.prems" unfolding l [symmetric] by (simp add: pinned_at_def)
    ultimately show ?thesis using "1.prems" by (auto simp: pinned_at_def dest: in_set_butlastD)
  qed
  with "1.IH" "1.prems" show ?case by (subst ngx_http_limit_req_expire.simps) (simp add: Let_def)
qed

text \<open>
  C37: A rate that cannot be read leaks a pin. When the first of two limits has looked up its node and the
  rate variable of the second one cannot be read, the handler answers with an internal error and, unlike
  for a key that cannot be evaluated, does not unlock the first limit: when the request is over its node
  is still pinned, and expiry does not remove it, whatever the time and with or without force, as long
  as no later request takes the count back through the stale \<open>ctx->node\<close>.
\<close>

theorem limit_req_rate_error_leaks:
  assumes "conf = \<lparr>cf_enable = True, cf_limits = [lm1, lm2], cf_dry_run = dry\<rparr>"
    and "r = \<lparr>rq_status = 0, rq_white_listed = False, rq_inputs = [\<lparr>in_rate = None, in_key = Some key, in_alloc = (True, al)\<rparr>, inp2]\<rparr>"
    and "key \<noteq> []" "length key \<le> 65535" "lm_zone lm1 < length zones" "lm_zone lm1 \<noteq> lm_zone lm2"
    and "unpinned (zone_of lm1 zones)" "ngx_http_limit_req_rate_value (in_rate inp2) (zone_of lm2 zones) = None"
    and "fst (ngx_http_limit_req_lookup now (True, al) (lm_burst lm1) key False (zone_of lm1 zones)) = NGX_AGAIN"
  shows "\<exists>zones'. ngx_http_limit_req_handler now conf r zones = ((LR_internal_error, r), zones')
    \<and> (\<forall>later n. pinned_at key (ngx_http_limit_req_expire later (zone_of lm1 zones') n))"
proof -
  obtain e ctx' where lk: "ngx_http_limit_req_lookup now (True, al) (lm_burst lm1) key False (zone_of lm1 zones) = (NGX_AGAIN, e, ctx')"
    using assms(9) by (metis prod.collapse)
  have p: "pinned_at key ctx'" using lookup_pins [OF assms(7) lk] by simp
  have z: "set_zone lm1 ctx' (set_zone lm1 c zones) = set_zone lm1 ctx' zones" for c by (simp add: set_zone_def)
  have z2: "zone_of lm2 (set_zone lm1 ctx' zones) = zone_of lm2 zones" using assms(6) by (simp add: zone_of_def set_zone_def)
  have "ngx_http_limit_req_handler now conf r zones = ((LR_internal_error, r), set_zone lm1 ctx' zones)"
    using assms(1-4,8) lk
    by (simp add: ngx_http_limit_req_handler_def ngx_http_limit_req_rate_value_def [of None] z z2)
  moreover have "zone_of lm1 (set_zone lm1 ctx' zones) = ctx'" using assms(5) by (simp add: zone_of_def set_zone_def)
  ultimately show ?thesis using expire_pinned [OF p] by simp
qed

theorem limit_req_rate_error_leaks_witness:
  "\<exists>zones'. ngx_http_limit_req_handler 5
      \<lparr>cf_enable = True, cf_limits = [\<lparr>lm_zone = 0, lm_burst = 0, lm_delay = 0, lm_forbid = 0\<rparr>,
         \<lparr>lm_zone = 1, lm_burst = 0, lm_delay = 0, lm_forbid = 0\<rparr>], cf_dry_run = False\<rparr>
      \<lparr>rq_status = 0, rq_white_listed = False,
         rq_inputs = [\<lparr>in_rate = None, in_key = Some [97], in_alloc = (True, True)\<rparr>,
           \<lparr>in_rate = Some None, in_key = Some [98], in_alloc = (True, True)\<rparr>]\<rparr>
      [\<lparr>lc_rate = 1000, lc_queue = [], lc_node = None\<rparr>, \<lparr>lc_rate = 1000, lc_queue = [], lc_node = None\<rparr>]
    = ((LR_internal_error, \<lparr>rq_status = 0, rq_white_listed = False,
         rq_inputs = [\<lparr>in_rate = None, in_key = Some [97], in_alloc = (True, True)\<rparr>,
           \<lparr>in_rate = Some None, in_key = Some [98], in_alloc = (True, True)\<rparr>]\<rparr>), zones')
    \<and> (\<forall>later n. pinned_at [97] (ngx_http_limit_req_expire later
        (zone_of \<lparr>lm_zone = 0, lm_burst = 0, lm_delay = 0, lm_forbid = 0\<rparr> zones') n))"
  by (rule limit_req_rate_error_leaks [OF refl refl])
    (simp_all add: zone_of_def unpinned_def ngx_http_limit_req_rate_value_def ngx_http_limit_req_lookup_def
      ngx_http_limit_req_expire.simps lr_insert_def)





end
