(* ===== verification/Ngx_Shmtx.thy ===== *)
theory Ngx_Shmtx
  imports Ngx_Prelude
begin

text \<open>
  The mutex in shared memory, \<open>src/core/ngx_shmtx.c\<close>, as built with atomic operations and POSIX
  semaphores: a word that holds the pid of the owner, a counter of waiting processes and a semaphore.
  Any number of worker processes run \<open>ngx_shmtx_lock\<close>, \<open>ngx_shmtx_trylock\<close> and \<open>ngx_shmtx_unlock\<close>, one
  access to shared memory at a time and interleaved in any order; a worker may die in its critical
  section, and another process then calls \<open>ngx_shmtx_force_unlock\<close>. Semaphores behave as POSIX says:
  \<open>sem_post\<close> increments, \<open>sem_wait\<close> waits for a positive value and decrements, or is interrupted.
\<close>

section \<open>States\<close>

text \<open>Where a process is: the shared access it makes next. \<open>Spin k\<close> and \<open>Cas k\<close> are the test and the
  compare-and-set of the first loop, with \<open>k\<close> tries left.\<close>

datatype mtx_pc =
    Idle
  | Trylock | TrylockCas
  | Spin nat | Cas nat
  | AddWait | Recheck | RecheckCas | SubWait
  | Sleep
  | Hold
  | Wake | WakeCas u64 | Post
  | Dead

record mtx_conf =
  mc_ncpu :: nat
  mc_semaphore :: bool

record mtx_state =
  mx_lock :: u64
  mx_wait :: u64
  mx_sem :: nat
  mx_pc :: "u64 \<Rightarrow> mtx_pc"

definition mtx_goto :: "u64 \<Rightarrow> mtx_pc \<Rightarrow> mtx_state \<Rightarrow> mtx_state" where
  "mtx_goto p x s = s\<lparr>mx_pc := (mx_pc s)(p := x)\<rparr>"

section \<open>Operations\<close>

text \<open>The tries of \<open>for (n = 1; n < mtx->spin; n <<= 1)\<close>; \<open>ngx_shmtx_create\<close> sets \<open>spin\<close> to 2048.\<close>

function spin_tries :: "nat \<Rightarrow> nat \<Rightarrow> nat" where
  "spin_tries spin n = (if n = 0 \<or> spin \<le> n then 0 else Suc (spin_tries spin (2 * n)))"
  by pat_completeness auto
termination
  by (relation "measure (\<lambda>(spin, n). spin - n)") auto

declare spin_tries.simps [simp del]

definition mtx_tries :: "mtx_conf \<Rightarrow> nat" where
  "mtx_tries conf = (if mc_ncpu conf > 1 then spin_tries 2048 1 else 0)"

definition mtx_missed :: "mtx_conf \<Rightarrow> nat \<Rightarrow> mtx_pc" where
  "mtx_missed conf k =
     (if 0 < k then Spin (k - 1) else if mc_semaphore conf then AddWait else Spin (mtx_tries conf))"

text \<open>The next access of a process inside a call. A process that is outside, in its critical section, dead
  or asleep on an empty semaphore has none.\<close>

definition mtx_next :: "mtx_conf \<Rightarrow> u64 \<Rightarrow> mtx_state \<Rightarrow> mtx_state option" where
  "mtx_next conf p s =
     (case mx_pc s p of
        Trylock \<Rightarrow> Some (mtx_goto p (if mx_lock s = 0 then TrylockCas else Idle) s)
      | TrylockCas \<Rightarrow> Some (if mx_lock s = 0 then mtx_goto p Hold (s\<lparr>mx_lock := p\<rparr>) else mtx_goto p Idle s)
      | Spin k \<Rightarrow> Some (mtx_goto p (if mx_lock s = 0 then Cas k else mtx_missed conf k) s)
      | Cas k \<Rightarrow> Some (if mx_lock s = 0 then mtx_goto p Hold (s\<lparr>mx_lock := p\<rparr>) else mtx_goto p (mtx_missed conf k) s)
      | AddWait \<Rightarrow> Some (mtx_goto p Recheck (s\<lparr>mx_wait := mx_wait s + 1\<rparr>))
      | Recheck \<Rightarrow> Some (mtx_goto p (if mx_lock s = 0 then RecheckCas else Sleep) s)
      | RecheckCas \<Rightarrow> Some (if mx_lock s = 0 then mtx_goto p SubWait (s\<lparr>mx_lock := p\<rparr>) else mtx_goto p Sleep s)
      | SubWait \<Rightarrow> Some (mtx_goto p Hold (s\<lparr>mx_wait := mx_wait s - 1\<rparr>))
      | Sleep \<Rightarrow> if mx_sem s = 0 then None else Some (mtx_goto p (Spin (mtx_tries conf)) (s\<lparr>mx_sem := mx_sem s - 1\<rparr>))
      | Wake \<Rightarrow> Some (mtx_goto p (if sint (mx_wait s) \<le> 0 then Idle else WakeCas (mx_wait s)) s)
      | WakeCas w \<Rightarrow> Some (if mx_wait s = w then mtx_goto p Post (s\<lparr>mx_wait := w - 1\<rparr>) else mtx_goto p Wake s)
      | Post \<Rightarrow> Some (mtx_goto p Idle (s\<lparr>mx_sem := mx_sem s + 1\<rparr>))
      | _ \<Rightarrow> None)"

text \<open>Process \<open>p\<close> releases the mutex on behalf of \<open>q\<close>: \<open>ngx_shmtx_unlock\<close> when they are the same,
  \<open>ngx_shmtx_force_unlock\<close> otherwise. The wakeup follows if the lock was \<open>q\<close>'s.\<close>

definition mtx_release :: "mtx_conf \<Rightarrow> u64 \<Rightarrow> u64 \<Rightarrow> mtx_state \<Rightarrow> mtx_state" where
  "mtx_release conf p q s =
     (if mx_lock s = q then mtx_goto p (if mc_semaphore conf then Wake else Idle) (s\<lparr>mx_lock := 0\<rparr>)
      else mtx_goto p Idle s)"

inductive mtx_step :: "mtx_conf \<Rightarrow> u64 set \<Rightarrow> mtx_state \<Rightarrow> mtx_state \<Rightarrow> bool" for conf P where
  lock_call: "p \<in> P \<Longrightarrow> mx_pc s p = Idle \<Longrightarrow> mtx_step conf P s (mtx_goto p (Spin (mtx_tries conf)) s)"
| trylock_call: "p \<in> P \<Longrightarrow> mx_pc s p = Idle \<Longrightarrow> mtx_step conf P s (mtx_goto p Trylock s)"
| inside: "p \<in> P \<Longrightarrow> mtx_next conf p s = Some s' \<Longrightarrow> mtx_step conf P s s'"
| unlock: "p \<in> P \<Longrightarrow> mx_pc s p = Hold \<Longrightarrow> mtx_step conf P s (mtx_release conf p p s)"
| die: "p \<in> P \<Longrightarrow> mx_pc s p = Hold \<Longrightarrow> mtx_step conf P s (mtx_goto p Dead s)"
| force_unlock: "p \<in> P \<Longrightarrow> mx_pc s p = Idle \<Longrightarrow> q \<in> P \<Longrightarrow> mx_pc s q = Dead \<Longrightarrow>
    mtx_step conf P s (mtx_release conf p q s)"

definition mtx_init :: mtx_state where
  "mtx_init = \<lparr>mx_lock = 0, mx_wait = 0, mx_sem = 0, mx_pc = (\<lambda>_. Idle)\<rparr>"

definition mtx_procs :: "u64 set \<Rightarrow> bool" where
  "mtx_procs P \<longleftrightarrow> 0 \<notin> P \<and> card P < 2 ^ 62"

section \<open>The invariant\<close>

fun holding :: "mtx_pc \<Rightarrow> bool" where
  "holding Hold = True"
| "holding SubWait = True"
| "holding _ = False"

fun rechecking :: "mtx_pc \<Rightarrow> bool" where
  "rechecking Recheck = True"
| "rechecking RecheckCas = True"
| "rechecking SubWait = True"
| "rechecking _ = False"

text \<open>The processes inside a call that are neither asleep nor have the lock.\<close>

fun running :: "mtx_pc \<Rightarrow> bool" where
  "running Idle = False"
| "running Sleep = False"
| "running Hold = False"
| "running SubWait = False"
| "running Dead = False"
| "running _ = True"

fun uses_semaphore :: "mtx_pc \<Rightarrow> bool" where
  "uses_semaphore AddWait = True"
| "uses_semaphore Sleep = True"
| "uses_semaphore x = rechecking x"

text \<open>A process counted in \<open>wait\<close> or asleep weighs one, a wakeup that is on its way minus one.\<close>

fun weight :: "mtx_pc \<Rightarrow> int" where
  "weight Sleep = 1"
| "weight Post = - 1"
| "weight x = (if rechecking x then 1 else 0)"

definition rechecks :: "mtx_pc \<Rightarrow> int" where
  "rechecks x = (if rechecking x then 1 else 0)"

lemma weight_le: "weight x \<le> 1" "x \<noteq> Post \<Longrightarrow> 0 \<le> weight x"
  by (cases x; simp)+

definition balance :: "u64 set \<Rightarrow> mtx_state \<Rightarrow> int \<Rightarrow> bool" where
  "balance P s w \<longleftrightarrow> mx_wait s = of_int w
     \<and> (\<Sum>p\<in>P. weight (mx_pc s p)) = w + int (mx_sem s)
     \<and> (\<Sum>p\<in>P. rechecks (mx_pc s p)) \<le> w + int (card P)"

definition no_lost_wakeup :: "mtx_state \<Rightarrow> bool" where
  "no_lost_wakeup s \<longleftrightarrow>
     (mx_lock s = 0 \<longrightarrow> (\<exists>p. mx_pc s p = Sleep) \<longrightarrow> mx_sem s \<noteq> 0 \<or> (\<exists>q. running (mx_pc s q)))"

definition owner_ok :: "mtx_state \<Rightarrow> bool" where
  "owner_ok s \<longleftrightarrow> (\<forall>p. holding (mx_pc s p) \<longrightarrow> mx_lock s = p)
     \<and> (mx_lock s \<noteq> 0 \<longrightarrow> holding (mx_pc s (mx_lock s)) \<or> mx_pc s (mx_lock s) = Dead)"

definition calls_ok :: "mtx_conf \<Rightarrow> u64 set \<Rightarrow> mtx_state \<Rightarrow> bool" where
  "calls_ok conf P s \<longleftrightarrow> (\<forall>p. p \<notin> P \<longrightarrow> mx_pc s p = Idle)
     \<and> (\<forall>p. uses_semaphore (mx_pc s p) \<longrightarrow> mc_semaphore conf)
     \<and> (\<forall>p w. mx_pc s p = WakeCas w \<longrightarrow> 0 < sint w)"

definition mtx_inv :: "mtx_conf \<Rightarrow> u64 set \<Rightarrow> mtx_state \<Rightarrow> bool" where
  "mtx_inv conf P s \<longleftrightarrow> owner_ok s \<and> calls_ok conf P s \<and> (\<exists>w. balance P s w) \<and> no_lost_wakeup s"

lemma goto_sel [simp]:
  "mx_lock (mtx_goto p x s) = mx_lock s" "mx_wait (mtx_goto p x s) = mx_wait s"
  "mx_sem (mtx_goto p x s) = mx_sem s" "mx_pc (mtx_goto p x s) = (mx_pc s)(p := x)"
  by (simp_all add: mtx_goto_def)

lemma balance_step:
  assumes "balance P s w" "p \<in> P" "mx_pc s' = (mx_pc s)(p := x)" "mx_wait s' = mx_wait s + of_int d"
    and "int (mx_sem s') = int (mx_sem s) + e" "weight x - weight (mx_pc s p) = d + e"
    and "rechecks x - rechecks (mx_pc s p) \<le> d"
  shows "balance P s' (w + d)"
  using assms(1,4-7) unfolding balance_def assms(3) sum_upd [OF assms(2)] by simp

lemma balance_bounds:
  assumes "balance P s w"
  shows "- int (card P) \<le> w" "w \<le> int (card P)"
proof -
  have "0 \<le> (\<Sum>p\<in>P. rechecks (mx_pc s p))" by (rule sum_nonneg) (simp add: rechecks_def)
  then show "- int (card P) \<le> w" using assms by (simp add: balance_def)
  have "(\<Sum>p\<in>P. weight (mx_pc s p)) \<le> (\<Sum>p\<in>P. 1)" by (rule sum_mono) (rule weight_le)
  then show "w \<le> int (card P)" using assms by (simp add: balance_def)
qed

lemma balance_wait:
  assumes "balance P s w" "mtx_procs P"
  shows "sint (mx_wait s) = w"
  using assms balance_bounds [OF assms(1)] sint_small [of w] by (simp add: balance_def mtx_procs_def)

lemma balance_sleep:
  assumes "balance P s w" "p \<in> P" "mx_pc s p = Sleep" "\<And>q. mx_pc s q \<noteq> Post"
  shows "1 \<le> w + int (mx_sem s)"
proof -
  have "weight (mx_pc s p) \<le> (\<Sum>p\<in>P. weight (mx_pc s p))"
    using assms(2,4) by (intro member_le_sum weight_le) simp_all
  then show ?thesis using assms(1,3) by (simp add: balance_def)
qed

lemma balance_wake:
  assumes "balance P s w" "mtx_procs P" "p \<in> P" "mx_pc s p = WakeCas (mx_wait s)" "0 < sint (mx_wait s)"
  shows "balance P (mtx_goto p Post (s\<lparr>mx_wait := mx_wait s - 1\<rparr>)) (w - 1)"
proof -
  have "0 < w" using assms(5) balance_wait [OF assms(1,2)] by simp
  moreover have "(\<Sum>q\<in>P. rechecks (((mx_pc s)(p := Post)) q)) \<le> (\<Sum>q\<in>P. 1)"
    by (rule sum_mono) (simp add: rechecks_def)
  moreover have "(\<Sum>q\<in>P. weight (((mx_pc s)(p := Post)) q)) = (\<Sum>q\<in>P. weight (mx_pc s q)) - 1"
    unfolding sum_upd [OF assms(3)] using assms(4) by simp
  ultimately show ?thesis using assms(1) by (simp add: balance_def)
qed

lemma inv_init: "mtx_inv conf P mtx_init"
proof -
  have "balance P mtx_init 0" by (simp add: balance_def mtx_init_def rechecks_def)
  then show ?thesis
    by (auto simp: mtx_inv_def owner_ok_def calls_ok_def no_lost_wakeup_def mtx_init_def)
qed

lemma owner_lock: "owner_ok s \<Longrightarrow> holding (mx_pc s p) \<Longrightarrow> mx_lock s = p"
  by (simp add: owner_ok_def)

lemma owner_ok_cong [simp]:
  "owner_ok (mtx_goto p x (s\<lparr>mx_wait := w\<rparr>)) = owner_ok (mtx_goto p x s)"
  "owner_ok (mtx_goto p x (s\<lparr>mx_sem := n\<rparr>)) = owner_ok (mtx_goto p x s)"
  by (simp_all add: owner_ok_def)

lemma owner_goto:
  "owner_ok s \<Longrightarrow> holding x = holding (mx_pc s p) \<Longrightarrow> mx_pc s p \<noteq> Dead \<Longrightarrow> owner_ok (mtx_goto p x s)"
  by (auto simp: owner_ok_def)

lemma owner_take:
  "owner_ok s \<Longrightarrow> mx_lock s = 0 \<Longrightarrow> mx_pc s 0 = Idle \<Longrightarrow> p \<noteq> 0 \<Longrightarrow> holding x \<Longrightarrow> owner_ok (mtx_goto p x (s\<lparr>mx_lock := p\<rparr>))"
  by (auto simp: owner_ok_def)

lemma missed_pc [simp]:
  "\<not> holding (mtx_missed conf k)" "mtx_missed conf k \<noteq> Sleep" "running (mtx_missed conf k)"
  "mtx_missed conf k \<noteq> WakeCas w" "\<not> rechecking (mtx_missed conf k)" "weight (mtx_missed conf k) = 0"
  "mtx_missed conf k \<noteq> Dead"
  by (auto simp: mtx_missed_def split: if_splits)

lemma missed_semaphore [dest]: "uses_semaphore (mtx_missed conf k) \<Longrightarrow> mc_semaphore conf"
  by (auto simp: mtx_missed_def split: if_splits)

lemma next_owner:
  assumes "owner_ok s" "calls_ok conf P s" "mtx_procs P" "p \<in> P" "mtx_next conf p s = Some s'"
  shows "owner_ok s'"
proof -
  have z: "p \<noteq> 0" "mx_pc s 0 = Idle" using assms(2-4) by (auto simp: mtx_procs_def calls_ok_def)
  note g = owner_goto [OF assms(1)] and t = owner_take [OF assms(1) _ z(2,1)]
  show ?thesis
    using assms(5) by (cases "mx_pc s p") (auto simp: mtx_next_def split: if_splits intro!: g t)
qed

lemma next_calls:
  assumes "calls_ok conf P s" "p \<in> P" "mtx_next conf p s = Some s'"
  shows "calls_ok conf P s'"
proof -
  have g: "calls_ok conf P (mtx_goto p x s'')"
    if "mx_pc s'' = mx_pc s" "uses_semaphore x \<Longrightarrow> mc_semaphore conf" "\<And>w. x = WakeCas w \<Longrightarrow> 0 < sint w" for x s''
    using that assms(1,2) by (auto simp: calls_ok_def)
  have u: "uses_semaphore (mx_pc s p) \<Longrightarrow> mc_semaphore conf" using assms(1) by (auto simp: calls_ok_def)
  show ?thesis
    using assms(3) u by (cases "mx_pc s p") (auto simp: mtx_next_def split: if_splits intro!: g)
qed

lemma next_balance:
  assumes "balance P s w" "calls_ok conf P s" "mtx_procs P" "p \<in> P" "mtx_next conf p s = Some s'"
  shows "\<exists>w'. balance P s' w'"
proof -
  note b = balance_step [OF assms(1,4)]
  have k: "\<exists>w'. balance P (mtx_goto p x s'') w'"
    if "mx_pc s'' = mx_pc s" "mx_wait s'' = mx_wait s" "mx_sem s'' = mx_sem s"
      "weight x = weight (mx_pc s p)" "rechecking x \<longrightarrow> rechecking (mx_pc s p)" for x s''
    using b [of "mtx_goto p x s''" x 0 0] that
    by (cases "rechecking x"; cases "rechecking (mx_pc s p)") (auto simp: rechecks_def)
  have w: "mx_pc s p = WakeCas v \<Longrightarrow> 0 < sint v" for v using assms(2) by (auto simp: calls_ok_def)
  show ?thesis
  proof (cases "mx_pc s p")
    case AddWait
    then show ?thesis using b [of s' Recheck 1 0] assms(5) by (auto simp: mtx_next_def rechecks_def)
  next
    case SubWait
    then show ?thesis using b [of s' Hold "-1" 0] assms(5) by (auto simp: mtx_next_def rechecks_def)
  next
    case Sleep
    then show ?thesis
      using b [of s' "Spin (mtx_tries conf)" 0 "-1"] assms(5) by (auto simp: mtx_next_def rechecks_def split: if_splits)
  next
    case Post
    then show ?thesis using b [of s' Idle 0 1] assms(5) by (auto simp: mtx_next_def rechecks_def)
  next
    case (WakeCas v)
    then show ?thesis
      using balance_wake [OF assms(1,3,4)] w [OF WakeCas] assms(5) k [of s Wake]
      by (auto simp: mtx_next_def split: if_splits)
  qed (use assms(5) in \<open>auto simp: mtx_next_def split: if_splits intro!: k\<close>)
qed

lemma next_wakeup:
  assumes "no_lost_wakeup s" "balance P s w" "calls_ok conf P s" "owner_ok s" "mtx_procs P" "p \<in> P"
    and "mtx_next conf p s = Some s'"
  shows "no_lost_wakeup s'"
proof -
  have r: "no_lost_wakeup (mtx_goto p x s'')" if "running x" for x s''
    using that by (auto simp: no_lost_wakeup_def)
  have l: "no_lost_wakeup (mtx_goto p x s'')" if "mx_lock s'' \<noteq> 0" for x s''
    using that by (auto simp: no_lost_wakeup_def)
  have z: "p \<noteq> 0" using assms(5,6) by (auto simp: mtx_procs_def)
  have idle: "no_lost_wakeup (mtx_goto p Idle s)" if "sint (mx_wait s) \<le> 0" "mx_pc s p = Wake"
  proof (cases "\<exists>q. mx_pc s q = Post")
    case True
    then obtain q where "mx_pc s q = Post" by blast
    then have "running (mx_pc (mtx_goto p Idle s) q)" using that(2) by auto
    then show ?thesis unfolding no_lost_wakeup_def by blast
  next
    case False
    have "mx_sem s \<noteq> 0" if "mx_pc s q = Sleep" for q
    proof -
      have "q \<in> P" using that assms(3) by (auto simp: calls_ok_def)
      from balance_sleep [OF assms(2) this that] False balance_wait [OF assms(2,5)] \<open>sint (mx_wait s) \<le> 0\<close>
      show ?thesis by auto
    qed
    then show ?thesis by (auto simp: no_lost_wakeup_def split: if_splits)
  qed
  show ?thesis
  proof (cases "mx_pc s p")
    case SubWait
    then have "mx_lock s \<noteq> 0" using owner_lock [OF assms(4), of p] z by simp
    then show ?thesis using SubWait assms(7) by (auto simp: mtx_next_def intro!: l)
  next
    case Post
    then show ?thesis using assms(7) by (auto simp: mtx_next_def no_lost_wakeup_def)
  next
    case Wake
    then show ?thesis using assms(7) idle by (auto simp: mtx_next_def split: if_splits intro: r)
  qed (use assms(7) z in \<open>auto simp: mtx_next_def split: if_splits intro: r l\<close>)
qed

lemma in_procs: "mtx_inv conf P s \<Longrightarrow> mx_pc s p \<noteq> Idle \<Longrightarrow> p \<in> P"
  by (auto simp: mtx_inv_def calls_ok_def)

lemma inv_next: "mtx_inv conf P s \<Longrightarrow> mtx_procs P \<Longrightarrow> p \<in> P \<Longrightarrow> mtx_next conf p s = Some s' \<Longrightarrow> mtx_inv conf P s'"
  unfolding mtx_inv_def using next_owner next_calls next_balance next_wakeup by metis

text \<open>A process that moves between states of weight zero, without the lock before and after.\<close>

lemma inv_goto:
  assumes "mtx_inv conf P s" "p \<in> P" "weight x = 0" "\<not> rechecking x" "\<not> uses_semaphore x" "\<And>w. x \<noteq> WakeCas w"
    and "weight (mx_pc s p) = 0" "\<not> rechecking (mx_pc s p)" "owner_ok (mtx_goto p x (s\<lparr>mx_lock := l\<rparr>))"
    and "no_lost_wakeup (mtx_goto p x (s\<lparr>mx_lock := l\<rparr>))"
  shows "mtx_inv conf P (mtx_goto p x (s\<lparr>mx_lock := l\<rparr>))"
proof -
  obtain w where "balance P s w" using assms(1) by (auto simp: mtx_inv_def)
  from balance_step [OF this assms(2), of "mtx_goto p x (s\<lparr>mx_lock := l\<rparr>)" x 0 0]
  have "balance P (mtx_goto p x (s\<lparr>mx_lock := l\<rparr>)) w" using assms(3,4,7,8) by (simp add: rechecks_def)
  moreover have "calls_ok conf P (mtx_goto p x (s\<lparr>mx_lock := l\<rparr>))"
    using assms(1,2,5,6) by (auto simp: mtx_inv_def calls_ok_def)
  ultimately show ?thesis using assms(9,10) by (auto simp: mtx_inv_def)
qed

lemma inv_release:
  assumes "mtx_inv conf P s" "mtx_procs P" "p \<in> P" "mx_pc s p = Hold \<and> p = q \<or> mx_pc s p = Idle \<and> mx_pc s q = Dead"
  shows "mtx_inv conf P (mtx_release conf p q s)"
proof -
  have o: "owner_ok s" and w: "no_lost_wakeup s" using assms(1) by (auto simp: mtx_inv_def)
  have p: "weight (mx_pc s p) = 0" "\<not> rechecking (mx_pc s p)" using assms(4) by auto
  show ?thesis
  proof (cases "mx_lock s = q")
    case True
    let ?x = "if mc_semaphore conf then Wake else Idle"
    have "owner_ok (mtx_goto p ?x (s\<lparr>mx_lock := 0\<rparr>))" using o assms(4) True by (auto simp: owner_ok_def)
    moreover have "no_lost_wakeup (mtx_goto p ?x (s\<lparr>mx_lock := 0\<rparr>))"
    proof (cases "mc_semaphore conf")
      case True
      then show ?thesis by (auto simp: no_lost_wakeup_def)
    next
      case False
      then have "\<not> uses_semaphore (mx_pc s r)" for r using assms(1) by (auto simp: mtx_inv_def calls_ok_def)
      then have "mx_pc s r \<noteq> Sleep" for r by (metis uses_semaphore.simps(2))
      with False show ?thesis by (simp add: no_lost_wakeup_def)
    qed
    ultimately show ?thesis
      using inv_goto [OF assms(1,3) _ _ _ _ p, of ?x 0] True by (simp add: mtx_release_def)
  next
    case False
    then have pc: "mx_pc s p = Idle" using assms(4) owner_lock [OF o, of p] by auto
    have "mtx_goto p Idle s = s" unfolding mtx_goto_def using pc fun_upd_triv [of "mx_pc s" p] by simp
    then show ?thesis using assms(1) False by (simp add: mtx_release_def)
  qed
qed

lemma inv_call:
  assumes "mtx_inv conf P s" "p \<in> P" "mx_pc s p = Idle" "running x" "\<not> uses_semaphore x" "weight x = 0" "\<And>w. x \<noteq> WakeCas w"
  shows "mtx_inv conf P (mtx_goto p x s)"
proof -
  have "\<not> holding x" "\<not> rechecking x" using assms(4,5) by (cases x; simp)+
  moreover from this have "owner_ok (mtx_goto p x s)" using assms(1,3) by (intro owner_goto) (auto simp: mtx_inv_def)
  moreover have "no_lost_wakeup (mtx_goto p x s)" using assms(4) by (auto simp: no_lost_wakeup_def)
  ultimately show ?thesis using inv_goto [OF assms(1,2), of x "mx_lock s"] assms(3,5-7) by simp
qed

lemma inv_step: "mtx_step conf P s s' \<Longrightarrow> mtx_inv conf P s \<Longrightarrow> mtx_procs P \<Longrightarrow> mtx_inv conf P s'"
proof (induction rule: mtx_step.induct)
  case (lock_call p s)
  then show ?case by (intro inv_call) simp_all
next
  case (trylock_call p s)
  then show ?case by (intro inv_call) simp_all
next
  case (die p s)
  then have o: "owner_ok s" "mx_lock s = p" "p \<noteq> 0"
    using owner_lock [of s p] by (auto simp: mtx_inv_def mtx_procs_def)
  then have "owner_ok (mtx_goto p Dead s)" "no_lost_wakeup (mtx_goto p Dead s)"
    using die(2) by (auto simp: owner_ok_def no_lost_wakeup_def)
  with die show ?case using inv_goto [of conf P s p Dead "mx_lock s"] by simp
qed (auto intro: inv_next inv_release)

lemma inv_reachable: "(mtx_step conf P)\<^sup>*\<^sup>* mtx_init s \<Longrightarrow> mtx_procs P \<Longrightarrow> mtx_inv conf P s"
  by (induction rule: rtranclp_induct) (auto intro: inv_init inv_step)

text \<open>
  C11: The shared mutex excludes. Whatever the interleaving of any number of workers that lock, try to lock
  and unlock, with workers that die in their critical section and are unlocked by force, at most one
  process is in its critical section, the lock holds its pid, so that its unlock succeeds, and \<open>wait\<close>
  never leaves the range of the number of processes.
\<close>

theorem shmtx_exclusion:
  assumes "mtx_procs P" "(mtx_step conf P)\<^sup>*\<^sup>* mtx_init s" "mx_pc s p = Hold"
  shows "mx_lock s = p \<and> (mx_pc s q = Hold \<longrightarrow> q = p) \<and> \<bar>sint (mx_wait s)\<bar> \<le> int (card P)"
proof -
  have i: "mtx_inv conf P s" using inv_reachable [OF assms(2,1)] .
  then have "mx_lock s = p" using assms(3) owner_lock [of s p] by (simp add: mtx_inv_def)
  moreover have "mx_pc s q = Hold \<Longrightarrow> mx_lock s = q" using i owner_lock [of s q] by (simp add: mtx_inv_def)
  moreover obtain w where "balance P s w" using i by (auto simp: mtx_inv_def)
  ultimately show ?thesis using balance_bounds [of P s w] balance_wait [of P s w] assms(1) by auto
qed

lemma sample_run:
  "(mtx_step \<lparr>mc_ncpu = 1, mc_semaphore = True\<rparr> {1, 2})\<^sup>*\<^sup>* mtx_init
     \<lparr>mx_lock = 1, mx_wait = 1, mx_sem = 0, mx_pc = (\<lambda>_. Idle)(1 := Hold, 2 := Sleep)\<rparr>"
proof -
  let ?c = "\<lparr>mc_ncpu = 1, mc_semaphore = True\<rparr>"
  let ?S = "\<lambda>l w x y. \<lparr>mx_lock = l, mx_wait = w, mx_sem = 0, mx_pc = (\<lambda>_. Idle)(1 := x, 2 := y)\<rparr>"
  have call: "mtx_step ?c {1, 2} (?S l w Idle y) (?S l w (Spin 0) y)" "mtx_step ?c {1, 2} (?S l w x Idle) (?S l w x (Spin 0))" for l w x y
    using mtx_step.lock_call [of 1 "{1, 2}" "?S l w Idle y" ?c] mtx_step.lock_call [of 2 "{1, 2}" "?S l w x Idle" ?c]
    by (simp_all add: mtx_goto_def mtx_tries_def fun_upd_twist)
  have inside: "mtx_step ?c {1, 2} (?S l w x y) s'" if "mtx_next ?c 1 (?S l w x y) = Some s' \<or> mtx_next ?c 2 (?S l w x y) = Some s'" for l w x y s'
    using that by (auto intro: mtx_step.inside)
  have "mtx_init = ?S 0 0 Idle Idle" by (auto simp: mtx_init_def)
  also have "(mtx_step ?c {1, 2})\<^sup>*\<^sup>* \<dots> (?S 0 0 (Spin 0) Idle)" by (rule r_into_rtranclp) (rule call)
  also have "(mtx_step ?c {1, 2})\<^sup>*\<^sup>* \<dots> (?S 0 0 (Cas 0) Idle)"
    by (rule r_into_rtranclp, rule inside) (simp add: mtx_next_def mtx_goto_def fun_upd_twist)
  also have "(mtx_step ?c {1, 2})\<^sup>*\<^sup>* \<dots> (?S 1 0 Hold Idle)"
    by (rule r_into_rtranclp, rule inside) (simp add: mtx_next_def mtx_goto_def fun_upd_twist)
  also have "(mtx_step ?c {1, 2})\<^sup>*\<^sup>* \<dots> (?S 1 0 Hold (Spin 0))" by (rule r_into_rtranclp) (rule call)
  also have "(mtx_step ?c {1, 2})\<^sup>*\<^sup>* \<dots> (?S 1 0 Hold AddWait)"
    by (rule r_into_rtranclp, rule inside) (simp add: mtx_next_def mtx_goto_def mtx_missed_def fun_upd_twist)
  also have "(mtx_step ?c {1, 2})\<^sup>*\<^sup>* \<dots> (?S 1 1 Hold Recheck)"
    by (rule r_into_rtranclp, rule inside) (simp add: mtx_next_def mtx_goto_def fun_upd_twist)
  also have "(mtx_step ?c {1, 2})\<^sup>*\<^sup>* \<dots> (?S 1 1 Hold Sleep)"
    by (rule r_into_rtranclp, rule inside) (simp add: mtx_next_def mtx_goto_def fun_upd_twist)
  finally show ?thesis .
qed

theorem shmtx_exclusion_witness:
  "mx_lock \<lparr>mx_lock = 1, mx_wait = 1, mx_sem = 0, mx_pc = (\<lambda>_. Idle)(1 := Hold, 2 := Sleep)\<rparr> = 1
   \<and> \<bar>sint (mx_wait \<lparr>mx_lock = 1, mx_wait = 1, mx_sem = 0, mx_pc = (\<lambda>_. Idle)(1 := Hold, 2 := Sleep)\<rparr>)\<bar> \<le> int (card {1, 2 :: u64})"
proof -
  have "mtx_procs {1, 2}" by (simp add: mtx_procs_def)
  from shmtx_exclusion [OF this sample_run, of 1 2] show ?thesis by simp
qed

section \<open>Progress\<close>

text \<open>Steps of processes that finish what they began: no new calls, no deaths.\<close>

definition mtx_finish :: "mtx_conf \<Rightarrow> u64 set \<Rightarrow> mtx_state \<Rightarrow> mtx_state \<Rightarrow> bool" where
  "mtx_finish conf P s s' \<longleftrightarrow>
     (\<exists>p \<in> P. mtx_next conf p s = Some s' \<or> mx_pc s p = Hold \<and> s' = mtx_release conf p p s)"

definition alive :: "mtx_state \<Rightarrow> bool" where
  "alive s \<longleftrightarrow> (\<forall>p. mx_pc s p \<noteq> Dead)"

lemma finish_inv:
  assumes "mtx_finish conf P s s'" "mtx_inv conf P s" "alive s" "mtx_procs P"
  shows "mtx_inv conf P s' \<and> alive s'"
proof -
  obtain p where p: "p \<in> P" "mtx_next conf p s = Some s' \<or> mx_pc s p = Hold \<and> s' = mtx_release conf p p s"
    using assms(1) by (auto simp: mtx_finish_def)
  have g: "alive (mtx_goto p x s'')" if "x \<noteq> Dead" "mx_pc s'' = mx_pc s" for x s''
    using assms(3) that by (simp add: alive_def)
  from p(2) have "alive s'"
  proof
    assume "mtx_next conf p s = Some s'"
    then show ?thesis by (cases "mx_pc s p") (auto simp: mtx_next_def split: if_splits intro!: g)
  next
    assume "mx_pc s p = Hold \<and> s' = mtx_release conf p p s"
    then show ?thesis by (simp add: mtx_release_def g)
  qed
  then show ?thesis using p assms(2,4) inv_next inv_release by blast
qed

lemma finishes_inv:
  "(mtx_finish conf P)\<^sup>*\<^sup>* s s' \<Longrightarrow> mtx_inv conf P s \<Longrightarrow> alive s \<Longrightarrow> mtx_procs P \<Longrightarrow> mtx_inv conf P s' \<and> alive s'"
  by (induction rule: rtranclp_induct) (auto dest: finish_inv)

lemma finish_next: "p \<in> P \<Longrightarrow> mtx_next conf p s = Some s' \<Longrightarrow> mtx_finish conf P s s'"
  by (auto simp: mtx_finish_def)

abbreviation (input) finishes :: "mtx_conf \<Rightarrow> u64 set \<Rightarrow> mtx_state \<Rightarrow> mtx_state \<Rightarrow> bool" where
  "finishes conf P \<equiv> (mtx_finish conf P)\<^sup>*\<^sup>*"

lemma finishes_next: "p \<in> P \<Longrightarrow> mtx_next conf p s = Some s' \<Longrightarrow> finishes conf P s' s'' \<Longrightarrow> finishes conf P s s''"
  by (meson converse_rtranclp_into_rtranclp finish_next)

text \<open>The owner leaves its critical section, everyone else stays where it is.\<close>

lemma finish_owner:
  assumes "mtx_inv conf P s" "p \<in> P" "holding (mx_pc s p)"
  shows "\<exists>s'. finishes conf P s s' \<and> mx_lock s' = 0 \<and> mx_sem s' = mx_sem s
    \<and> mx_pc s' = (mx_pc s)(p := (if mc_semaphore conf then Wake else Idle))"
proof -
  have l: "mx_lock s = p" using assms(1,3) owner_lock [of s p] by (simp add: mtx_inv_def)
  have hold: "\<exists>s'. finishes conf P s1 s' \<and> mx_lock s' = 0 \<and> mx_sem s' = mx_sem s1
      \<and> mx_pc s' = (mx_pc s1)(p := (if mc_semaphore conf then Wake else Idle))"
    if "mx_pc s1 p = Hold" "mx_lock s1 = p" for s1
  proof -
    have "mtx_finish conf P s1 (mtx_release conf p p s1)" using assms(2) that(1) by (auto simp: mtx_finish_def)
    then show ?thesis using that(2) by (intro exI [of _ "mtx_release conf p p s1"]) (auto simp: mtx_release_def)
  qed
  show ?thesis
  proof (cases "mx_pc s p")
    case SubWait
    then have n: "mtx_next conf p s = Some (mtx_goto p Hold (s\<lparr>mx_wait := mx_wait s - 1\<rparr>))" by (simp add: mtx_next_def)
    obtain s' where "finishes conf P (mtx_goto p Hold (s\<lparr>mx_wait := mx_wait s - 1\<rparr>)) s'" "mx_lock s' = 0"
        "mx_sem s' = mx_sem s" "mx_pc s' = (mx_pc s)(p := (if mc_semaphore conf then Wake else Idle))"
      using hold [of "mtx_goto p Hold (s\<lparr>mx_wait := mx_wait s - 1\<rparr>)"] l by auto
    with finishes_next [OF assms(2) n] show ?thesis by blast
  next
    case Hold
    then show ?thesis using hold [of s] l by blast
  qed (use assms(3) in simp_all)
qed

text \<open>A free lock is taken by a process that is about to take it.\<close>

fun acquiring :: "mtx_pc \<Rightarrow> bool" where
  "acquiring Trylock = True"
| "acquiring TrylockCas = True"
| "acquiring (Spin k) = True"
| "acquiring (Cas k) = True"
| "acquiring AddWait = True"
| "acquiring Recheck = True"
| "acquiring RecheckCas = True"
| "acquiring _ = False"

lemma finish_acquire:
  assumes "p \<in> P" "acquiring (mx_pc s p)" "mx_lock s = 0"
  shows "\<exists>s'. finishes conf P s s' \<and> mx_pc s' = (mx_pc s)(p := Hold)"
proof -
  have step: "\<exists>s'. finishes conf P s1 s' \<and> mx_pc s' = (mx_pc s1)(p := Hold)"
    if "mtx_next conf p s1 = Some s2" "mx_pc s2 = (mx_pc s1)(p := x)" "\<exists>s'. finishes conf P s2 s' \<and> mx_pc s' = (mx_pc s2)(p := Hold)"
    for s1 s2 x
    using that finishes_next [OF assms(1) that(1)] by force
  have hold: "\<exists>s'. finishes conf P s1 s' \<and> mx_pc s' = (mx_pc s1)(p := Hold)" if "mx_pc s1 p = Hold" for s1
    using that by (intro exI [of _ s1]) auto
  have cas: "\<exists>s'. finishes conf P s1 s' \<and> mx_pc s' = (mx_pc s1)(p := Hold)"
    if "mx_pc s1 p = Cas k \<or> mx_pc s1 p = TrylockCas" "mx_lock s1 = 0" for s1 k
    using that by (intro step [of s1 "mtx_goto p Hold (s1\<lparr>mx_lock := p\<rparr>)" Hold] hold) (auto simp: mtx_next_def)
  have sub: "\<exists>s'. finishes conf P s1 s' \<and> mx_pc s' = (mx_pc s1)(p := Hold)" if "mx_pc s1 p = SubWait" for s1
    using that by (intro step [of s1 "mtx_goto p Hold (s1\<lparr>mx_wait := mx_wait s1 - 1\<rparr>)" Hold] hold) (auto simp: mtx_next_def)
  have recas: "\<exists>s'. finishes conf P s1 s' \<and> mx_pc s' = (mx_pc s1)(p := Hold)"
    if "mx_pc s1 p = RecheckCas" "mx_lock s1 = 0" for s1
    using that by (intro step [of s1 "mtx_goto p SubWait (s1\<lparr>mx_lock := p\<rparr>)" SubWait] sub) (auto simp: mtx_next_def)
  have re: "\<exists>s'. finishes conf P s1 s' \<and> mx_pc s' = (mx_pc s1)(p := Hold)"
    if "mx_pc s1 p = Recheck" "mx_lock s1 = 0" for s1
    using that by (intro step [of s1 "mtx_goto p RecheckCas s1" RecheckCas] recas) (auto simp: mtx_next_def)
  show ?thesis
  proof (cases "mx_pc s p")
    case Trylock
    then show ?thesis
      using assms(3) by (intro step [of s "mtx_goto p TrylockCas s" TrylockCas] cas) (auto simp: mtx_next_def)
  next
    case (Spin k)
    then show ?thesis using assms(3) by (intro step [of s "mtx_goto p (Cas k) s" "Cas k"] cas [of _ k]) (auto simp: mtx_next_def)
  next
    case AddWait
    then show ?thesis
      using assms(3) by (intro step [of s "mtx_goto p Recheck (s\<lparr>mx_wait := mx_wait s + 1\<rparr>)" Recheck] re) (auto simp: mtx_next_def)
  next
    case TrylockCas
    then show ?thesis using cas assms(3) by blast
  next
    case (Cas k)
    then show ?thesis using cas assms(3) by blast
  next
    case Recheck
    then show ?thesis using re assms(3) by blast
  next
    case RecheckCas
    then show ?thesis using recas assms(3) by blast
  qed (use assms(2) in simp_all)
qed

text \<open>A process that is on its way to post, when someone sleeps, makes the semaphore positive.\<close>

fun waking :: "mtx_pc \<Rightarrow> bool" where
  "waking Wake = True"
| "waking (WakeCas w) = True"
| "waking Post = True"
| "waking _ = False"

lemma running_cases: "running x \<Longrightarrow> acquiring x \<or> waking x"
  by (cases x) simp_all

lemma finish_post:
  assumes "q \<in> P" "mx_pc s q = Post" "mx_pc s p = Sleep"
  shows "\<exists>s'. finishes conf P s s' \<and> mx_sem s' \<noteq> 0 \<and> mx_pc s' p = Sleep"
proof -
  have "mtx_next conf q s = Some (mtx_goto q Idle (s\<lparr>mx_sem := mx_sem s + 1\<rparr>))" using assms(2) by (simp add: mtx_next_def)
  from finishes_next [OF assms(1) this rtranclp.rtrancl_refl] assms(2,3) show ?thesis
    by (intro exI [of _ "mtx_goto q Idle (s\<lparr>mx_sem := mx_sem s + 1\<rparr>)"]) auto
qed

lemma finish_wakecas:
  assumes "q \<in> P" "mx_pc s q = WakeCas (mx_wait s)" "mx_pc s p = Sleep"
  shows "\<exists>s'. finishes conf P s s' \<and> mx_sem s' \<noteq> 0 \<and> mx_pc s' p = Sleep"
proof -
  let ?s = "mtx_goto q Post (s\<lparr>mx_wait := mx_wait s - 1\<rparr>)"
  have "mtx_next conf q s = Some ?s" using assms(2) by (simp add: mtx_next_def)
  note n = finishes_next [OF assms(1) this]
  have "\<exists>s'. finishes conf P ?s s' \<and> mx_sem s' \<noteq> 0 \<and> mx_pc s' p = Sleep"
    using assms by (intro finish_post [of q]) auto
  then show ?thesis using n by blast
qed

lemma finish_wake:
  assumes "mtx_inv conf P s" "mtx_procs P" "q \<in> P" "mx_pc s q = Wake" "mx_pc s p = Sleep"
  shows "\<exists>s'. finishes conf P s s' \<and> mx_sem s' \<noteq> 0 \<and> mx_pc s' p = Sleep"
proof -
  obtain w where w: "balance P s w" using assms(1) by (auto simp: mtx_inv_def)
  have p: "p \<in> P" using in_procs [OF assms(1)] assms(5) by simp
  consider (sem) "mx_sem s \<noteq> 0" | (post) r where "mx_pc s r = Post" | (wait) "\<And>r. mx_pc s r \<noteq> Post" "mx_sem s = 0" by blast
  then show ?thesis
  proof cases
    case sem
    then show ?thesis using assms(5) by blast
  next
    case (post r)
    then have "r \<in> P" using in_procs [OF assms(1)] by simp
    then show ?thesis using finish_post post assms(5) by blast
  next
    case wait
    then have "0 < sint (mx_wait s)" using balance_sleep [OF w p assms(5)] balance_wait [OF w assms(2)] by simp
    then have "mtx_next conf q s = Some (mtx_goto q (WakeCas (mx_wait s)) s)" using assms(4) by (simp add: mtx_next_def)
    note n = finishes_next [OF assms(3) this]
    have "\<exists>s'. finishes conf P (mtx_goto q (WakeCas (mx_wait s)) s) s' \<and> mx_sem s' \<noteq> 0 \<and> mx_pc s' p = Sleep"
      using assms by (intro finish_wakecas [of q]) auto
    then show ?thesis using n by blast
  qed
qed

lemma finish_waking:
  assumes "mtx_inv conf P s" "mtx_procs P" "q \<in> P" "waking (mx_pc s q)" "mx_pc s p = Sleep"
  shows "\<exists>s'. finishes conf P s s' \<and> mx_sem s' \<noteq> 0 \<and> mx_pc s' p = Sleep"
proof (cases "mx_pc s q")
  case (WakeCas w)
  show ?thesis
  proof (cases "w = mx_wait s")
    case True
    then show ?thesis using finish_wakecas [OF assms(3) _ assms(5)] WakeCas by simp
  next
    case False
    then have n: "mtx_next conf q s = Some (mtx_goto q Wake s)" using WakeCas by (simp add: mtx_next_def)
    have "\<exists>s'. finishes conf P (mtx_goto q Wake s) s' \<and> mx_sem s' \<noteq> 0 \<and> mx_pc s' p = Sleep"
      using inv_next [OF assms(1-3) n] assms WakeCas by (intro finish_wake [of _ _ _ q]) auto
    then show ?thesis using finishes_next [OF assms(3) n] by blast
  qed
next
  case Wake
  then show ?thesis by (rule finish_wake [OF assms(1-3) _ assms(5)])
next
  case Post
  then show ?thesis by (rule finish_post [OF assms(3) _ assms(5)])
qed (use assms(4) in simp_all)

text \<open>A sleeping process is woken up.\<close>

lemma finish_free_sleep:
  assumes "mtx_inv conf P s" "alive s" "mtx_procs P" "mx_pc s p = Sleep" "mx_lock s = 0"
  shows "\<exists>s'. finishes conf P s s' \<and> mx_sem s' \<noteq> 0 \<and> mx_pc s' p = Sleep"
proof (cases "mx_sem s = 0")
  case True
  then obtain q where q: "running (mx_pc s q)" using assms(1,4,5) by (auto simp: mtx_inv_def no_lost_wakeup_def)
  have sem: "mc_semaphore conf" using assms(1,4) unfolding mtx_inv_def calls_ok_def by (metis uses_semaphore.simps(2))
  have "q \<in> P" using in_procs [OF assms(1)] q by (cases "mx_pc s q") simp_all
  show ?thesis
  proof (cases "acquiring (mx_pc s q)")
    case True
    then have "p \<noteq> q" using assms(4) by auto
    obtain s1 where s1: "finishes conf P s s1" "mx_pc s1 = (mx_pc s)(q := Hold)"
      using finish_acquire [OF \<open>q \<in> P\<close> True assms(5)] by blast
    then have i1: "mtx_inv conf P s1" "alive s1" using finishes_inv assms(1-3) by blast+
    obtain s2 where s2: "finishes conf P s1 s2" "mx_pc s2 = (mx_pc s1)(q := Wake)"
      using finish_owner [OF i1(1) \<open>q \<in> P\<close>] s1(2) sem by auto
    then have i2: "mtx_inv conf P s2" using finishes_inv i1 assms(3) by blast
    obtain s3 where "finishes conf P s2 s3" "mx_sem s3 \<noteq> 0" "mx_pc s3 p = Sleep"
      using finish_wake [OF i2 assms(3) \<open>q \<in> P\<close>, of p] s1(2) s2(2) assms(4) \<open>p \<noteq> q\<close> by auto
    then show ?thesis using s1(1) s2(1) by (meson rtranclp_trans)
  next
    case False
    then show ?thesis using running_cases [OF q] finish_waking [OF assms(1,3) \<open>q \<in> P\<close> _ assms(4)] by blast
  qed
qed (use assms(4) in blast)

lemma finish_free:
  assumes "mtx_inv conf P s" "alive s" "mtx_procs P" "\<not> holding (mx_pc s p)"
  shows "\<exists>s'. finishes conf P s s' \<and> mx_lock s' = 0 \<and> mx_pc s' p = mx_pc s p"
proof (cases "mx_lock s = 0")
  case False
  let ?o = "mx_lock s"
  have o: "holding (mx_pc s ?o)" using assms(1,2) False by (auto simp: mtx_inv_def owner_ok_def alive_def)
  then have "?o \<in> P" using in_procs [OF assms(1)] by (cases "mx_pc s ?o") simp_all
  from finish_owner [OF assms(1) this o] obtain s' where "finishes conf P s s'" "mx_lock s' = 0"
      "mx_pc s' = (mx_pc s)(?o := (if mc_semaphore conf then Wake else Idle))" by blast
  moreover have "p \<noteq> ?o" using o assms(4) by auto
  ultimately show ?thesis by auto
qed blast

lemma finish_sleep:
  assumes "mtx_inv conf P s" "alive s" "mtx_procs P" "mx_pc s p = Sleep"
  shows "\<exists>s'. finishes conf P s s' \<and> acquiring (mx_pc s' p)"
proof -
  have p: "p \<in> P" using in_procs [OF assms(1)] assms(4) by simp
  obtain s1 where s1: "finishes conf P s s1" "mx_lock s1 = 0" "mx_pc s1 p = Sleep"
    using finish_free [OF assms(1-3), of p] assms(4) by auto
  then have i1: "mtx_inv conf P s1" "alive s1" using finishes_inv assms(1-3) by blast+
  obtain s2 where s2: "finishes conf P s1 s2" "mx_sem s2 \<noteq> 0" "mx_pc s2 p = Sleep"
    using finish_free_sleep [OF i1 assms(3) s1(3,2)] by blast
  then have "mtx_next conf p s2 = Some (mtx_goto p (Spin (mtx_tries conf)) (s2\<lparr>mx_sem := mx_sem s2 - 1\<rparr>))"
    by (simp add: mtx_next_def)
  from finish_next [OF p this] have "finishes conf P s (mtx_goto p (Spin (mtx_tries conf)) (s2\<lparr>mx_sem := mx_sem s2 - 1\<rparr>))"
    using s1(1) s2(1) by (meson rtranclp.rtrancl_into_rtrancl rtranclp_trans)
  then show ?thesis by (intro exI conjI) auto
qed

lemma finish_call:
  assumes "mtx_inv conf P s" "alive s" "mtx_procs P" "acquiring (mx_pc s p)"
  shows "\<exists>s'. finishes conf P s s' \<and> mx_pc s' p = Hold"
proof -
  have p: "p \<in> P" "\<not> holding (mx_pc s p)"
    using in_procs [OF assms(1), of p] assms(4) by (cases "mx_pc s p"; simp)+
  obtain s1 where s1: "finishes conf P s s1" "mx_lock s1 = 0" "mx_pc s1 p = mx_pc s p"
    using finish_free [OF assms(1-3) p(2)] by blast
  with finish_acquire [OF p(1), of s1] assms(4) obtain s2 where "finishes conf P s1 s2" "mx_pc s2 = (mx_pc s1)(p := Hold)"
    by auto
  then show ?thesis using rtranclp_trans [OF s1(1)] by (intro exI [of _ s2]) auto
qed

text \<open>
  C10: No wakeup is lost. From every state that any interleaving can reach with no dead worker, a process
  that is anywhere inside \<open>ngx_shmtx_lock\<close>, also asleep on the semaphore, can still get the lock, and for
  that it is enough that the others finish what they began: no new call is needed to wake it up.
\<close>

theorem shmtx_progress:
  assumes "mtx_procs P" "(mtx_step conf P)\<^sup>*\<^sup>* mtx_init s" "alive s"
    and "acquiring (mx_pc s p) \<or> mx_pc s p = Sleep"
  shows "\<exists>s'. (mtx_finish conf P)\<^sup>*\<^sup>* s s' \<and> mx_pc s' p = Hold"
proof -
  have i: "mtx_inv conf P s" using inv_reachable [OF assms(2,1)] .
  obtain s1 where s1: "finishes conf P s s1" "acquiring (mx_pc s1 p)"
    using finish_sleep [OF i assms(3,1)] assms(4) by blast
  then have "mtx_inv conf P s1" "alive s1" using finishes_inv i assms(1,3) by blast+
  from finish_call [OF this assms(1) s1(2)] s1(1) show ?thesis by (meson rtranclp_trans)
qed

theorem shmtx_progress_witness:
  "\<exists>s'. (mtx_finish \<lparr>mc_ncpu = 1, mc_semaphore = True\<rparr> {1, 2})\<^sup>*\<^sup>*
     \<lparr>mx_lock = 1, mx_wait = 1, mx_sem = 0, mx_pc = (\<lambda>_. Idle)(1 := Hold, 2 := Sleep)\<rparr> s' \<and> mx_pc s' 2 = Hold"
proof -
  have "mtx_procs {1, 2}" by (simp add: mtx_procs_def)
  from shmtx_progress [OF this sample_run, of 2] show ?thesis by (simp add: alive_def)
qed

end
