(* ===== verification/Ngx_Rwlock.thy ===== *)
theory Ngx_Rwlock
  imports Ngx_Prelude
begin

text \<open>
  The reader-writer lock of the shared upstream zones, \<open>src/core/ngx_rwlock.c\<close>: a word that counts the
  readers, or is all ones while a writer has the lock. Any number of processes run the four operations,
  one access to the word at a time and interleaved in any order.
\<close>

section \<open>States\<close>

text \<open>Where a process is: the access it makes next. \<open>WRead\<close> and \<open>WCas\<close> are the test and the
  compare-and-set of \<open>ngx_rwlock_wlock\<close>, \<open>RRead\<close> and \<open>RCas\<close> those of \<open>ngx_rwlock_rlock\<close>, which remembers
  the readers it saw; the spinning and yielding between tries only repeats them. The flag of the steps of
  \<open>ngx_rwlock_unlock\<close> records which lock the process had; the code does not use it.\<close>

datatype rw_pc =
    RW_idle
  | WRead | WCas | WHold
  | RRead | RCas u64 | RHold
  | UTest bool | UCas bool | UAdd bool
  | DTest | DStore

record rw_state =
  rw_lock :: u64
  rw_pc :: "u64 \<Rightarrow> rw_pc"

abbreviation (input) NGX_RWLOCK_WLOCK :: u64 where "NGX_RWLOCK_WLOCK \<equiv> - 1"

definition rw_goto :: "u64 \<Rightarrow> rw_pc \<Rightarrow> rw_state \<Rightarrow> rw_state" where
  "rw_goto p x s = s\<lparr>rw_pc := (rw_pc s)(p := x)\<rparr>"

section \<open>Operations\<close>

definition rw_next :: "u64 \<Rightarrow> rw_state \<Rightarrow> rw_state option" where
  "rw_next p s =
     (case rw_pc s p of
        WRead \<Rightarrow> Some (rw_goto p (if rw_lock s = 0 then WCas else WRead) s)
      | WCas \<Rightarrow> Some (if rw_lock s = 0 then rw_goto p WHold (s\<lparr>rw_lock := NGX_RWLOCK_WLOCK\<rparr>) else rw_goto p WRead s)
      | RRead \<Rightarrow> Some (rw_goto p (if rw_lock s \<noteq> NGX_RWLOCK_WLOCK then RCas (rw_lock s) else RRead) s)
      | RCas readers \<Rightarrow>
          Some (if rw_lock s = readers then rw_goto p RHold (s\<lparr>rw_lock := readers + 1\<rparr>) else rw_goto p RRead s)
      | UTest w \<Rightarrow> Some (rw_goto p (if rw_lock s = NGX_RWLOCK_WLOCK then UCas w else UAdd w) s)
      | UCas w \<Rightarrow> Some (rw_goto p RW_idle (if rw_lock s = NGX_RWLOCK_WLOCK then s\<lparr>rw_lock := 0\<rparr> else s))
      | UAdd w \<Rightarrow> Some (rw_goto p RW_idle (s\<lparr>rw_lock := rw_lock s - 1\<rparr>))
      | DTest \<Rightarrow> Some (rw_goto p (if rw_lock s = NGX_RWLOCK_WLOCK then DStore else WHold) s)
      | DStore \<Rightarrow> Some (rw_goto p RHold (s\<lparr>rw_lock := 1\<rparr>))
      | _ \<Rightarrow> None)"

text \<open>A process calls \<open>wlock\<close> or \<open>rlock\<close> when it has no lock, \<open>unlock\<close> when it has one and \<open>downgrade\<close>
  when it is the writer.\<close>

inductive rw_step :: "u64 set \<Rightarrow> rw_state \<Rightarrow> rw_state \<Rightarrow> bool" for P where
  wlock: "p \<in> P \<Longrightarrow> rw_pc s p = RW_idle \<Longrightarrow> rw_step P s (rw_goto p WRead s)"
| rlock: "p \<in> P \<Longrightarrow> rw_pc s p = RW_idle \<Longrightarrow> rw_step P s (rw_goto p RRead s)"
| w_unlock: "p \<in> P \<Longrightarrow> rw_pc s p = WHold \<Longrightarrow> rw_step P s (rw_goto p (UTest True) s)"
| r_unlock: "p \<in> P \<Longrightarrow> rw_pc s p = RHold \<Longrightarrow> rw_step P s (rw_goto p (UTest False) s)"
| downgrade: "p \<in> P \<Longrightarrow> rw_pc s p = WHold \<Longrightarrow> rw_step P s (rw_goto p DTest s)"
| inside: "p \<in> P \<Longrightarrow> rw_next p s = Some s' \<Longrightarrow> rw_step P s s'"

definition rw_init :: rw_state where
  "rw_init = \<lparr>rw_lock = 0, rw_pc = (\<lambda>_. RW_idle)\<rparr>"

section \<open>The invariant\<close>

fun reading :: "rw_pc \<Rightarrow> bool" where
  "reading RHold = True"
| "reading (UTest w) = (\<not> w)"
| "reading (UAdd w) = (\<not> w)"
| "reading _ = False"

fun writing :: "rw_pc \<Rightarrow> bool" where
  "writing WHold = True"
| "writing (UTest w) = w"
| "writing (UCas w) = True"
| "writing DTest = True"
| "writing DStore = True"
| "writing _ = False"

text \<open>The value that \<open>RCas\<close> remembers is never that of a writer, and \<open>UCas\<close> and \<open>UAdd\<close> are the branches
  of a writer and of a reader.\<close>

fun rw_pc_ok :: "rw_pc \<Rightarrow> bool" where
  "rw_pc_ok (RCas readers) = (readers \<noteq> NGX_RWLOCK_WLOCK)"
| "rw_pc_ok (UCas w) = w"
| "rw_pc_ok (UAdd w) = (\<not> w)"
| "rw_pc_ok _ = True"

definition reader :: "rw_pc \<Rightarrow> int" where
  "reader x = (if reading x then 1 else 0)"

definition readers_of :: "u64 set \<Rightarrow> rw_state \<Rightarrow> int" where
  "readers_of P s = (\<Sum>p\<in>P. reader (rw_pc s p))"

definition rw_inv :: "u64 set \<Rightarrow> rw_state \<Rightarrow> bool" where
  "rw_inv P s \<longleftrightarrow> (\<forall>p. p \<notin> P \<longrightarrow> rw_pc s p = RW_idle) \<and> (\<forall>p. rw_pc_ok (rw_pc s p))
     \<and> (if \<exists>p. writing (rw_pc s p)
        then rw_lock s = NGX_RWLOCK_WLOCK \<and> readers_of P s = 0
          \<and> (\<forall>p q. writing (rw_pc s p) \<longrightarrow> writing (rw_pc s q) \<longrightarrow> p = q)
        else rw_lock s = of_int (readers_of P s))"

lemma rw_goto_sel [simp]:
  "rw_lock (rw_goto p x s) = rw_lock s" "rw_pc (rw_goto p x s) = (rw_pc s)(p := x)"
  by (simp_all add: rw_goto_def)

lemma readers_bounds: "0 \<le> readers_of P s" "readers_of P s \<le> int (card P)"
proof -
  show "0 \<le> readers_of P s" unfolding readers_of_def by (rule sum_nonneg) (simp add: reader_def)
  have "readers_of P s \<le> (\<Sum>p\<in>P. 1)" unfolding readers_of_def by (rule sum_mono) (simp add: reader_def)
  then show "readers_of P s \<le> int (card P)" by simp
qed

lemma readers_goto: "p \<in> P \<Longrightarrow> readers_of P (rw_goto p x s) = readers_of P s - reader (rw_pc s p) + reader x"
  unfolding readers_of_def rw_goto_sel by (rule sum_upd)

lemma readers_lock [simp]: "readers_of P (s\<lparr>rw_lock := v\<rparr>) = readers_of P s"
  by (simp add: readers_of_def)

lemma readers_pos: "p \<in> P \<Longrightarrow> reading (rw_pc s p) \<Longrightarrow> 1 \<le> readers_of P s"
  unfolding readers_of_def using member_le_sum [of p P "\<lambda>p. reader (rw_pc s p)"] by (simp add: reader_def)

lemma not_wlock: "0 \<le> n \<Longrightarrow> n < 2 ^ 62 \<Longrightarrow> of_int n \<noteq> (- 1 :: u64)"
proof
  assume n: "0 \<le> n" "n < 2 ^ 62" and "of_int n = (- 1 :: u64)"
  then have "sint (of_int n :: u64) = - 1" by simp
  then show False using n sint_small [of n] by simp
qed

lemma rw_inv_cases:
  assumes "rw_inv P s" "card P < 2 ^ 62"
  obtains (writer) w where "w \<in> P" "writing (rw_pc s w)" "rw_lock s = NGX_RWLOCK_WLOCK" "readers_of P s = 0"
      "\<And>p. writing (rw_pc s p) \<longleftrightarrow> p = w" "\<And>p. \<not> reading (rw_pc s p)"
    | (readers) "\<And>p. \<not> writing (rw_pc s p)" "rw_lock s = of_int (readers_of P s)" "rw_lock s \<noteq> NGX_RWLOCK_WLOCK"
proof (cases "\<exists>p. writing (rw_pc s p)")
  case True
  then obtain w where w: "writing (rw_pc s w)" by blast
  have out: "p \<in> P" if "rw_pc s p \<noteq> RW_idle" for p using assms(1) that by (auto simp: rw_inv_def)
  have r: "rw_lock s = NGX_RWLOCK_WLOCK" "readers_of P s = 0" "\<And>p. writing (rw_pc s p) \<longleftrightarrow> p = w"
    using assms(1) True w unfolding rw_inv_def by auto
  have "\<not> reading (rw_pc s p)" for p
  proof
    assume a: "reading (rw_pc s p)"
    then have "p \<in> P" by (intro out) auto
    from readers_pos [OF this a] r(2) show False by simp
  qed
  moreover have "w \<in> P" using w by (intro out) auto
  ultimately show ?thesis using writer w r by blast
next
  case False
  then have l: "rw_lock s = of_int (readers_of P s)" using assms(1) by (auto simp: rw_inv_def)
  moreover have "rw_lock s \<noteq> NGX_RWLOCK_WLOCK"
    unfolding l using readers_bounds [of P s] assms(2) by (intro not_wlock) auto
  ultimately show ?thesis using readers False by blast
qed

lemma rw_inv_intro_readers:
  assumes "\<And>p. p \<notin> P \<Longrightarrow> rw_pc s p = RW_idle" "\<And>p. rw_pc_ok (rw_pc s p)" "\<And>p. \<not> writing (rw_pc s p)"
    and "rw_lock s = of_int (readers_of P s)"
  shows "rw_inv P s"
  using assms by (simp add: rw_inv_def)

lemma rw_inv_intro_writer:
  assumes "\<And>p. p \<notin> P \<Longrightarrow> rw_pc s p = RW_idle" "\<And>p. rw_pc_ok (rw_pc s p)" "\<And>p. writing (rw_pc s p) \<longleftrightarrow> p = w"
    and "rw_lock s = NGX_RWLOCK_WLOCK" "readers_of P s = 0"
  shows "rw_inv P s"
  using assms by (simp add: rw_inv_def)

lemma rw_inv_pc: "rw_inv P s \<Longrightarrow> p \<notin> P \<Longrightarrow> rw_pc s p = RW_idle" "rw_inv P s \<Longrightarrow> rw_pc_ok (rw_pc s p)"
  by (simp_all add: rw_inv_def)

text \<open>A process moves without gaining or losing a lock.\<close>

lemma rw_inv_move:
  assumes "rw_inv P s" "card P < 2 ^ 62" "p \<in> P" "rw_pc_ok x" "reading x = reading (rw_pc s p)" "writing x = writing (rw_pc s p)"
  shows "rw_inv P (rw_goto p x s)"
  using assms(1,2)
proof (cases rule: rw_inv_cases)
  case (writer w)
  then show ?thesis
    using assms(3-6) rw_inv_pc [OF assms(1)]
    by (intro rw_inv_intro_writer [of _ _ w]) (auto simp: readers_goto reader_def)
next
  case readers
  then show ?thesis
    using assms(3-6) rw_inv_pc [OF assms(1)] by (intro rw_inv_intro_readers) (auto simp: readers_goto reader_def)
qed

lemma rw_inv_wtake:
  assumes "rw_inv P s" "card P < 2 ^ 62" "p \<in> P" "rw_pc s p = WCas" "rw_lock s = 0"
  shows "rw_inv P (rw_goto p WHold (s\<lparr>rw_lock := NGX_RWLOCK_WLOCK\<rparr>))"
  using assms(1,2)
proof (cases rule: rw_inv_cases)
  case readers
  have "readers_of P s = 0"
    using readers(2) assms(2,5) readers_bounds [of P s] sint_small [of "readers_of P s"] by simp
  then show ?thesis
    using assms(3,4) readers(1) rw_inv_pc [OF assms(1)]
    by (intro rw_inv_intro_writer [of _ _ p]) (auto simp: readers_goto reader_def)
qed (use assms(5) in simp)

lemma rw_inv_rtake:
  assumes "rw_inv P s" "card P < 2 ^ 62" "p \<in> P" "rw_pc s p = RCas (rw_lock s)"
  shows "rw_inv P (rw_goto p RHold (s\<lparr>rw_lock := rw_lock s + 1\<rparr>))"
  using assms(1,2)
proof (cases rule: rw_inv_cases)
  case writer
  then show ?thesis using rw_inv_pc(2) [OF assms(1), of p] assms(4) by simp
next
  case readers
  then show ?thesis
    using assms(3,4) rw_inv_pc [OF assms(1)] by (intro rw_inv_intro_readers) (auto simp: readers_goto reader_def)
qed

lemma rw_inv_release:
  assumes "rw_inv P s" "card P < 2 ^ 62" "p \<in> P" "writing (rw_pc s p)"
  shows "rw_inv P (rw_goto p RW_idle (s\<lparr>rw_lock := 0\<rparr>))" "rw_inv P (rw_goto p RHold (s\<lparr>rw_lock := 1\<rparr>))"
proof -
  from assms(1,2) have "rw_inv P (rw_goto p RW_idle (s\<lparr>rw_lock := 0\<rparr>)) \<and> rw_inv P (rw_goto p RHold (s\<lparr>rw_lock := 1\<rparr>))"
  proof (cases rule: rw_inv_cases)
    case (writer w)
    then have "w = p" using assms(4) by simp
    with writer assms(3) rw_inv_pc [OF assms(1)] show ?thesis
      by (intro conjI rw_inv_intro_readers) (auto simp: readers_goto reader_def)
  qed (use assms(4) in simp)
  then show "rw_inv P (rw_goto p RW_idle (s\<lparr>rw_lock := 0\<rparr>))" "rw_inv P (rw_goto p RHold (s\<lparr>rw_lock := 1\<rparr>))" by simp_all
qed

lemma rw_inv_rrelease:
  assumes "rw_inv P s" "card P < 2 ^ 62" "p \<in> P" "reading (rw_pc s p)"
  shows "rw_inv P (rw_goto p RW_idle (s\<lparr>rw_lock := rw_lock s - 1\<rparr>))"
  using assms(1,2)
proof (cases rule: rw_inv_cases)
  case readers
  then show ?thesis
    using assms(3,4) rw_inv_pc [OF assms(1)] by (intro rw_inv_intro_readers) (auto simp: readers_goto reader_def)
qed (use assms(4) in simp)

text \<open>A process with the lock sees which one it is from the word.\<close>

lemma holder_sees:
  assumes "rw_inv P s" "card P < 2 ^ 62"
  shows "writing (rw_pc s p) \<Longrightarrow> rw_lock s = NGX_RWLOCK_WLOCK" "reading (rw_pc s p) \<Longrightarrow> rw_lock s \<noteq> NGX_RWLOCK_WLOCK"
proof -
  from assms have "(writing (rw_pc s p) \<longrightarrow> rw_lock s = NGX_RWLOCK_WLOCK) \<and> (reading (rw_pc s p) \<longrightarrow> rw_lock s \<noteq> NGX_RWLOCK_WLOCK)"
    by (cases rule: rw_inv_cases) auto
  then show "writing (rw_pc s p) \<Longrightarrow> rw_lock s = NGX_RWLOCK_WLOCK" "reading (rw_pc s p) \<Longrightarrow> rw_lock s \<noteq> NGX_RWLOCK_WLOCK"
    by simp_all
qed

lemma rw_inv_next:
  assumes "rw_inv P s" "card P < 2 ^ 62" "p \<in> P" "rw_next p s = Some s'"
  shows "rw_inv P s'"
proof -
  note m = rw_inv_move [OF assms(1-3)]
  note h = holder_sees [OF assms(1,2), of p]
  have ok: "rw_pc_ok (rw_pc s p)" using rw_inv_pc(2) [OF assms(1)] .
  show ?thesis
  proof (cases "rw_pc s p")
    case WCas
    then show ?thesis using assms(4) m [of WRead] rw_inv_wtake [OF assms(1-3) WCas] by (auto simp: rw_next_def split: if_splits)
  next
    case (RCas readers)
    then show ?thesis using assms(4) m [of RRead] rw_inv_rtake [OF assms(1-3)] by (auto simp: rw_next_def split: if_splits)
  next
    case (UTest w)
    then show ?thesis
      using assms(4) h m [of "UCas w"] m [of "UAdd w"] by (cases w) (auto simp: rw_next_def)
  next
    case (UCas w)
    then show ?thesis using assms(4) h rw_inv_release(1) [OF assms(1-3)] by (auto simp: rw_next_def)
  next
    case (UAdd w)
    then show ?thesis using assms(4) ok rw_inv_rrelease [OF assms(1-3)] by (auto simp: rw_next_def)
  next
    case DTest
    then show ?thesis using assms(4) h m [of DStore] by (auto simp: rw_next_def)
  next
    case DStore
    then show ?thesis using assms(4) rw_inv_release(2) [OF assms(1-3)] by (auto simp: rw_next_def)
  qed (use assms(4) in \<open>auto simp: rw_next_def split: if_splits intro!: m\<close>)
qed

lemma rw_inv_step: "rw_step P s s' \<Longrightarrow> rw_inv P s \<Longrightarrow> card P < 2 ^ 62 \<Longrightarrow> rw_inv P s'"
  by (induction rule: rw_step.induct) (auto intro: rw_inv_next intro!: rw_inv_move)

lemma rw_inv_reachable: "(rw_step P)\<^sup>*\<^sup>* rw_init s \<Longrightarrow> card P < 2 ^ 62 \<Longrightarrow> rw_inv P s"
proof (induction rule: rtranclp_induct)
  case base
  show ?case by (intro rw_inv_intro_readers) (simp_all add: rw_init_def readers_of_def reader_def)
qed (auto intro: rw_inv_step)

text \<open>
  C12: The reader-writer lock excludes. Whatever the interleaving of any number of processes that lock for
  reading or writing, unlock and downgrade, a process that has the lock for writing is the only one that
  has it; when there is no writer the word is the number of readers, and never looks like a writer; and
  \<open>ngx_rwlock_unlock\<close>, which only looks at the word, always takes the branch of the lock its caller has.
\<close>

theorem rwlock_exclusion:
  assumes "card P < 2 ^ 62" "(rw_step P)\<^sup>*\<^sup>* rw_init s"
  shows "(rw_pc s p = WHold \<longrightarrow> rw_lock s = - 1 \<and> (\<forall>q. rw_pc s q = WHold \<or> rw_pc s q = RHold \<longrightarrow> q = p))
    \<and> ((\<forall>q. \<not> writing (rw_pc s q)) \<longrightarrow> uint (rw_lock s) = int (card {q \<in> P. reading (rw_pc s q)}) \<and> rw_lock s \<noteq> - 1)
    \<and> (rw_pc s p = UCas w \<longrightarrow> w) \<and> (rw_pc s p = UAdd w \<longrightarrow> \<not> w)"
proof -
  have i: "rw_inv P s" using rw_inv_reachable [OF assms(2,1)] .
  have c: "readers_of P s = int (card {q \<in> P. reading (rw_pc s q)})"
    by (simp add: readers_of_def reader_def sum.If_cases Int_def)
  have "rw_pc_ok (rw_pc s p)" using rw_inv_pc(2) [OF i] .
  then have "(rw_pc s p = UCas w \<longrightarrow> w) \<and> (rw_pc s p = UAdd w \<longrightarrow> \<not> w)" by auto
  moreover from i assms(1)
  have "(rw_pc s p = WHold \<longrightarrow> rw_lock s = - 1 \<and> (\<forall>q. rw_pc s q = WHold \<or> rw_pc s q = RHold \<longrightarrow> q = p))
    \<and> ((\<forall>q. \<not> writing (rw_pc s q)) \<longrightarrow> uint (rw_lock s) = readers_of P s \<and> rw_lock s \<noteq> - 1)"
  proof (cases rule: rw_inv_cases)
    case (writer v)
    have "q = p" if "rw_pc s p = WHold" "rw_pc s q = WHold \<or> rw_pc s q = RHold" for q
      using writer(5) [of p] writer(5,6) [of q] that by auto
    then show ?thesis using writer(2,3) by blast
  next
    case readers
    have "uint (of_int (readers_of P s) :: u64) = readers_of P s"
      using readers_bounds [of P s] assms(1) by (simp add: unsigned_of_int take_bit_int_eq_self)
    then show ?thesis using readers(1) [of p] readers(2,3) by auto
  qed
  ultimately show ?thesis unfolding c by blast
qed

theorem rwlock_exclusion_witness:
  "rw_lock \<lparr>rw_lock = - 1, rw_pc = (\<lambda>_. RW_idle)(1 := WHold)\<rparr> = - 1
   \<and> rw_pc \<lparr>rw_lock = - 1, rw_pc = (\<lambda>_. RW_idle)(1 := WHold)\<rparr> 2 \<noteq> RHold"
proof -
  let ?S = "\<lambda>l x. \<lparr>rw_lock = l, rw_pc = (\<lambda>_. RW_idle)(1 := x)\<rparr>"
  have "rw_init = ?S 0 RW_idle" by (auto simp: rw_init_def)
  also have "(rw_step {1, 2})\<^sup>*\<^sup>* \<dots> (?S 0 WRead)"
    using rw_step.wlock [of 1 "{1, 2}" "?S 0 RW_idle"] by (simp add: rw_goto_def)
  also have "(rw_step {1, 2})\<^sup>*\<^sup>* \<dots> (?S 0 WCas)"
    using rw_step.inside [of 1 "{1, 2}" "?S 0 WRead"] by (simp add: rw_next_def rw_goto_def)
  also have "(rw_step {1, 2})\<^sup>*\<^sup>* \<dots> (?S (- 1) WHold)"
    using rw_step.inside [of 1 "{1, 2}" "?S 0 WCas"] by (simp add: rw_next_def rw_goto_def)
  finally have "(rw_step {1, 2})\<^sup>*\<^sup>* rw_init (?S (- 1) WHold)" .
  from rwlock_exclusion [OF _ this, of 1] show ?thesis by fastforce
qed

end
