(* ===== verification/Http_Unsafe_Uri.thy ===== *)
theory Http_Unsafe_Uri
  imports Http_Uri Ngx_Escape
begin

text \<open>
  \<open>ngx_http_parse_unsafe_uri\<close> of \<open>src/http/ngx_http_parse.c\<close>, which checks the URIs that do not come
  from a request line: those of SSI includes, \<open>X-Accel-Redirect\<close> headers, and the \<open>Destination\<close> of
  WebDAV requests. It separates the arguments, decodes the path and refuses paths that step up.
\<close>

section \<open>Definitions\<close>

text \<open>\<open>p[0] == '.' && p[1] == '.' && (len == 2 || ngx_path_separator(p[2]))\<close>, for the bytes that are left.\<close>

definition dotdot_ahead :: "byte list \<Rightarrow> bool" where
  "dotdot_ahead p \<longleftrightarrow> 2 \<le> length p \<and> p ! 0 = b_dot \<and> p ! 1 = b_dot \<and> (length p = 2 \<or> p ! 2 = b_slash)"

text \<open>The loop over the raw URI: whether there is a percent sign, and the arguments; or unsafe.\<close>

fun unsafe_raw_loop :: "byte list \<Rightarrow> bool \<Rightarrow> (bool \<times> byte list option) option" where
  "unsafe_raw_loop [] quoted = Some (quoted, None)"
| "unsafe_raw_loop (ch # p) quoted =
     (if ch = b_pct then unsafe_raw_loop p True
      else if usual_ch ch then unsafe_raw_loop p quoted
      else if ch = b_qm then Some (quoted, Some p)
      else if ch = NUL then None
      else if ch = b_slash \<and> dotdot_ahead p then None
      else unsafe_raw_loop p quoted)"

text \<open>The loop over the decoded path.\<close>

fun unsafe_decoded_loop :: "byte list \<Rightarrow> bool" where
  "unsafe_decoded_loop [] = False"
| "unsafe_decoded_loop (ch # p) = (ch = NUL \<or> ch = b_slash \<and> dotdot_ahead p \<or> unsafe_decoded_loop p)"

text \<open>The path and the arguments, or \<open>None\<close> for \<open>NGX_ERROR\<close>.\<close>

definition ngx_http_parse_unsafe_uri :: "bool \<Rightarrow> byte list \<Rightarrow> (byte list \<times> byte list option) option" where
  "ngx_http_parse_unsafe_uri alloc_ok uri =
     (if uri = [] \<or> hd uri = b_qm then None
      else if dotdot_ahead uri then None
      else
        (case unsafe_raw_loop uri False of
           None \<Rightarrow> None
         | Some (quoted, args) \<Rightarrow>
             (let path = (case args of None \<Rightarrow> uri | Some a \<Rightarrow> take (length uri - Suc (length a)) uri) in
              if \<not> quoted then Some (path, args)
              else if \<not> alloc_ok then None
              else
                (let decoded = fst (ngx_unescape_uri 0 path) in
                 if dotdot_ahead decoded \<or> unsafe_decoded_loop decoded then None else Some (decoded, args)))))"

section \<open>What it accepts\<close>

definition uri_path :: "byte list \<Rightarrow> byte list" where
  "uri_path s = takeWhile (\<lambda>c. c \<noteq> b_qm) s"

definition uri_args :: "byte list \<Rightarrow> byte list option" where
  "uri_args s = (if b_qm \<in> set s then Some (tl (dropWhile (\<lambda>c. c \<noteq> b_qm) s)) else None)"

text \<open>The segments of the path that a slash or the end of the URI follows, so all but a last one in front
  of a question mark.\<close>

definition closed_segments :: "byte list \<Rightarrow> byte list list" where
  "closed_segments s = (if b_qm \<in> set s then butlast (segments (uri_path s)) else segments (uri_path s))"

lemma closed_segments_simps [simp]:
  "closed_segments [] = [[]]"
  "closed_segments (b_qm # s) = []"
  "closed_segments (b_slash # s) = [] # closed_segments s"
  by (simp_all add: closed_segments_def uri_path_def)

lemma closed_segments_Cons:
  assumes "c \<noteq> b_qm" "c \<noteq> b_slash"
  shows "closed_segments (c # s) = (case closed_segments s of [] \<Rightarrow> [] | g # gs \<Rightarrow> (c # g) # gs)"
  using assms by (cases "segments (uri_path s)") (auto simp: closed_segments_def uri_path_def split: list.splits)

lemma closed_segments_tl: "c \<noteq> b_qm \<Longrightarrow> c \<noteq> b_slash \<Longrightarrow> tl (closed_segments (c # s)) = tl (closed_segments s)"
  by (simp add: closed_segments_Cons split: list.splits)

lemma segments_hd_dotdot: "dotdot_ahead p \<longleftrightarrow> hd (segments p) = [b_dot, b_dot]"
proof -
  consider "p = []" | a where "p = [a]" | a b where "p = [a, b]" | a b c r where "p = a # b # c # r"
    by (metis list.exhaust)
  then show ?thesis
    by cases (auto simp: dotdot_ahead_def split: list.splits)
qed

lemma closed_hd_dotdot: "dotdot_ahead p \<longleftrightarrow> closed_segments p \<noteq> [] \<and> hd (closed_segments p) = [b_dot, b_dot]"
proof -
  have cons: "closed_segments (c # s) \<noteq> [] \<and> hd (closed_segments (c # s)) = c' # g
      \<longleftrightarrow> c = c' \<and> closed_segments s \<noteq> [] \<and> hd (closed_segments s) = g" if "c' = b_dot" for c c' s g
    using that by (cases "c = b_qm \<or> c = b_slash") (auto simp: closed_segments_Cons split: list.splits)
  have nil: "closed_segments s \<noteq> [] \<and> hd (closed_segments s) = [] \<longleftrightarrow> s = [] \<or> hd s = b_slash" for s
    by (cases s; cases "hd s = b_qm \<or> hd s = b_slash") (auto simp: closed_segments_Cons split: list.splits)
  have "closed_segments p \<noteq> [] \<and> hd (closed_segments p) = [b_dot, b_dot]
      \<longleftrightarrow> (\<exists>r. p = b_dot # b_dot # r \<and> (r = [] \<or> hd r = b_slash))"
  proof (cases p)
    case (Cons a q)
    then show ?thesis by (cases q) (auto simp: cons nil)
  qed simp
  also have "\<dots> \<longleftrightarrow> dotdot_ahead p"
  proof -
    consider "p = []" | a where "p = [a]" | a b where "p = [a, b]" | a b c r where "p = a # b # c # r" by (metis list.exhaust)
    then show ?thesis by cases (auto simp: dotdot_ahead_def)
  qed
  finally show ?thesis ..
qed

lemma mem_hd_tl: "x \<in> set xs \<longleftrightarrow> (xs \<noteq> [] \<and> hd xs = x) \<or> x \<in> set (tl xs)"
  by (cases xs) auto

lemma raw_loop_eq:
  "unsafe_raw_loop s quoted =
     (if NUL \<in> set (uri_path s) \<or> [b_dot, b_dot] \<in> set (tl (closed_segments s)) then None
      else Some (quoted \<or> b_pct \<in> set (uri_path s), uri_args s))"
proof (induction s arbitrary: quoted)
  case (Cons ch s)
  have nul: "\<not> usual_ch NUL" by code_simp
  consider "ch = b_pct" | "usual_ch ch" "ch \<noteq> b_pct" | "ch = b_qm" | "ch = NUL" | "ch = b_slash"
    | "\<not> usual_ch ch" "ch \<noteq> b_pct" "ch \<noteq> b_qm" "ch \<noteq> NUL" "ch \<noteq> b_slash" by blast
  then show ?case
  proof cases
    case 2
    then have "ch \<noteq> b_qm" "ch \<noteq> b_slash" "ch \<noteq> NUL" using usual_ch_special nul by auto
    then show ?thesis using Cons.IH 2 by (auto simp: uri_path_def uri_args_def closed_segments_tl)
  next
    case 5
    then show ?thesis
      using Cons.IH usual_ch_special closed_hd_dotdot [of s] mem_hd_tl [of "[b_dot, b_dot]" "closed_segments s"]
      by (auto simp: uri_path_def uri_args_def)
  qed (use Cons.IH usual_ch_special nul in \<open>auto simp: uri_path_def uri_args_def closed_segments_tl\<close>)
qed (simp add: uri_path_def uri_args_def)

lemma decoded_loop_eq: "unsafe_decoded_loop u \<longleftrightarrow> NUL \<in> set u \<or> [b_dot, b_dot] \<in> set (tl (segments u))"
proof (induction u)
  case (Cons ch u)
  show ?case
  proof (cases "ch = b_slash")
    case True
    then show ?thesis
      using Cons.IH segments_hd_dotdot [of u] mem_hd_tl [of "[b_dot, b_dot]" "segments u"] by auto
  next
    case False
    then show ?thesis using Cons.IH by (cases "segments u") auto
  qed
qed simp

lemma path_args: "(case uri_args s of None \<Rightarrow> s | Some a \<Rightarrow> take (length s - Suc (length a)) s) = uri_path s"
proof (cases "b_qm \<in> set s")
  case True
  then obtain a where a: "dropWhile (\<lambda>c. c \<noteq> b_qm) s = b_qm # a"
    by (metis (mono_tags, lifting) dropWhile_eq_Nil_conv hd_dropWhile list.collapse)
  then have "s = uri_path s @ b_qm # a" using takeWhile_dropWhile_id [of "\<lambda>c. c \<noteq> b_qm" s] by (simp add: uri_path_def)
  then have "take (length s - Suc (length a)) s = uri_path s"
    by (metis add_diff_cancel_right' append_eq_conv_conj length_Cons length_append)
  then show ?thesis using True a by (simp add: uri_args_def)
next
  case False
  then have "takeWhile (\<lambda>c. c \<noteq> b_qm) s = s" by (metis (mono_tags, lifting) takeWhile_eq_all_conv)
  with False show ?thesis unfolding uri_args_def uri_path_def by (simp only: if_False option.case)
qed

text \<open>
  C16: What \<open>ngx_http_parse_unsafe_uri\<close> accepts. The path in front of the first question mark is refused
  when it is empty, has a NUL byte, or has a segment \<open>..\<close>, and when it has percent signs so is the decoded
  path, which is what is returned. But a last segment \<open>..\<close> directly in front of a question mark is not
  seen in a path without percent signs: every URI \<open>/..?args\<close> is accepted with the path \<open>/..\<close>.
\<close>

theorem unsafe_uri_exact:
  "ngx_http_parse_unsafe_uri True s =
     (let path = uri_path s; decoded = (if b_pct \<in> set path then fst (ngx_unescape_uri 0 path) else path) in
      if path = [] \<or> NUL \<in> set path \<or> [b_dot, b_dot] \<in> set (closed_segments s)
        \<or> b_pct \<in> set path \<and> (NUL \<in> set decoded \<or> [b_dot, b_dot] \<in> set (segments decoded))
      then None else Some (decoded, uri_args s))
   \<and> ngx_http_parse_unsafe_uri True ([b_slash, b_dot, b_dot, b_qm] @ args) = Some ([b_slash, b_dot, b_dot], Some args)"
proof -
  have e: "path = [] \<longleftrightarrow> s = [] \<or> hd s = b_qm" if "path = uri_path s" for path s
    using that by (cases s) (auto simp: uri_path_def)
  have main: "ngx_http_parse_unsafe_uri True s =
     (let path = uri_path s; decoded = (if b_pct \<in> set path then fst (ngx_unescape_uri 0 path) else path) in
      if path = [] \<or> NUL \<in> set path \<or> [b_dot, b_dot] \<in> set (closed_segments s)
        \<or> b_pct \<in> set path \<and> (NUL \<in> set decoded \<or> [b_dot, b_dot] \<in> set (segments decoded))
      then None else Some (decoded, uri_args s))" for s
    using mem_hd_tl [of "[b_dot, b_dot]" "closed_segments s"] closed_hd_dotdot [of s] e [OF refl, of s] path_args [of s]
      mem_hd_tl [of "[b_dot, b_dot]" "segments (fst (ngx_unescape_uri 0 (uri_path s)))"]
      segments_hd_dotdot [of "fst (ngx_unescape_uri 0 (uri_path s))"]
    by (simp add: ngx_http_parse_unsafe_uri_def raw_loop_eq decoded_loop_eq Let_def)
  have "closed_segments ([b_slash, b_dot, b_dot, b_qm] @ args) = [[]]" by (simp add: closed_segments_Cons)
  moreover have "uri_path ([b_slash, b_dot, b_dot, b_qm] @ args) = [b_slash, b_dot, b_dot]"
      "uri_args ([b_slash, b_dot, b_dot, b_qm] @ args) = Some args"
    by (simp_all add: uri_path_def uri_args_def)
  ultimately show ?thesis using main by (auto simp: Let_def)
qed

end
