(* ===== verification/Ngx_Segment_Tree.thy ===== *)
theory Ngx_Segment_Tree
  imports Ngx_Prelude "HOL-Library.Monad_Syntax"
begin

text \<open>
  The segment tree of \<open>src/core/ngx_segment_tree.c\<close>, which gives the node with the smallest key of a
  range of positions. The tree is in an array: the children of the node \<open>i\<close> are \<open>2i\<close> and \<open>2i + 1\<close>, the
  root is 1, and entry 0 is the answer for an empty range. The operations are partial: \<open>None\<close> is an
  access outside the array or a recursion that does not end, and the lemmas show that neither happens.
\<close>

section \<open>Definitions\<close>

record sg_node =
  sg_key :: int
  sg_data :: nat

record sg_tree =
  sg_extreme :: int
  sg_num :: nat
  sg_segments :: "sg_node list"

definition ngx_segment_tree_min :: "sg_node \<Rightarrow> sg_node \<Rightarrow> int" where
  "ngx_segment_tree_min one two = sg_key two - sg_key one"

definition sg_get :: "sg_tree \<Rightarrow> nat \<Rightarrow> sg_node option" where
  "sg_get t i = (if i < length (sg_segments t) then Some (sg_segments t ! i) else None)"

definition sg_put :: "sg_tree \<Rightarrow> nat \<Rightarrow> sg_node \<Rightarrow> sg_tree option" where
  "sg_put t i nd = (if i < length (sg_segments t) then Some (t\<lparr>sg_segments := (sg_segments t)[i := nd]\<rparr>) else None)"

definition ngx_segment_tree_init :: "nat \<Rightarrow> sg_tree" where
  "ngx_segment_tree_init num =
     \<lparr>sg_extreme = 2 ^ 32 - 1, sg_num = num,
       sg_segments = (replicate ((num + 1) * 4) \<lparr>sg_key = 0, sg_data = 0\<rparr>)[0 := \<lparr>sg_key = 2 ^ 32 - 1, sg_data = 0\<rparr>]\<rparr>"

text \<open>A node takes over the smaller one of its children.\<close>

definition sg_pull :: "sg_tree \<Rightarrow> nat \<Rightarrow> sg_tree option" where
  "sg_pull t index =
     do {
       one \<leftarrow> sg_get t (2 * index);
       two \<leftarrow> sg_get t (2 * index + 1);
       sg_put t index (if ngx_segment_tree_min one two > 0 then one else two)
     }"

partial_function (option) ngx_segment_tree_build :: "sg_tree \<Rightarrow> nat \<Rightarrow> nat \<Rightarrow> nat \<Rightarrow> sg_tree option" where
  "ngx_segment_tree_build t index l r =
     (if l = r then
        do {
          nd \<leftarrow> sg_get t index;
          sg_put t index (nd\<lparr>sg_key := int l\<rparr>)
        }
      else
        do {
          t1 \<leftarrow> ngx_segment_tree_build t (2 * index) l ((l + r) div 2);
          t2 \<leftarrow> ngx_segment_tree_build t1 (2 * index + 1) ((l + r) div 2 + 1) r;
          sg_pull t2 index
        })"

partial_function (option) ngx_segment_tree_insert :: "sg_tree \<Rightarrow> nat \<Rightarrow> nat \<Rightarrow> nat \<Rightarrow> nat \<Rightarrow> sg_node \<Rightarrow> sg_tree option" where
  "ngx_segment_tree_insert t index l r pos node =
     (if l = r \<and> l = pos then sg_put t index node
      else
        do {
          t1 \<leftarrow> (if pos \<le> (l + r) div 2 then ngx_segment_tree_insert t (2 * index) l ((l + r) div 2) pos node
                 else ngx_segment_tree_insert t (2 * index + 1) ((l + r) div 2 + 1) r pos node);
          sg_pull t1 index
        })"

partial_function (option) ngx_segment_tree_query :: "sg_tree \<Rightarrow> nat \<Rightarrow> nat \<Rightarrow> nat \<Rightarrow> nat \<Rightarrow> nat \<Rightarrow> nat option" where
  "ngx_segment_tree_query t index l r ll rr =
     (if ll > rr then Some 0
      else if l = ll \<and> r = rr then Some index
      else if rr \<le> (l + r) div 2 then ngx_segment_tree_query t (2 * index) l ((l + r) div 2) ll rr
      else if ll > (l + r) div 2 then ngx_segment_tree_query t (2 * index + 1) ((l + r) div 2 + 1) r ll rr
      else
        do {
          l_node \<leftarrow> ngx_segment_tree_query t (2 * index) l ((l + r) div 2) ll ((l + r) div 2);
          r_node \<leftarrow> ngx_segment_tree_query t (2 * index + 1) ((l + r) div 2 + 1) r ((l + r) div 2 + 1) rr;
          one \<leftarrow> sg_get t l_node;
          two \<leftarrow> sg_get t r_node;
          Some (if ngx_segment_tree_min one two > 0 then l_node else r_node)
        })"

partial_function (option) ngx_segment_tree_delete :: "sg_tree \<Rightarrow> nat \<Rightarrow> nat \<Rightarrow> nat \<Rightarrow> nat \<Rightarrow> sg_tree option" where
  "ngx_segment_tree_delete t index l r pos =
     (if l = r \<and> l = pos then
        do {
          nd \<leftarrow> sg_get t index;
          sg_put t index (nd\<lparr>sg_key := sg_extreme t\<rparr>)
        }
      else
        do {
          t1 \<leftarrow> (if pos \<le> (l + r) div 2 then ngx_segment_tree_delete t (2 * index) l ((l + r) div 2) pos
                 else ngx_segment_tree_delete t (2 * index + 1) ((l + r) div 2 + 1) r pos);
          sg_pull t1 index
        })"

section \<open>Subtrees of the array\<close>

definition under :: "nat \<Rightarrow> nat \<Rightarrow> bool" where
  "under i j \<longleftrightarrow> (\<exists>d. j div 2 ^ d = i)"

lemma under_refl [simp]: "under i i"
  unfolding under_def by (rule exI [of _ 0]) simp

lemma div_power_Suc: "(j :: nat) div 2 ^ Suc d = j div 2 ^ d div 2"
  by (simp only: power_Suc2 div_mult2_eq)

lemma under_child: "under (2 * i) j \<Longrightarrow> under i j" "under (2 * i + 1) j \<Longrightarrow> under i j"
proof -
  have "j div 2 ^ d = 2 * i \<Longrightarrow> j div 2 ^ Suc d = i" "j div 2 ^ d = 2 * i + 1 \<Longrightarrow> j div 2 ^ Suc d = i" for d
    by (simp_all add: div_power_Suc del: power_Suc)
  then show "under (2 * i) j \<Longrightarrow> under i j" "under (2 * i + 1) j \<Longrightarrow> under i j" unfolding under_def by blast+
qed

lemma under_le: "under i j \<Longrightarrow> i \<le> j"
  unfolding under_def by auto

lemma under_trans_div: "(j :: nat) div 2 ^ d = a \<Longrightarrow> d \<le> e \<Longrightarrow> j div 2 ^ e \<le> a"
proof -
  assume a: "j div 2 ^ d = a" "d \<le> e"
  then obtain k where "e = d + k" using le_Suc_ex by blast
  then have "j div 2 ^ e = a div 2 ^ k" using a(1) by (simp add: power_add div_mult2_eq)
  then show ?thesis by simp
qed

lemma children_disjoint:
  assumes "0 < i" "under (2 * i) j" "under (2 * i + 1) j"
  shows False
proof -
  obtain d e where de: "j div 2 ^ d = 2 * i" "j div 2 ^ e = 2 * i + 1" using assms(2,3) by (auto simp: under_def)
  show False
  proof (cases "d \<le> e")
    case True
    then show False using under_trans_div [OF de(1)] de(2) by fastforce
  next
    case False
    then have "j div 2 ^ Suc e = i" using de(2) by (simp add: div_power_Suc del: power_Suc)
    then have "j div 2 ^ d \<le> i" using under_trans_div [of j "Suc e" i d] False by simp
    then show False using de(1) assms(1) by simp
  qed
qed

text \<open>The subtree of \<open>i\<close> for a range of \<open>sz\<close> positions is inside an array of length \<open>N\<close>.\<close>

definition fits :: "nat \<Rightarrow> nat \<Rightarrow> nat \<Rightarrow> bool" where
  "fits N i sz \<longleftrightarrow> (\<exists>h. sz \<le> 2 ^ h \<and> (i + 1) * 2 ^ h \<le> N)"

lemma fits_index: "fits N i sz \<Longrightarrow> i < N"
proof -
  assume "fits N i sz"
  then obtain h where "(i + 1) * 2 ^ h \<le> N" by (auto simp: fits_def)
  moreover have "(i + 1) * 1 \<le> (i + 1) * 2 ^ h" by (rule mult_le_mono2) simp
  ultimately show ?thesis by simp
qed

lemma fits_children:
  assumes "fits N i sz" "1 < sz" "sz' \<le> (sz + 1) div 2" "c = 2 * i \<or> c = 2 * i + 1"
  shows "fits N c sz'"
proof -
  obtain h where h: "sz \<le> 2 ^ h" "(i + 1) * 2 ^ h \<le> N" using assms(1) by (auto simp: fits_def)
  then obtain k where k: "h = Suc k" using assms(2) by (cases h) auto
  have "sz' \<le> 2 ^ k" using assms(3) h(1) k by simp
  moreover have "(c + 1) * 2 ^ k \<le> (2 * i + 2) * 2 ^ k" using assms(4) by (intro mult_le_mono1) auto
  then have "(c + 1) * 2 ^ k \<le> N" using h(2) k by (simp add: algebra_simps)
  ultimately show ?thesis by (auto simp: fits_def)
qed

lemma fits_root: "0 < n \<Longrightarrow> fits ((n + 1) * 4) 1 n"
proof -
  assume n: "0 < n"
  define h where "h = (LEAST h. n \<le> 2 ^ h)"
  have le: "n \<le> 2 ^ h" unfolding h_def by (rule LeastI [of _ n]) (simp add: less_imp_le)
  have "2 ^ h < 2 * n \<or> h = 0"
  proof (cases h)
    case (Suc k)
    then have "\<not> n \<le> 2 ^ k" using not_less_Least [of k "\<lambda>h. n \<le> 2 ^ h"] by (simp add: h_def)
    then show ?thesis using Suc by simp
  qed simp
  then have "(1 + 1) * 2 ^ h \<le> (n + 1) * 4" using n by auto
  then show ?thesis using le by (auto simp: fits_def)
qed

section \<open>What the array represents\<close>

text \<open>The subtree of \<open>i\<close> represents the keys \<open>K\<close> of the positions from \<open>l\<close> to \<open>r\<close>.\<close>

abbreviation (input) key_at :: "sg_tree \<Rightarrow> nat \<Rightarrow> int" where
  "key_at t i \<equiv> sg_key (sg_segments t ! i)"

function sg_rep :: "sg_tree \<Rightarrow> nat \<Rightarrow> nat \<Rightarrow> nat \<Rightarrow> (nat \<Rightarrow> int) \<Rightarrow> bool" where
  "sg_rep t i l r K \<longleftrightarrow>
     (if l < r then
        sg_rep t (2 * i) l ((l + r) div 2) K \<and> sg_rep t (2 * i + 1) ((l + r) div 2 + 1) r K
        \<and> key_at t i = min (key_at t (2 * i)) (key_at t (2 * i + 1))
      else key_at t i = K l)"
  by pat_completeness auto
termination
  by (relation "measure (\<lambda>(t, i, l, r, K). r - l)") auto

declare sg_rep.simps [simp del]

lemma sg_rep_node:
  "l < r \<Longrightarrow> sg_rep t i l r K \<longleftrightarrow>
     sg_rep t (2 * i) l ((l + r) div 2) K \<and> sg_rep t (2 * i + 1) ((l + r) div 2 + 1) r K
     \<and> key_at t i = min (key_at t (2 * i)) (key_at t (2 * i + 1))"
  by (subst sg_rep.simps) simp

lemma sg_rep_leaf: "\<not> l < r \<Longrightarrow> sg_rep t i l r K \<longleftrightarrow> key_at t i = K l"
  by (subst sg_rep.simps) simp

lemma split_range: "l \<le> m \<Longrightarrow> m \<le> r \<Longrightarrow> {l..r} = {l..m} \<union> {Suc m..r :: nat}"
  by auto

lemma sg_rep_min: "sg_rep t i l r K \<Longrightarrow> l \<le> r \<Longrightarrow> key_at t i = Min (K ` {l..r})"
proof (induction t i l r K rule: sg_rep.induct)
  case (1 t i l r K)
  show ?case
  proof (cases "l < r")
    case True
    let ?m = "(l + r) div 2"
    have m: "l \<le> ?m" "?m < r" using True by auto
    have "key_at t i = min (Min (K ` {l..?m})) (Min (K ` {Suc ?m..r}))"
      using "1.IH" [OF True] "1.prems"(1) m by (simp add: sg_rep_node [OF True])
    also have "\<dots> = Min (K ` {l..?m} \<union> K ` {Suc ?m..r})" using m by (intro Min_Un [symmetric]) auto
    also have "\<dots> = Min (K ` {l..r})" using split_range [of l ?m r] m by (simp add: image_Un)
    finally show ?thesis .
  next
    case False
    then show ?thesis using "1.prems" by (simp add: sg_rep_leaf)
  qed
qed

text \<open>The representation only depends on the subtree and on the keys of the range.\<close>

lemma sg_rep_cong:
  "sg_rep t i l r K \<Longrightarrow> (\<And>j. under i j \<Longrightarrow> key_at t' j = key_at t j) \<Longrightarrow> (\<And>p. l \<le> p \<Longrightarrow> p \<le> r \<Longrightarrow> K' p = K p)
    \<Longrightarrow> l \<le> r \<Longrightarrow> sg_rep t' i l r K'"
proof (induction t i l r K rule: sg_rep.induct)
  case (1 t i l r K)
  note u = under_child(1) [OF under_refl, of i] under_child(2) [OF under_refl, of i]
  show ?case
  proof (cases "l < r")
    case True
    let ?m = "(l + r) div 2"
    have r: "sg_rep t (2 * i) l ?m K" "sg_rep t (2 * i + 1) (?m + 1) r K"
        "key_at t i = min (key_at t (2 * i)) (key_at t (2 * i + 1))"
      using "1.prems"(1) by (simp_all add: sg_rep_node [OF True])
    have m: "l \<le> ?m" "?m < r" using True by auto
    have "sg_rep t' (2 * i) l ?m K'"
    proof (rule "1.IH"(1) [OF True r(1)])
      show "key_at t' j = key_at t j" if "under (2 * i) j" for j using "1.prems"(2) [OF under_child(1) [OF that]] .
      show "K' p = K p" if "l \<le> p" "p \<le> ?m" for p using "1.prems"(3) [of p] that m by linarith
    qed (rule m)
    moreover have "sg_rep t' (2 * i + 1) (?m + 1) r K'"
    proof (rule "1.IH"(2) [OF True r(2)])
      show "key_at t' j = key_at t j" if "under (2 * i + 1) j" for j using "1.prems"(2) [OF under_child(2) [OF that]] .
      show "K' p = K p" if "?m + 1 \<le> p" "p \<le> r" for p using "1.prems"(3) [of p] that m by linarith
    qed (use m in simp)
    moreover have "key_at t' i = min (key_at t' (2 * i)) (key_at t' (2 * i + 1))"
      using r(3) "1.prems"(2) [OF under_refl] "1.prems"(2) [OF u(1)] "1.prems"(2) [OF u(2)] by simp
    ultimately show ?thesis unfolding sg_rep_node [OF True] by blast
  next
    case False
    then show ?thesis using "1.prems"(1,3,4) "1.prems"(2) [OF under_refl] by (simp add: sg_rep_leaf)
  qed
qed

text \<open>A change that stays inside the subtree of \<open>i\<close>.\<close>

definition changes :: "nat \<Rightarrow> sg_tree \<Rightarrow> sg_tree \<Rightarrow> bool" where
  "changes i t t' \<longleftrightarrow> length (sg_segments t') = length (sg_segments t) \<and> sg_extreme t' = sg_extreme t
     \<and> (\<forall>j. \<not> under i j \<longrightarrow> sg_segments t' ! j = sg_segments t ! j)"

lemma changes_refl [simp]: "changes i t t"
  by (simp add: changes_def)

lemma changes_trans: "changes i t t1 \<Longrightarrow> changes i t1 t2 \<Longrightarrow> changes i t t2"
  by (simp add: changes_def)

lemma changes_child: "changes (2 * i) t t' \<Longrightarrow> changes i t t'" "changes (2 * i + 1) t t' \<Longrightarrow> changes i t t'"
  unfolding changes_def by (blast intro: under_child)+

lemma changes_put: "i < length (sg_segments t) \<Longrightarrow> changes i t (t\<lparr>sg_segments := (sg_segments t)[i := nd]\<rparr>)"
  unfolding changes_def by (metis (no_types, lifting) length_list_update nth_list_update_neq sg_tree.ext_inject sg_tree.surjective sg_tree.update_convs(3) under_refl)

lemma sibling_kept:
  assumes "0 < i" "sg_rep t c l r K" "changes c' t t'" "l \<le> r" "(c, c') = (2 * i, 2 * i + 1) \<or> (c', c) = (2 * i, 2 * i + 1)"
  shows "sg_rep t' c l r K"
proof (rule sg_rep_cong [OF assms(2) _ _ assms(4)])
  fix j assume "under c j"
  then have "\<not> under c' j" using assms(1,5) children_disjoint by blast
  then show "key_at t' j = key_at t j" using assms(3) by (simp add: changes_def)
qed simp

lemma pull_ok:
  assumes "0 < i" "l < r" "sg_rep t (2 * i) l ((l + r) div 2) K" "sg_rep t (2 * i + 1) ((l + r) div 2 + 1) r K"
    and "2 * i + 1 < length (sg_segments t)"
  shows "\<exists>t'. sg_pull t i = Some t' \<and> changes i t t' \<and> sg_rep t' i l r K"
proof -
  let ?one = "sg_segments t ! (2 * i)" and ?two = "sg_segments t ! (2 * i + 1)"
  let ?nd = "if ngx_segment_tree_min ?one ?two > 0 then ?one else ?two"
  let ?t = "t\<lparr>sg_segments := (sg_segments t)[i := ?nd]\<rparr>"
  have p: "sg_pull t i = Some ?t" using assms(5) by (simp add: sg_pull_def sg_get_def sg_put_def)
  have k: "key_at ?t j = key_at t j" if "2 * i \<le> j" for j using that assms(1) by simp
  have "sg_rep ?t (2 * i) l ((l + r) div 2) K"
    using assms(2) under_le [of "2 * i"] k by (intro sg_rep_cong [OF assms(3)]) auto
  moreover have "sg_rep ?t (2 * i + 1) ((l + r) div 2 + 1) r K"
    using assms(2) under_le [of "2 * i + 1"] k by (intro sg_rep_cong [OF assms(4)]) fastforce+
  moreover have "key_at ?t i = min (key_at t (2 * i)) (key_at t (2 * i + 1))"
    using assms(5) by (simp add: ngx_segment_tree_min_def)
  ultimately have "sg_rep ?t i l r K" unfolding sg_rep_node [OF assms(2)] using k [of "2 * i"] k [of "2 * i + 1"] by simp
  then show ?thesis using p assms(5) changes_put [of i t ?nd] by auto
qed

section \<open>The operations\<close>

text \<open>The halves of a range.\<close>

lemma halves:
  assumes "l < r" "fits N i (r - l + 1)"
  shows "l \<le> (l + r) div 2" "(l + r) div 2 < r"
    "fits N (2 * i) ((l + r) div 2 - l + 1)" "fits N (2 * i + 1) (r - ((l + r) div 2 + 1) + 1)"
    "(l + r) div 2 - l < r - l" "r - ((l + r) div 2 + 1) < r - l"
proof -
  obtain m where m: "(l + r) div 2 = m" "2 * m \<le> l + r" "l + r \<le> 2 * m + 1" by auto
  then have lm: "l \<le> m" "m < r" using assms(1) by auto
  then show "l \<le> (l + r) div 2" "(l + r) div 2 < r" by (simp_all add: m(1))
  show "(l + r) div 2 - l < r - l" "r - ((l + r) div 2 + 1) < r - l" unfolding m(1) using lm assms(1) by auto
  have "m - l + 1 \<le> (r - l + 1 + 1) div 2" "r - (m + 1) + 1 \<le> (r - l + 1 + 1) div 2" using m lm by auto
  then show "fits N (2 * i) ((l + r) div 2 - l + 1)" "fits N (2 * i + 1) (r - ((l + r) div 2 + 1) + 1)"
    using fits_children [OF assms(2)] assms(1) by (simp_all add: m(1))
qed

lemma changes_length: "changes i t t' \<Longrightarrow> length (sg_segments t') = length (sg_segments t)"
  by (simp add: changes_def)

lemma build_ok:
  "l \<le> r \<Longrightarrow> 0 < i \<Longrightarrow> fits (length (sg_segments t)) i (r - l + 1) \<Longrightarrow>
    \<exists>t'. ngx_segment_tree_build t i l r = Some t' \<and> changes i t t' \<and> sg_rep t' i l r int"
proof (induction "r - l" arbitrary: t i l r rule: less_induct)
  case less
  show ?case
  proof (cases "l = r")
    case True
    let ?t = "t\<lparr>sg_segments := (sg_segments t)[i := (sg_segments t ! i)\<lparr>sg_key := int l\<rparr>]\<rparr>"
    have i: "i < length (sg_segments t)" using less.prems(3) by (rule fits_index)
    then have "ngx_segment_tree_build t i l r = Some ?t"
      using True by (subst ngx_segment_tree_build.simps) (simp add: sg_get_def sg_put_def)
    moreover have "sg_rep ?t i l r int" using True i by (simp add: sg_rep_leaf)
    ultimately show ?thesis using changes_put [OF i] by blast
  next
    case False
    then have lr: "l < r" using less.prems(1) by simp
    let ?m = "(l + r) div 2"
    note h = halves [OF lr less.prems(3)]
    obtain t1 where t1: "ngx_segment_tree_build t (2 * i) l ?m = Some t1" "changes (2 * i) t t1" "sg_rep t1 (2 * i) l ?m int"
      using less.hyps [of ?m l "2 * i" t] h lr less.prems(2) by auto
    obtain t2 where t2: "ngx_segment_tree_build t1 (2 * i + 1) (?m + 1) r = Some t2" "changes (2 * i + 1) t1 t2"
        "sg_rep t2 (2 * i + 1) (?m + 1) r int"
      using less.hyps [of r "?m + 1" "2 * i + 1" t1] h changes_length [OF t1(2)] by auto
    have "sg_rep t2 (2 * i) l ?m int"
      using sibling_kept [OF less.prems(2) t1(3) t2(2) h(1)] by simp
    moreover have "2 * i + 1 < length (sg_segments t2)"
      using fits_index [OF h(4)] changes_length [OF t1(2)] changes_length [OF t2(2)] by simp
    ultimately obtain t3 where t3: "sg_pull t2 i = Some t3" "changes i t2 t3" "sg_rep t3 i l r int"
      using pull_ok [OF less.prems(2) lr _ t2(3)] by blast
    have "ngx_segment_tree_build t i l r = Some t3"
      using False t1(1) t2(1) t3(1) by (subst ngx_segment_tree_build.simps) simp
    then show ?thesis using t3 changes_child [of i] t1(2) t2(2) changes_trans by blast
  qed
qed

text \<open>Inserting and deleting are the same walk to a leaf, which then gets a new key.\<close>

locale sg_update =
  fixes upd :: "sg_tree \<Rightarrow> nat \<Rightarrow> nat \<Rightarrow> nat \<Rightarrow> nat \<Rightarrow> sg_tree option"
    and new_key :: "sg_tree \<Rightarrow> int"
  assumes leaf: "i < length (sg_segments t) \<Longrightarrow>
      \<exists>nd. upd t i pos pos pos = Some (t\<lparr>sg_segments := (sg_segments t)[i := nd]\<rparr>) \<and> sg_key nd = new_key t"
    and node: "l < r \<Longrightarrow> upd t i l r pos =
      Option.bind (if pos \<le> (l + r) div 2 then upd t (2 * i) l ((l + r) div 2) pos
                   else upd t (2 * i + 1) ((l + r) div 2 + 1) r pos) (\<lambda>t1. sg_pull t1 i)"
begin

lemma update_ok:
  "l \<le> pos \<Longrightarrow> pos \<le> r \<Longrightarrow> 0 < i \<Longrightarrow> fits (length (sg_segments t)) i (r - l + 1) \<Longrightarrow> sg_rep t i l r K \<Longrightarrow>
    \<exists>t'. upd t i l r pos = Some t' \<and> changes i t t' \<and> sg_rep t' i l r (K(pos := new_key t))"
proof (induction "r - l" arbitrary: i l r rule: less_induct)
  case less
  show ?case
  proof (cases "l = r")
    case True
    then have p: "l = pos" "r = pos" using less.prems(1,2) by auto
    have i: "i < length (sg_segments t)" using less.prems(4) by (rule fits_index)
    obtain nd where nd: "upd t i pos pos pos = Some (t\<lparr>sg_segments := (sg_segments t)[i := nd]\<rparr>)" "sg_key nd = new_key t"
      using leaf [OF i] by blast
    have "sg_rep (t\<lparr>sg_segments := (sg_segments t)[i := nd]\<rparr>) i l r (K(pos := new_key t))"
      using i p nd(2) by (simp add: sg_rep_leaf)
    then show ?thesis using nd(1) p changes_put [OF i] by blast
  next
    case False
    then have lr: "l < r" using less.prems(1,2) by simp
    let ?m = "(l + r) div 2"
    let ?K = "K(pos := new_key t)"
    note h = halves [OF lr less.prems(4)]
    have rep: "sg_rep t (2 * i) l ?m K" "sg_rep t (2 * i + 1) (?m + 1) r K"
      using less.prems(5) by (simp_all add: sg_rep_node [OF lr])
    have i1: "2 * i + 1 < length (sg_segments t)" by (rule fits_index [OF h(4)])
    have "\<exists>t1. (if pos \<le> ?m then upd t (2 * i) l ?m pos else upd t (2 * i + 1) (?m + 1) r pos) = Some t1
        \<and> changes i t t1 \<and> sg_rep t1 (2 * i) l ?m ?K \<and> sg_rep t1 (2 * i + 1) (?m + 1) r ?K"
    proof (cases "pos \<le> ?m")
      case True
      obtain t1 where t1: "upd t (2 * i) l ?m pos = Some t1" "changes (2 * i) t t1" "sg_rep t1 (2 * i) l ?m ?K"
        using less.hyps [of ?m l "2 * i"] h lr True less.prems(1,3) rep(1) by auto
      have "sg_rep t1 (2 * i + 1) (?m + 1) r K"
        using sibling_kept [OF less.prems(3) rep(2) t1(2)] h(2) by simp
      then have "sg_rep t1 (2 * i + 1) (?m + 1) r ?K" using True h(2) by (elim sg_rep_cong) auto
      then show ?thesis using True t1 changes_child(1) [OF t1(2)] by simp
    next
      case False
      obtain t1 where t1: "upd t (2 * i + 1) (?m + 1) r pos = Some t1" "changes (2 * i + 1) t t1"
          "sg_rep t1 (2 * i + 1) (?m + 1) r ?K"
        using less.hyps [of r "?m + 1" "2 * i + 1"] h False less.prems(2) rep(2) by auto
      have "sg_rep t1 (2 * i) l ?m K" using sibling_kept [OF less.prems(3) rep(1) t1(2) h(1)] by simp
      then have "sg_rep t1 (2 * i) l ?m ?K" using False h(1) by (elim sg_rep_cong) auto
      then show ?thesis using False t1 changes_child(2) [OF t1(2)] by simp
    qed
    then obtain t1 where t1: "(if pos \<le> ?m then upd t (2 * i) l ?m pos else upd t (2 * i + 1) (?m + 1) r pos) = Some t1"
        "changes i t t1" "sg_rep t1 (2 * i) l ?m ?K" "sg_rep t1 (2 * i + 1) (?m + 1) r ?K" by blast
    have "2 * i + 1 < length (sg_segments t1)" using i1 changes_length [OF t1(2)] by simp
    then obtain t2 where "sg_pull t1 i = Some t2" "changes i t1 t2" "sg_rep t2 i l r ?K"
      using pull_ok [OF less.prems(3) lr t1(3,4)] by blast
    then show ?thesis using node [OF lr, of t i pos] t1(1) changes_trans [OF t1(2)] by (simp only: Option.bind.simps) blast
  qed
qed

end

interpretation ins: sg_update "\<lambda>t i l r pos. ngx_segment_tree_insert t i l r pos nd" "\<lambda>_. sg_key nd"
proof unfold_locales
  show "\<exists>nd'. ngx_segment_tree_insert t i pos pos pos nd = Some (t\<lparr>sg_segments := (sg_segments t)[i := nd']\<rparr>)
      \<and> sg_key nd' = sg_key nd" if "i < length (sg_segments t)" for i t pos
    using that by (subst ngx_segment_tree_insert.simps) (auto simp: sg_put_def)
qed (subst ngx_segment_tree_insert.simps, simp)

interpretation del: sg_update ngx_segment_tree_delete sg_extreme
proof unfold_locales
  show "\<exists>nd. ngx_segment_tree_delete t i pos pos pos = Some (t\<lparr>sg_segments := (sg_segments t)[i := nd]\<rparr>)
      \<and> sg_key nd = sg_extreme t" if "i < length (sg_segments t)" for i t pos
    using that by (subst ngx_segment_tree_delete.simps) (auto simp: sg_put_def sg_get_def)
qed (subst ngx_segment_tree_delete.simps, simp)

lemma query_ok:
  "l \<le> ll \<Longrightarrow> ll \<le> rr \<Longrightarrow> rr \<le> r \<Longrightarrow> fits (length (sg_segments t)) i (r - l + 1) \<Longrightarrow> sg_rep t i l r K \<Longrightarrow>
    \<exists>j. ngx_segment_tree_query t i l r ll rr = Some j \<and> j < length (sg_segments t) \<and> under i j \<and> key_at t j = Min (K ` {ll..rr})"
proof (induction "r - l" arbitrary: i l r ll rr rule: less_induct)
  case less
  show ?case
  proof (cases "l = ll \<and> r = rr")
    case True
    then have "ngx_segment_tree_query t i l r ll rr = Some i"
      using less.prems(2) by (subst ngx_segment_tree_query.simps) simp
    then show ?thesis using fits_index [OF less.prems(4)] sg_rep_min [OF less.prems(5)] less.prems(2) True by auto
  next
    case False
    then have lr: "l < r" using less.prems(1-3) by auto
    let ?m = "(l + r) div 2"
    note h = halves [OF lr less.prems(4)]
    have rep: "sg_rep t (2 * i) l ?m K" "sg_rep t (2 * i + 1) (?m + 1) r K"
      using less.prems(5) by (simp_all add: sg_rep_node [OF lr])
    have q: "ngx_segment_tree_query t i l r ll rr =
       (if rr \<le> ?m then ngx_segment_tree_query t (2 * i) l ?m ll rr
        else if ll > ?m then ngx_segment_tree_query t (2 * i + 1) (?m + 1) r ll rr
        else Option.bind (ngx_segment_tree_query t (2 * i) l ?m ll ?m) (\<lambda>l_node.
          Option.bind (ngx_segment_tree_query t (2 * i + 1) (?m + 1) r (?m + 1) rr) (\<lambda>r_node.
          Option.bind (sg_get t l_node) (\<lambda>one. Option.bind (sg_get t r_node) (\<lambda>two.
          Some (if ngx_segment_tree_min one two > 0 then l_node else r_node))))))"
    proof -
      have "(ll > rr) = False" "(l = ll \<and> r = rr) = False" using False less.prems(2) by auto
      then show ?thesis by (simp only: ngx_segment_tree_query.simps [of t i l r ll rr] if_False)
    qed
    consider (left) "rr \<le> ?m" | (right) "ll > ?m" | (both) "ll \<le> ?m" "?m < rr" by linarith
    then show ?thesis
    proof cases
      case left
      then have "ngx_segment_tree_query t i l r ll rr = ngx_segment_tree_query t (2 * i) l ?m ll rr" by (simp only: q if_True)
      then show ?thesis
        using less.hyps [OF h(5) less.prems(1,2) left h(3) rep(1)] under_child(1) [of i] by (simp only:) blast
    next
      case right
      then have "\<not> rr \<le> ?m" using less.prems(2) by linarith
      then have "ngx_segment_tree_query t i l r ll rr = ngx_segment_tree_query t (2 * i + 1) (?m + 1) r ll rr"
        using right by (simp only: q if_False if_True)
      moreover have "?m + 1 \<le> ll" using right by simp
      ultimately show ?thesis
        using less.hyps [OF h(6) _ less.prems(2,3) h(4) rep(2)] under_child(2) [of i] by (simp only:) blast
    next
      case both
      obtain j where j: "ngx_segment_tree_query t (2 * i) l ?m ll ?m = Some j" "j < length (sg_segments t)" "under (2 * i) j"
          "key_at t j = Min (K ` {ll..?m})"
        using less.hyps [of ?m l ll ?m "2 * i"] h lr less.prems(1) rep(1) both by auto
      obtain k where k: "ngx_segment_tree_query t (2 * i + 1) (?m + 1) r (?m + 1) rr = Some k" "k < length (sg_segments t)"
          "under (2 * i + 1) k" "key_at t k = Min (K ` {?m + 1..rr})"
        using less.hyps [of r "?m + 1" "?m + 1" rr "2 * i + 1"] h less.prems(3) rep(2) both by auto
      have "Min (K ` {ll..rr}) = Min (K ` {ll..?m} \<union> K ` {?m + 1..rr})"
        using split_range [of ll ?m rr] both by (simp add: image_Un)
      also have "\<dots> = min (key_at t j) (key_at t k)" unfolding j(4) k(4) using both by (intro Min_Un) auto
      finally have m: "Min (K ` {ll..rr}) = min (key_at t j) (key_at t k)" .
      have "\<not> rr \<le> ?m" "\<not> ll > ?m" using both by auto
      then have "ngx_segment_tree_query t i l r ll rr = Some (if key_at t j < key_at t k then j else k)"
        using j(1,2) k(1,2) by (simp add: q sg_get_def ngx_segment_tree_min_def)
      then show ?thesis unfolding m using j(2) k(2) under_child(1) [OF j(3)] under_child(2) [OF k(3)] by simp
    qed
  qed
qed

section \<open>The positions that are present\<close>

text \<open>A tree over the positions from 1 to \<open>n\<close> in which the positions of \<open>L\<close> have themselves as keys and the
  others the extreme one: this is how a client uses it.\<close>

definition sg_live :: "sg_tree \<Rightarrow> nat \<Rightarrow> nat set \<Rightarrow> bool" where
  "sg_live t n L \<longleftrightarrow> 0 < n \<and> n < 2 ^ 32 - 1 \<and> length (sg_segments t) = (n + 1) * 4 \<and> L \<subseteq> {1..n}
     \<and> sg_extreme t = 2 ^ 32 - 1 \<and> key_at t 0 = 2 ^ 32 - 1
     \<and> sg_rep t 1 1 n (\<lambda>p. if p \<in> L then int p else 2 ^ 32 - 1)"

definition least_in :: "nat set \<Rightarrow> int" where
  "least_in S = (if S = {} then 2 ^ 32 - 1 else int (Min S))"

lemma not_under_root: "\<not> under 1 0"
  by (simp add: under_def)

lemma live_fits: "sg_live t n L \<Longrightarrow> fits (length (sg_segments t)) 1 (n - 1 + 1)"
  using fits_root [of n] by (simp add: sg_live_def)

lemma live_change:
  assumes "sg_live t n L" "changes 1 t t'" "sg_rep t' 1 1 n ((\<lambda>p. if p \<in> L then int p else 2 ^ 32 - 1)(p := k))"
    and "L' \<subseteq> {1..n}" "\<And>q. (if q \<in> L' then int q else 2 ^ 32 - 1) = ((\<lambda>p. if p \<in> L then int p else 2 ^ 32 - 1)(p := k)) q"
  shows "sg_live t' n L'"
proof -
  have "sg_segments t' ! 0 = sg_segments t ! 0" using assms(2) not_under_root by (simp add: changes_def)
  moreover have "sg_rep t' 1 1 n (\<lambda>q. if q \<in> L' then int q else 2 ^ 32 - 1)"
    using assms(3) by (simp only: assms(5))
  ultimately show ?thesis using assms(1,2,4) by (simp add: sg_live_def changes_def)
qed

lemma live_delete:
  assumes "sg_live t n L" "1 \<le> p" "p \<le> n"
  shows "\<exists>t'. ngx_segment_tree_delete t 1 1 n p = Some t' \<and> sg_live t' n (L - {p})"
proof -
  have "sg_rep t 1 1 n (\<lambda>p. if p \<in> L then int p else 2 ^ 32 - 1)" using assms(1) by (simp add: sg_live_def)
  from del.update_ok [OF assms(2,3) _ live_fits [OF assms(1)] this]
  obtain t' where "ngx_segment_tree_delete t 1 1 n p = Some t'" "changes 1 t t'"
      "sg_rep t' 1 1 n ((\<lambda>p. if p \<in> L then int p else 2 ^ 32 - 1)(p := sg_extreme t))" by auto
  moreover have "sg_extreme t = 2 ^ 32 - 1" "L - {p} \<subseteq> {1..n}" using assms(1) by (auto simp: sg_live_def)
  ultimately show ?thesis using live_change [OF assms(1), of t' p "sg_extreme t" "L - {p}"] by auto
qed

lemma live_insert:
  assumes "sg_live t n L" "1 \<le> p" "p \<le> n" "sg_key nd = int p"
  shows "\<exists>t'. ngx_segment_tree_insert t 1 1 n p nd = Some t' \<and> sg_live t' n (insert p L)"
proof -
  have "sg_rep t 1 1 n (\<lambda>p. if p \<in> L then int p else 2 ^ 32 - 1)" using assms(1) by (simp add: sg_live_def)
  from ins.update_ok [OF assms(2,3) _ live_fits [OF assms(1)] this, of nd]
  obtain t' where "ngx_segment_tree_insert t 1 1 n p nd = Some t'" "changes 1 t t'"
      "sg_rep t' 1 1 n ((\<lambda>p. if p \<in> L then int p else 2 ^ 32 - 1)(p := int p))" by (auto simp: assms(4))
  moreover have "insert p L \<subseteq> {1..n}" using assms(1-3) by (auto simp: sg_live_def)
  ultimately show ?thesis using live_change [OF assms(1), of t' p "int p" "insert p L"] by auto
qed

lemma min_keys:
  assumes "L \<subseteq> {1..n}" "n < 2 ^ 32 - 1" "ll \<le> rr"
  shows "Min ((\<lambda>p. if p \<in> L then int p else 2 ^ 32 - 1) ` {ll..rr}) = least_in (L \<inter> {ll..rr})"
proof (cases "L \<inter> {ll..rr} = {}")
  case True
  then have "(\<lambda>p. if p \<in> L then int p else 2 ^ 32 - 1) ` {ll..rr} = {2 ^ 32 - 1}" using assms(3) by force
  then show ?thesis using True by (simp add: least_in_def)
next
  case False
  let ?m = "Min (L \<inter> {ll..rr})"
  have m: "?m \<in> L \<inter> {ll..rr}" using False by (intro Min_in) auto
  moreover have "?m \<le> 4294967295" using m assms(1,2) by auto
  moreover have "?m \<le> p" if "p \<in> L" "ll \<le> p" "p \<le> rr" for p using that by (intro Min_le) auto
  ultimately have "Min ((\<lambda>p. if p \<in> L then int p else 2 ^ 32 - 1) ` {ll..rr}) = int ?m"
    by (intro Min_eqI) auto
  then show ?thesis using False by (simp add: least_in_def)
qed

lemma live_query:
  assumes "sg_live t n L" "1 \<le> ll" "rr \<le> n"
  shows "\<exists>j. ngx_segment_tree_query t 1 1 n ll rr = Some j \<and> j < length (sg_segments t)
    \<and> key_at t j = least_in (L \<inter> {ll..rr})"
proof (cases "ll \<le> rr")
  case True
  have "sg_rep t 1 1 n (\<lambda>p. if p \<in> L then int p else 2 ^ 32 - 1)" "L \<subseteq> {1..n}" "n < 2 ^ 32 - 1"
    using assms(1) by (auto simp: sg_live_def)
  with query_ok [OF assms(2) True assms(3) live_fits [OF assms(1)]] min_keys [OF _ _ True] show ?thesis by fastforce
next
  case False
  then have "ngx_segment_tree_query t 1 1 n ll rr = Some 0" by (subst ngx_segment_tree_query.simps) simp
  moreover have "0 < length (sg_segments t)" "key_at t 0 = 2 ^ 32 - 1" using assms(1) by (auto simp: sg_live_def)
  ultimately show ?thesis using False by (auto simp: least_in_def)
qed

lemma live_build:
  assumes "0 < n" "n < 2 ^ 32 - 1"
  shows "\<exists>t. ngx_segment_tree_build (ngx_segment_tree_init n) 1 1 n = Some t \<and> sg_live t n {1..n}"
proof -
  let ?t = "ngx_segment_tree_init n"
  have "fits (length (sg_segments ?t)) 1 (n - 1 + 1)" using fits_root [OF assms(1)] assms(1) by (simp add: ngx_segment_tree_init_def)
  from build_ok [OF _ _ this] assms(1) obtain t where t: "ngx_segment_tree_build ?t 1 1 n = Some t" "changes 1 ?t t" "sg_rep t 1 1 n int"
    by auto
  have "sg_rep t 1 1 n (\<lambda>p. if p \<in> {1..n} then int p else 2 ^ 32 - 1)"
    using assms(1) by (intro sg_rep_cong [OF t(3)]) auto
  moreover have "key_at t 0 = 2 ^ 32 - 1" using t(2) not_under_root by (simp add: changes_def ngx_segment_tree_init_def)
  ultimately have "sg_live t n {1..n}" using t(2) assms by (simp add: sg_live_def changes_def ngx_segment_tree_init_def)
  then show ?thesis using t(1) by blast
qed

section \<open>Sequences of operations\<close>

datatype sg_op = Sg_insert nat | Sg_delete nat

fun sg_op_pos :: "sg_op \<Rightarrow> nat" where
  "sg_op_pos (Sg_insert p) = p"
| "sg_op_pos (Sg_delete p) = p"

fun sg_run :: "nat \<Rightarrow> sg_op list \<Rightarrow> sg_tree \<Rightarrow> sg_tree option" where
  "sg_run n [] t = Some t"
| "sg_run n (Sg_insert p # ops) t =
     Option.bind (ngx_segment_tree_insert t 1 1 n p \<lparr>sg_key = int p, sg_data = 0\<rparr>) (sg_run n ops)"
| "sg_run n (Sg_delete p # ops) t = Option.bind (ngx_segment_tree_delete t 1 1 n p) (sg_run n ops)"

fun sg_present :: "sg_op list \<Rightarrow> nat set \<Rightarrow> nat set" where
  "sg_present [] L = L"
| "sg_present (Sg_insert p # ops) L = sg_present ops (insert p L)"
| "sg_present (Sg_delete p # ops) L = sg_present ops (L - {p})"

lemma run_live:
  "sg_live t n L \<Longrightarrow> \<forall>op \<in> set ops. 1 \<le> sg_op_pos op \<and> sg_op_pos op \<le> n \<Longrightarrow>
    \<exists>t'. sg_run n ops t = Some t' \<and> sg_live t' n (sg_present ops L)"
proof (induction ops arbitrary: t L)
  case (Cons op ops)
  show ?case
  proof (cases op)
    case (Sg_insert p)
    then obtain t1 where "ngx_segment_tree_insert t 1 1 n p \<lparr>sg_key = int p, sg_data = 0\<rparr> = Some t1" "sg_live t1 n (insert p L)"
      using live_insert [OF Cons.prems(1), of p "\<lparr>sg_key = int p, sg_data = 0\<rparr>"] Cons.prems(2) by auto
    then show ?thesis using Cons.IH [of t1 "insert p L"] Cons.prems(2) Sg_insert by simp
  next
    case (Sg_delete p)
    then obtain t1 where "ngx_segment_tree_delete t 1 1 n p = Some t1" "sg_live t1 n (L - {p})"
      using live_delete [OF Cons.prems(1), of p] Cons.prems(2) by auto
    then show ?thesis using Cons.IH [of t1 "L - {p}"] Cons.prems(2) Sg_delete by simp
  qed
qed simp

text \<open>
  C17: The segment tree computes range minima. After building a tree for the positions 1 to \<open>n\<close> and any
  sequence of deletions and insertions, every operation has returned and stayed inside the array of
  \<open>4 (n + 1)\<close> nodes, and a query for any range gives a node whose key is the least position of the range
  that is present, or the extreme key when there is none.
\<close>

theorem segment_tree_min:
  assumes "0 < n" "n < 2 ^ 32 - 1" "\<forall>op \<in> set ops. 1 \<le> sg_op_pos op \<and> sg_op_pos op \<le> n" "1 \<le> ll" "rr \<le> n"
  shows "\<exists>t0 t j. ngx_segment_tree_build (ngx_segment_tree_init n) 1 1 n = Some t0 \<and> sg_run n ops t0 = Some t
    \<and> ngx_segment_tree_query t 1 1 n ll rr = Some j \<and> j < length (sg_segments t)
    \<and> sg_key (sg_segments t ! j) = least_in (sg_present ops {1..n} \<inter> {ll..rr})"
proof -
  obtain t0 where t0: "ngx_segment_tree_build (ngx_segment_tree_init n) 1 1 n = Some t0" "sg_live t0 n {1..n}"
    using live_build [OF assms(1,2)] by blast
  obtain t where t: "sg_run n ops t0 = Some t" "sg_live t n (sg_present ops {1..n})"
    using run_live [OF t0(2) assms(3)] by blast
  from live_query [OF t(2) assms(4,5)] t0(1) t(1) show ?thesis by blast
qed

theorem segment_tree_min_witness:
  "\<exists>t0 t j. ngx_segment_tree_build (ngx_segment_tree_init 5) 1 1 5 = Some t0 \<and> sg_run 5 [Sg_delete 2, Sg_delete 3, Sg_insert 2] t0 = Some t
    \<and> ngx_segment_tree_query t 1 1 5 3 5 = Some j \<and> j < length (sg_segments t) \<and> sg_key (sg_segments t ! j) = 4"
proof -
  have "least_in (sg_present [Sg_delete 2, Sg_delete 3, Sg_insert 2] {1..5} \<inter> {3..5}) = 4"
  proof -
    have "sg_present [Sg_delete 2, Sg_delete 3, Sg_insert 2] {1..5} \<inter> {3..5} = {4, 5}" by auto
    then show ?thesis by (simp add: least_in_def)
  qed
  then show ?thesis using segment_tree_min [of 5 "[Sg_delete 2, Sg_delete 3, Sg_insert 2]" 3 5] by simp
qed

end
