(* ===== verification/Upstream_Chash.thy ===== *)
theory Upstream_Chash
  imports Ngx_Segment_Tree Ngx_Numbers
begin

text \<open>
  The consistent hash balancer of Tengine,
  \<open>modules/ngx_http_upstream_consistent_hash_module/ngx_http_upstream_consistent_hash_module.c\<close>, with the
  hash of \<open>src/core/ngx_murmurhash.c\<close>. Every server has 160 points per unit of weight on a ring of hashes;
  a request goes to the first point at or after its hash. The points of servers that are down are taken
  out of the segment tree and into a queue, and come back when their time is over.

  An access outside an array and a loop that does not end are \<open>None\<close>. Servers and peers are named by
  their indices; \<open>check_down\<close> stands for the health check module. Memory allocation succeeds.
\<close>

section \<open>The hash\<close>

definition murmur_m :: u32 where
  "murmur_m = 0x5bd1e995"

fun murmur_words :: "u32 \<Rightarrow> byte list \<Rightarrow> u32 \<times> byte list" where
  "murmur_words h (a # b # c # d # data) =
     (let k = ucast a OR push_bit 8 (ucast b) OR push_bit 16 (ucast c) OR push_bit 24 (ucast d);
          k1 = k * murmur_m;
          k2 = (k1 XOR drop_bit 24 k1) * murmur_m
      in murmur_words ((h * murmur_m) XOR k2) data)"
| "murmur_words h data = (h, data)"

fun murmur_tail :: "u32 \<Rightarrow> byte list \<Rightarrow> u32" where
  "murmur_tail h [a, b, c] = (h XOR push_bit 16 (ucast c) XOR push_bit 8 (ucast b) XOR ucast a) * murmur_m"
| "murmur_tail h [a, b] = (h XOR push_bit 8 (ucast b) XOR ucast a) * murmur_m"
| "murmur_tail h [a] = (h XOR ucast a) * murmur_m"
| "murmur_tail h data = h"

definition ngx_murmur_hash2 :: "byte list \<Rightarrow> u32" where
  "ngx_murmur_hash2 data =
     (let (h, rest) = murmur_words (of_nat (length data)) data;
          h1 = murmur_tail h rest;
          h2 = (h1 XOR drop_bit 13 h1) * murmur_m
      in h2 XOR drop_bit 15 h2)"

section \<open>The ring\<close>

record ch_peer =
  cp_id :: "byte list"
  cp_name :: "byte list"
  cp_weight :: nat
  cp_fails :: nat
  cp_max_fails :: nat
  cp_fail_timeout :: int
  cp_down :: bool
  cp_check_index :: nat

record ch_server =
  cs_down :: bool
  cs_hash :: u32
  cs_rnindex :: nat

text \<open>\<open>servers\<close> starts at index 1, like \<open>d_servers\<close>, of which only the timeouts are needed: the queue
  \<open>down_servers\<close> is the list of the indices in it. \<open>real_node\<close> has the points of every peer.\<close>

record ch_conf =
  cc_number :: nat
  cc_servers :: "ch_server list"
  cc_real_node :: "nat list list"
  cc_tree :: sg_tree
  cc_timeout :: "int list"
  cc_down_servers :: "nat list"
  cc_peers :: "ch_peer list"

text \<open>The name is copied to the 256 bytes of \<open>hash_buf\<close> with a zero behind it; names of peers are printed
  socket addresses, which are shorter.\<close>

definition ch_sid :: "ch_peer \<Rightarrow> u64" where
  "ch_sid peer =
     (let sid = ngx_atoi (cp_id peer) in
      if sid = NGX_ERROR \<or> sid > 65535 then ucast (ngx_murmur_hash2 (takeWhile (\<lambda>c. c \<noteq> 0) (cp_name peer)))
      else word_of_int sid)"

definition ch_point_count :: "ch_peer \<Rightarrow> nat" where
  "ch_point_count peer = (let weight = cp_weight peer * 160 in if weight \<ge> 2 ^ 14 then 2 ^ 14 else weight)"

text \<open>The four low bytes of \<open>id\<close> in memory.\<close>

definition id_bytes :: "u64 \<Rightarrow> byte list" where
  "id_bytes n = [ucast n, ucast (drop_bit 8 n), ucast (drop_bit 16 n), ucast (drop_bit 24 n)]"

definition ch_points :: "nat \<Rightarrow> ch_peer \<Rightarrow> ch_server list" where
  "ch_points i peer =
     map (\<lambda>j. \<lparr>cs_down = False, cs_hash = ngx_murmur_hash2 (id_bytes (ch_sid peer * 256 * 16 + of_nat j)), cs_rnindex = i\<rparr>)
       [0..<ch_point_count peer]"

text \<open>The points are sorted by hash. Between equal hashes \<open>ngx_qsort\<close> may leave any order, of which this is
  the stable one.\<close>

definition ngx_http_upstream_init_chash :: "ch_peer list \<Rightarrow> ch_conf option" where
  "ngx_http_upstream_init_chash peers =
     (let points = concat (map (\<lambda>i. ch_points i (peers ! i)) [0..<length peers]);
          n = length points;
          servers = \<lparr>cs_down = False, cs_hash = 0, cs_rnindex = 0\<rparr> # sort_key cs_hash points
      in do {
           tree \<leftarrow> ngx_segment_tree_build (ngx_segment_tree_init n) 1 1 n;
           Some \<lparr>cc_number = n, cc_servers = servers,
             cc_real_node = map (\<lambda>r. filter (\<lambda>i. cs_rnindex (servers ! i) = r) [1..<Suc n]) [0..<length peers],
             cc_tree = tree, cc_timeout = replicate (n + 1) 0, cc_down_servers = [], cc_peers = peers\<rparr>
         })"

section \<open>Selecting a server\<close>

definition ch_peer_of :: "ch_conf \<Rightarrow> nat \<Rightarrow> ch_peer" where
  "ch_peer_of conf i = cc_peers conf ! cs_rnindex (cc_servers conf ! i)"

definition ch_unusable :: "(nat \<Rightarrow> bool) \<Rightarrow> ch_conf \<Rightarrow> nat \<Rightarrow> bool" where
  "ch_unusable check_down conf i =
     (let peer = ch_peer_of conf i in
      check_down (cp_check_index peer) \<or> cp_fails peer > cp_max_fails peer \<or> cp_down peer)"

text \<open>The loop over the queue of servers that are down: those whose time is over come back.\<close>

fun ch_recover :: "(nat \<Rightarrow> bool) \<Rightarrow> int \<Rightarrow> nat list \<Rightarrow> ch_conf \<Rightarrow> ch_conf option" where
  "ch_recover check_down now [] conf = Some conf"
| "ch_recover check_down now (i # ids) conf =
     (if now \<ge> cc_timeout conf ! i \<and> \<not> check_down (cp_check_index (ch_peer_of conf i)) then
        do {
          tree \<leftarrow> ngx_segment_tree_insert (cc_tree conf) 1 1 (cc_number conf) i \<lparr>sg_key = int i, sg_data = 0\<rparr>;
          ch_recover check_down now ids
            (conf\<lparr>cc_peers := (cc_peers conf)[cs_rnindex (cc_servers conf ! i) :=
                (ch_peer_of conf i)\<lparr>cp_fails := 0, cp_down := False\<rparr>],
              cc_servers := (cc_servers conf)[i := (cc_servers conf ! i)\<lparr>cs_down := False\<rparr>],
              cc_down_servers := remove1 i (cc_down_servers conf),
              cc_tree := tree\<rparr>)
        }
      else ch_recover check_down now ids conf)"

text \<open>\<open>ngx_http_upstream_chash_delete_node\<close>\<close>

fun ch_delete_loop :: "int \<Rightarrow> nat list \<Rightarrow> ch_conf \<Rightarrow> ch_conf option" where
  "ch_delete_loop now [] conf = Some conf"
| "ch_delete_loop now (p # servers) conf =
     (if \<not> cs_down (cc_servers conf ! p) then
        do {
          tree \<leftarrow> ngx_segment_tree_delete (cc_tree conf) 1 1 (cc_number conf) p;
          ch_delete_loop now servers
            (conf\<lparr>cc_tree := tree,
              cc_servers := (cc_servers conf)[p := (cc_servers conf ! p)\<lparr>cs_down := True\<rparr>],
              cc_timeout := (cc_timeout conf)[p := now + cp_fail_timeout (ch_peer_of conf p)],
              cc_down_servers := p # cc_down_servers conf\<rparr>)
        }
      else ch_delete_loop now servers conf)"

definition ngx_http_upstream_chash_delete_node :: "int \<Rightarrow> ch_conf \<Rightarrow> nat \<Rightarrow> ch_conf option" where
  "ngx_http_upstream_chash_delete_node now conf i =
     ch_delete_loop now (cc_real_node conf ! cs_rnindex (cc_servers conf ! i)) conf"

function ch_search :: "ch_server list \<Rightarrow> u32 \<Rightarrow> nat \<Rightarrow> nat \<Rightarrow> nat + nat" where
  "ch_search servers hash low hight =
     (if low < hight then
        (let mid = (low + hight) div 2 in
         if cs_hash (servers ! mid) = hash then Inl mid
         else if cs_hash (servers ! mid) < hash then ch_search servers hash (mid + 1) hight
         else ch_search servers hash low mid)
      else Inr low)"
  by pat_completeness auto
termination
  by (relation "measure (\<lambda>(servers, hash, low, hight). hight - low)") auto

declare ch_search.simps [simp del]

definition ngx_http_upstream_chash_get_server_index :: "ch_server list \<Rightarrow> nat \<Rightarrow> u32 \<Rightarrow> nat" where
  "ngx_http_upstream_chash_get_server_index servers n hash =
     (case ch_search servers hash 1 n of
        Inl mid \<Rightarrow> mid
      | Inr low \<Rightarrow> if low = n \<and> cs_hash (servers ! low) < hash then 1 else low)"

text \<open>The choice between the least point below and the least point above, \<open>None\<close> when there is neither.\<close>

definition ch_choose :: "ch_conf \<Rightarrow> u32 \<Rightarrow> int \<Rightarrow> int \<Rightarrow> nat option" where
  "ch_choose conf hash index1 index2 =
     (let extreme = sg_extreme (cc_tree conf);
          h1 = cs_hash (cc_servers conf ! nat index1);
          h2 = cs_hash (cc_servers conf ! nat index2);
          diff1 = (if h1 > hash then h1 - hash else hash - h1);
          diff2 = (if hash > h2 then hash - h2 else h2 - hash)
      in if index1 = extreme then (if index2 = extreme then None else Some (nat index2))
         else if index2 = extreme then Some (nat index1)
         else Some (nat (if diff1 > diff2 then index2 else index1)))"

partial_function (option) ch_failover :: "(nat \<Rightarrow> bool) \<Rightarrow> int \<Rightarrow> u32 \<Rightarrow> nat \<Rightarrow> ch_conf \<Rightarrow> (nat option \<times> ch_conf) option" where
  "ch_failover check_down now hash index conf =
     do {
       j1 \<leftarrow> ngx_segment_tree_query (cc_tree conf) 1 1 (cc_number conf) 1 (index - 1);
       p1 \<leftarrow> sg_get (cc_tree conf) j1;
       j2 \<leftarrow> ngx_segment_tree_query (cc_tree conf) 1 1 (cc_number conf) (index + 1) (cc_number conf);
       p2 \<leftarrow> sg_get (cc_tree conf) j2;
       (case ch_choose conf hash (sg_key p1) (sg_key p2) of
          None \<Rightarrow> Some (None, conf)
        | Some i \<Rightarrow>
            if ch_unusable check_down conf i then
              do {
                conf' \<leftarrow> ngx_http_upstream_chash_delete_node now conf i;
                ch_failover check_down now hash i conf'
              }
            else Some (Some i, conf))
     }"

text \<open>The point that is chosen, or \<open>None\<close> for \<open>NGX_BUSY\<close>.\<close>

definition ngx_http_upstream_get_chash_peer :: "(nat \<Rightarrow> bool) \<Rightarrow> int \<Rightarrow> u32 \<Rightarrow> ch_conf \<Rightarrow> (nat option \<times> ch_conf) option" where
  "ngx_http_upstream_get_chash_peer check_down now hash conf0 =
     do {
       conf \<leftarrow> ch_recover check_down now (cc_down_servers conf0) conf0;
       let index = ngx_http_upstream_chash_get_server_index (cc_servers conf) (cc_number conf) hash;
       (server, conf') \<leftarrow>
         (if ch_unusable check_down conf index then
            do {
              conf1 \<leftarrow> ngx_http_upstream_chash_delete_node now conf index;
              ch_failover check_down now hash index conf1
            }
          else Some (Some index, conf));
       Some (case server of
          None \<Rightarrow> (None, conf')
        | Some i \<Rightarrow> (if cs_down (cc_servers conf' ! i) then None else Some i, conf'))
     }"

definition ngx_http_upstream_free_chash_peer :: "ch_conf \<Rightarrow> nat option \<Rightarrow> bool \<Rightarrow> ch_conf" where
  "ngx_http_upstream_free_chash_peer conf server failed =
     (case server of
        None \<Rightarrow> conf
      | Some i \<Rightarrow>
          if failed then
            conf\<lparr>cc_peers := (cc_peers conf)[cs_rnindex (cc_servers conf ! i) :=
              (ch_peer_of conf i)\<lparr>cp_fails := cp_fails (ch_peer_of conf i) + 1\<rparr>]\<rparr>
          else conf)"

end
