(* ===== verification/Upstream_Chash_Props.thy ===== *)
theory Upstream_Chash_Props
  imports Upstream_Chash
begin

text \<open>
  Properties of the consistent hash balancer: its invariant, which ties the segment tree, the queue of
  servers that are down and the flags of the points together, that selecting a server always returns,
  what it returns, and where it does not do what it should.
\<close>

section \<open>The invariant\<close>

definition ch_live :: "ch_conf \<Rightarrow> nat set" where
  "ch_live conf = {i \<in> {1..cc_number conf}. \<not> cs_down (cc_servers conf ! i)}"

definition ch_ring :: "ch_conf \<Rightarrow> bool" where
  "ch_ring conf \<longleftrightarrow> cc_number conf < 2 ^ 31
     \<and> length (cc_servers conf) = cc_number conf + 1 \<and> length (cc_timeout conf) = cc_number conf + 1
     \<and> length (cc_real_node conf) = length (cc_peers conf)
     \<and> (\<forall>i \<in> {1..cc_number conf}. cs_rnindex (cc_servers conf ! i) < length (cc_peers conf))
     \<and> (\<forall>r < length (cc_peers conf). set (cc_real_node conf ! r) = {i \<in> {1..cc_number conf}. cs_rnindex (cc_servers conf ! i) = r})
     \<and> (\<forall>i j. 1 \<le> i \<and> i \<le> j \<and> j \<le> cc_number conf \<longrightarrow> cs_hash (cc_servers conf ! i) \<le> cs_hash (cc_servers conf ! j))"

definition ch_queue :: "ch_conf \<Rightarrow> bool" where
  "ch_queue conf \<longleftrightarrow> sg_live (cc_tree conf) (cc_number conf) (ch_live conf)
     \<and> distinct (cc_down_servers conf) \<and> set (cc_down_servers conf) = {1..cc_number conf} - ch_live conf"

definition ch_inv :: "ch_conf \<Rightarrow> bool" where
  "ch_inv conf \<longleftrightarrow> ch_ring conf \<and> ch_queue conf"

text \<open>Two states with the same points, which may differ in what is down and in the peers' counters.\<close>

definition same_ring :: "ch_conf \<Rightarrow> ch_conf \<Rightarrow> bool" where
  "same_ring conf conf' \<longleftrightarrow> cc_number conf' = cc_number conf \<and> cc_real_node conf' = cc_real_node conf
     \<and> length (cc_servers conf') = length (cc_servers conf)
     \<and> length (cc_timeout conf') = length (cc_timeout conf) \<and> length (cc_peers conf') = length (cc_peers conf)
     \<and> (\<forall>i. cs_hash (cc_servers conf' ! i) = cs_hash (cc_servers conf ! i)
          \<and> cs_rnindex (cc_servers conf' ! i) = cs_rnindex (cc_servers conf ! i))"

lemma same_ring_refl [simp]: "same_ring conf conf"
  by (simp add: same_ring_def)

lemma same_ring_trans: "same_ring a b \<Longrightarrow> same_ring b c \<Longrightarrow> same_ring a c"
  by (simp add: same_ring_def)

lemma same_ring_inv: "same_ring conf conf' \<Longrightarrow> ch_ring conf \<Longrightarrow> ch_ring conf'"
  by (simp add: same_ring_def ch_ring_def)

lemma set_down_mem: "servers[i := (servers ! i)\<lparr>cs_down := b\<rparr>] ! j \<in> {servers ! j, (servers ! j)\<lparr>cs_down := b\<rparr>}"
  by (metis insertI1 insertI2 list_update_beyond not_less nth_list_update_eq nth_list_update_neq)

lemma set_down_sel:
  "cs_hash (servers[i := (servers ! i)\<lparr>cs_down := b\<rparr>] ! j) = cs_hash (servers ! j)"
  "cs_rnindex (servers[i := (servers ! i)\<lparr>cs_down := b\<rparr>] ! j) = cs_rnindex (servers ! j)"
  using set_down_mem [of servers i b j] by auto

lemma peers_update_same:
  "same_ring conf (conf\<lparr>cc_peers := (cc_peers conf)[r := p], cc_servers := (cc_servers conf)[i := (cc_servers conf ! i)\<lparr>cs_down := b\<rparr>],
     cc_down_servers := q, cc_tree := t\<rparr>)"
  "same_ring conf (conf\<lparr>cc_tree := t, cc_servers := (cc_servers conf)[i := (cc_servers conf ! i)\<lparr>cs_down := b\<rparr>],
     cc_timeout := (cc_timeout conf)[i := w], cc_down_servers := q\<rparr>)"
  "same_ring conf (conf\<lparr>cc_peers := (cc_peers conf)[r := p]\<rparr>)"
  by (simp_all add: same_ring_def set_down_sel)

lemma live_set_down:
  assumes "ch_ring conf" "1 \<le> i" "i \<le> cc_number conf" "cc_number conf' = cc_number conf"
    and "cc_servers conf' = (cc_servers conf)[i := (cc_servers conf ! i)\<lparr>cs_down := b\<rparr>]"
  shows "ch_live conf' = (if b then ch_live conf - {i} else insert i (ch_live conf))"
  using assms by (auto simp: ch_live_def ch_ring_def nth_list_update)

section \<open>Recovering and deleting\<close>

lemma recover_ok:
  "ch_inv conf \<Longrightarrow> set ids \<subseteq> set (cc_down_servers conf) \<Longrightarrow> distinct ids \<Longrightarrow>
    \<exists>conf'. ch_recover check_down now ids conf = Some conf' \<and> ch_inv conf' \<and> same_ring conf conf'
      \<and> ch_live conf \<subseteq> ch_live conf'"
proof (induction ids arbitrary: conf)
  case (Cons i ids)
  show ?case
  proof (cases "now \<ge> cc_timeout conf ! i \<and> \<not> check_down (cp_check_index (ch_peer_of conf i))")
    case True
    have i: "1 \<le> i" "i \<le> cc_number conf" "i \<in> set (cc_down_servers conf)"
      using Cons.prems(1,2) by (auto simp: ch_inv_def ch_queue_def)
    obtain tree where tree: "ngx_segment_tree_insert (cc_tree conf) 1 1 (cc_number conf) i \<lparr>sg_key = int i, sg_data = 0\<rparr> = Some tree"
        "sg_live tree (cc_number conf) (insert i (ch_live conf))"
      using live_insert [of "cc_tree conf" "cc_number conf" "ch_live conf" i "\<lparr>sg_key = int i, sg_data = 0\<rparr>"] Cons.prems(1) i
      by (auto simp: ch_inv_def ch_queue_def)
    define conf1 where "conf1 = conf\<lparr>cc_peers := (cc_peers conf)[cs_rnindex (cc_servers conf ! i) :=
          (ch_peer_of conf i)\<lparr>cp_fails := 0, cp_down := False\<rparr>],
        cc_servers := (cc_servers conf)[i := (cc_servers conf ! i)\<lparr>cs_down := False\<rparr>],
        cc_down_servers := remove1 i (cc_down_servers conf), cc_tree := tree\<rparr>"
    have s: "same_ring conf conf1" unfolding conf1_def by (rule peers_update_same)
    have l: "ch_live conf1 = insert i (ch_live conf)"
      using live_set_down [of conf i conf1 False] Cons.prems(1) i by (simp add: conf1_def ch_inv_def)
    have "ch_queue conf1"
      unfolding ch_queue_def l using tree(2) Cons.prems(1)
      by (auto simp: conf1_def ch_inv_def ch_queue_def)
    then have inv: "ch_inv conf1" using same_ring_inv [OF s] Cons.prems(1) by (simp add: ch_inv_def)
    moreover have "set ids \<subseteq> set (cc_down_servers conf1)" "distinct ids"
      using Cons.prems by (auto simp: conf1_def ch_inv_def ch_queue_def)
    ultimately obtain conf' where "ch_recover check_down now ids conf1 = Some conf'" "ch_inv conf'" "same_ring conf1 conf'"
        "ch_live conf1 \<subseteq> ch_live conf'"
      using Cons.IH by blast
    moreover have "ch_recover check_down now (i # ids) conf = ch_recover check_down now ids conf1"
      using True tree(1) by (simp add: conf1_def)
    ultimately show ?thesis using same_ring_trans [OF s] l by auto
  next
    case False
    then have "ch_recover check_down now (i # ids) conf = ch_recover check_down now ids conf" by (simp only: ch_recover.simps if_False)
    then show ?thesis using Cons by simp
  qed
qed simp

lemma recover_queue_ok:
  "ch_inv conf \<Longrightarrow> \<exists>conf'. ch_recover check_down now (cc_down_servers conf) conf = Some conf' \<and> ch_inv conf'
    \<and> same_ring conf conf' \<and> ch_live conf \<subseteq> ch_live conf'"
  using recover_ok [of conf "cc_down_servers conf" check_down now] by (simp add: ch_inv_def ch_queue_def)

lemma delete_loop_ok:
  "ch_inv conf \<Longrightarrow> set ps \<subseteq> {1..cc_number conf} \<Longrightarrow>
    \<exists>conf'. ch_delete_loop now ps conf = Some conf' \<and> ch_inv conf' \<and> same_ring conf conf'
      \<and> cc_peers conf' = cc_peers conf \<and> ch_live conf' = ch_live conf - set ps"
proof (induction ps arbitrary: conf)
  case (Cons p ps)
  have p: "1 \<le> p" "p \<le> cc_number conf" using Cons.prems(2) by auto
  show ?case
  proof (cases "cs_down (cc_servers conf ! p)")
    case False
    obtain tree where tree: "ngx_segment_tree_delete (cc_tree conf) 1 1 (cc_number conf) p = Some tree"
        "sg_live tree (cc_number conf) (ch_live conf - {p})"
      using live_delete [of "cc_tree conf" "cc_number conf" "ch_live conf" p] Cons.prems(1) p
      by (auto simp: ch_inv_def ch_queue_def)
    define conf1 where "conf1 = conf\<lparr>cc_tree := tree,
        cc_servers := (cc_servers conf)[p := (cc_servers conf ! p)\<lparr>cs_down := True\<rparr>],
        cc_timeout := (cc_timeout conf)[p := now + cp_fail_timeout (ch_peer_of conf p)],
        cc_down_servers := p # cc_down_servers conf\<rparr>"
    have s: "same_ring conf conf1" unfolding conf1_def by (rule peers_update_same)
    have l: "ch_live conf1 = ch_live conf - {p}"
      using live_set_down [of conf p conf1 True] Cons.prems(1) p by (simp add: conf1_def ch_inv_def)
    have pl: "p \<in> ch_live conf" using False p by (simp add: ch_live_def)
    have q: "distinct (cc_down_servers conf)" "set (cc_down_servers conf) = {1..cc_number conf} - ch_live conf"
      using Cons.prems(1) by (simp_all add: ch_inv_def ch_queue_def)
    have "distinct (p # cc_down_servers conf)" using q pl by simp
    moreover have "set (p # cc_down_servers conf) = {1..cc_number conf} - (ch_live conf - {p})"
      unfolding list.set q(2) using p by auto
    ultimately have "ch_queue conf1" unfolding ch_queue_def l using tree(2) by (simp add: conf1_def del: set_simps distinct.simps)
    then have "ch_inv conf1" using same_ring_inv [OF s] Cons.prems(1) by (simp add: ch_inv_def)
    moreover have "set ps \<subseteq> {1..cc_number conf1}" "cc_peers conf1 = cc_peers conf"
      using Cons.prems(2) by (auto simp: conf1_def)
    ultimately obtain conf' where "ch_delete_loop now ps conf1 = Some conf'" "ch_inv conf'" "same_ring conf1 conf'"
        "cc_peers conf' = cc_peers conf" "ch_live conf' = ch_live conf - {p} - set ps"
      using Cons.IH [of conf1] l by auto
    moreover have "ch_delete_loop now (p # ps) conf = ch_delete_loop now ps conf1"
      using False tree(1) by (simp add: conf1_def)
    ultimately show ?thesis using same_ring_trans [OF s] by auto
  next
    case True
    then have "p \<notin> ch_live conf" by (simp add: ch_live_def)
    then show ?thesis using Cons True by auto
  qed
qed simp

text \<open>All points of the server go.\<close>

lemma delete_node_ok:
  assumes "ch_inv conf" "1 \<le> i" "i \<le> cc_number conf"
  shows "\<exists>conf'. ngx_http_upstream_chash_delete_node now conf i = Some conf' \<and> ch_inv conf' \<and> same_ring conf conf'
    \<and> cc_peers conf' = cc_peers conf \<and> ch_live conf' \<subseteq> ch_live conf - {i}"
proof -
  let ?r = "cs_rnindex (cc_servers conf ! i)"
  have "?r < length (cc_peers conf)" using assms by (auto simp: ch_inv_def ch_ring_def)
  then have "set (cc_real_node conf ! ?r) = {j \<in> {1..cc_number conf}. cs_rnindex (cc_servers conf ! j) = ?r}"
    using assms(1) by (auto simp: ch_inv_def ch_ring_def)
  then have "i \<in> set (cc_real_node conf ! ?r)" "set (cc_real_node conf ! ?r) \<subseteq> {1..cc_number conf}" using assms(2,3) by auto
  with delete_loop_ok [OF assms(1), of "cc_real_node conf ! ?r" now] show ?thesis
    by (fastforce simp: ngx_http_upstream_chash_delete_node_def)
qed

section \<open>Searching the ring\<close>

text \<open>The first point at or after a hash, or the first point of all when the hash is beyond the last one.\<close>

definition ring_successor :: "ch_server list \<Rightarrow> nat \<Rightarrow> u32 \<Rightarrow> nat \<Rightarrow> bool" where
  "ring_successor servers n hash i \<longleftrightarrow> 1 \<le> i \<and> i \<le> n \<and>
     (hash \<le> cs_hash (servers ! i) \<and> (\<forall>j. 1 \<le> j \<and> j \<le> n \<and> hash \<le> cs_hash (servers ! j) \<longrightarrow> cs_hash (servers ! i) \<le> cs_hash (servers ! j))
      \<or> i = 1 \<and> (\<forall>j. 1 \<le> j \<and> j \<le> n \<longrightarrow> cs_hash (servers ! j) < hash))"

lemma search_ok:
  assumes "\<And>i j. 1 \<le> i \<Longrightarrow> i \<le> j \<Longrightarrow> j \<le> n \<Longrightarrow> cs_hash (servers ! i) \<le> cs_hash (servers ! j)"
  shows "1 \<le> low \<Longrightarrow> low \<le> hight \<Longrightarrow> hight \<le> n \<Longrightarrow> (\<And>j. 1 \<le> j \<Longrightarrow> j < low \<Longrightarrow> cs_hash (servers ! j) < hash) \<Longrightarrow>
     hight = n \<or> hash < cs_hash (servers ! hight) \<Longrightarrow>
     (case ch_search servers hash low hight of
        Inl m \<Rightarrow> 1 \<le> m \<and> m \<le> n \<and> cs_hash (servers ! m) = hash
      | Inr k \<Rightarrow> 1 \<le> k \<and> k \<le> n \<and> (\<forall>j. 1 \<le> j \<and> j < k \<longrightarrow> cs_hash (servers ! j) < hash) \<and> (k = n \<or> hash < cs_hash (servers ! k)))"
proof (induction "hight - low" arbitrary: low hight rule: less_induct)
  case less
  note step = ch_search.simps [of servers hash low hight]
  show ?case
  proof (cases "low < hight")
    case True
    obtain mid where mid: "(low + hight) div 2 = mid" "low \<le> mid" "mid < hight" using True by auto
    consider (eq) "cs_hash (servers ! mid) = hash" | (lt) "cs_hash (servers ! mid) < hash" | (gt) "hash < cs_hash (servers ! mid)"
      using less_linear by blast
    then show ?thesis
    proof cases
      case eq
      then have "ch_search servers hash low hight = Inl mid" using True mid by (simp add: step)
      then show ?thesis using eq mid less.prems(1,3) by simp
    next
      case lt
      then have e: "ch_search servers hash low hight = ch_search servers hash (mid + 1) hight" using True mid by (auto simp add: step)
      have "cs_hash (servers ! j) < hash" if "1 \<le> j" "j < mid + 1" for j
        using assms [of j mid] that lt mid less.prems(3) by fastforce
      then show ?thesis unfolding e using mid less.prems(1,3,5) by (intro less.hyps) auto
    next
      case gt
      then have e: "ch_search servers hash low hight = ch_search servers hash low mid" using True mid by (auto simp add: step)
      show ?thesis unfolding e using gt mid less.prems(1,3,4) by (intro less.hyps) auto
    qed
  next
    case False
    then have "ch_search servers hash low hight = Inr low" by (simp add: step)
    then show ?thesis using less.prems False by auto
  qed
qed

lemma get_server_index_ok:
  assumes "ch_ring conf" "0 < cc_number conf"
  shows "ring_successor (cc_servers conf) (cc_number conf) hash
    (ngx_http_upstream_chash_get_server_index (cc_servers conf) (cc_number conf) hash)"
proof -
  let ?s = "cc_servers conf" and ?n = "cc_number conf"
  have sorted: "cs_hash (?s ! i) \<le> cs_hash (?s ! j)" if "1 \<le> i" "i \<le> j" "j \<le> ?n" for i j
    using assms(1) that by (simp add: ch_ring_def)
  have r: "case ch_search ?s hash 1 ?n of
        Inl m \<Rightarrow> 1 \<le> m \<and> m \<le> ?n \<and> cs_hash (?s ! m) = hash
      | Inr k \<Rightarrow> 1 \<le> k \<and> k \<le> ?n \<and> (\<forall>j. 1 \<le> j \<and> j < k \<longrightarrow> cs_hash (?s ! j) < hash) \<and> (k = ?n \<or> hash < cs_hash (?s ! k))"
    using assms(2) by (intro search_ok sorted) auto
  show ?thesis
  proof (cases "ch_search ?s hash 1 ?n")
    case (Inl m)
    then show ?thesis using r by (simp add: ngx_http_upstream_chash_get_server_index_def ring_successor_def)
  next
    case (Inr k)
    then have k: "1 \<le> k" "k \<le> ?n" "\<And>j. 1 \<le> j \<Longrightarrow> j < k \<Longrightarrow> cs_hash (?s ! j) < hash" "k = ?n \<or> hash < cs_hash (?s ! k)"
      using r by auto
    show ?thesis
    proof (cases "k = ?n \<and> cs_hash (?s ! k) < hash")
      case True
      have "cs_hash (?s ! j) < hash" if "1 \<le> j" "j \<le> ?n" for j using sorted [of j k] that k True by auto
      then show ?thesis using Inr True k by (auto simp: ngx_http_upstream_chash_get_server_index_def ring_successor_def)
    next
      case False
      have "cs_hash (?s ! k) \<le> cs_hash (?s ! j)" if "1 \<le> j" "j \<le> ?n" "hash \<le> cs_hash (?s ! j)" for j
        using that k(3) [of j] sorted [of k j] k(1) by (cases "j < k") auto
      moreover have "hash \<le> cs_hash (?s ! k)" using False k(4) by auto
      ultimately show ?thesis
        using Inr False k by (auto simp: ngx_http_upstream_chash_get_server_index_def ring_successor_def)
    qed
  qed
qed

section \<open>Failing over\<close>

lemma least_in_cases:
  assumes "S \<subseteq> {1..n}" "n < 2 ^ 32 - 1"
  shows "least_in S = 2 ^ 32 - 1 \<longleftrightarrow> S = {}" "S \<noteq> {} \<Longrightarrow> nat (least_in S) \<in> S"
proof -
  have m: "S \<noteq> {} \<Longrightarrow> Min S \<in> S" using assms(1) finite_subset by (intro Min_in) auto
  then have "S \<noteq> {} \<Longrightarrow> Min S < 4294967295" using assms by fastforce
  then show "least_in S = 2 ^ 32 - 1 \<longleftrightarrow> S = {}" by (cases "S = {}") (simp_all add: least_in_def)
  show "S \<noteq> {} \<Longrightarrow> nat (least_in S) \<in> S" using m by (simp add: least_in_def)
qed

lemma choose_ok:
  assumes "sg_extreme (cc_tree conf) = 2 ^ 32 - 1" "L \<subseteq> {1..n}" "n < 2 ^ 32 - 1" "index \<notin> L"
  shows "case ch_choose conf hash (least_in (L \<inter> {1..index - 1})) (least_in (L \<inter> {index + 1..n})) of
      None \<Rightarrow> L = {} | Some i \<Rightarrow> i \<in> L"
proof -
  let ?a = "L \<inter> {1..index - 1}" and ?b = "L \<inter> {index + 1..n}"
  have u: "L = ?a \<union> ?b"
  proof
    show "L \<subseteq> ?a \<union> ?b"
    proof
      fix x assume "x \<in> L"
      then have "x \<noteq> index" "1 \<le> x" "x \<le> n" using assms(2,4) by auto
      then show "x \<in> ?a \<union> ?b" using \<open>x \<in> L\<close> by (cases "x < index") auto
    qed
  qed auto
  have ab: "?a \<subseteq> {1..n}" "?b \<subseteq> {1..n}" using assms(2) by auto
  note a = least_in_cases [OF ab(1) assms(3)] and b = least_in_cases [OF ab(2) assms(3)]
  show ?thesis
  proof (cases "?a = {}")
    case True
    then show ?thesis using u b a(1) assms(1) by (cases "?b = {}") (auto simp: ch_choose_def Let_def)
  next
    case False
    then show ?thesis using u a b assms(1) by (cases "?b = {}") (auto simp: ch_choose_def Let_def)
  qed
qed

lemma failover_ok:
  "ch_inv conf \<Longrightarrow> 1 \<le> index \<Longrightarrow> index \<le> cc_number conf \<Longrightarrow> index \<notin> ch_live conf \<Longrightarrow>
    \<exists>r conf'. ch_failover check_down now hash index conf = Some (r, conf') \<and> ch_inv conf' \<and> same_ring conf conf'
      \<and> cc_peers conf' = cc_peers conf
      \<and> (case r of None \<Rightarrow> ch_live conf' = {} | Some i \<Rightarrow> i \<in> ch_live conf' \<and> \<not> ch_unusable check_down conf' i)"
proof (induction "card (ch_live conf)" arbitrary: index conf rule: less_induct)
  case less
  let ?L = "ch_live conf" and ?n = "cc_number conf" and ?t = "cc_tree conf"
  have sg: "sg_live ?t ?n ?L" using less.prems(1) by (simp add: ch_inv_def ch_queue_def)
  then have L: "?L \<subseteq> {1..?n}" "?n < 2 ^ 32 - 1" "sg_extreme ?t = 2 ^ 32 - 1" by (simp_all add: sg_live_def)
  obtain j1 where j1: "ngx_segment_tree_query ?t 1 1 ?n 1 (index - 1) = Some j1" "j1 < length (sg_segments ?t)"
      "sg_key (sg_segments ?t ! j1) = least_in (?L \<inter> {1..index - 1})"
    using live_query [OF sg, of 1 "index - 1"] less.prems(3) le_trans [OF diff_le_self less.prems(3), of 1] by auto
  obtain j2 where j2: "ngx_segment_tree_query ?t 1 1 ?n (index + 1) ?n = Some j2" "j2 < length (sg_segments ?t)"
      "sg_key (sg_segments ?t ! j2) = least_in (?L \<inter> {index + 1..?n})"
    using live_query [OF sg, of "index + 1" ?n] by auto
  let ?c = "ch_choose conf hash (least_in (?L \<inter> {1..index - 1})) (least_in (?L \<inter> {index + 1..?n}))"
  have c: "case ?c of None \<Rightarrow> ?L = {} | Some i \<Rightarrow> i \<in> ?L" by (rule choose_ok [OF L(3,1,2) less.prems(4)])
  have step: "ch_failover check_down now hash index conf =
     (case ?c of
        None \<Rightarrow> Some (None, conf)
      | Some i \<Rightarrow>
          if ch_unusable check_down conf i then
            Option.bind (ngx_http_upstream_chash_delete_node now conf i) (\<lambda>conf'. ch_failover check_down now hash i conf')
          else Some (Some i, conf))"
    using j1 j2 by (subst ch_failover.simps) (simp add: sg_get_def)
  show ?case
  proof (cases ?c)
    case None
    then show ?thesis using step c less.prems(1) by simp
  next
    case (Some i)
    then have i: "i \<in> ?L" "1 \<le> i" "i \<le> ?n" using c L(1) by auto
    show ?thesis
    proof (cases "ch_unusable check_down conf i")
      case False
      then show ?thesis using step Some i(1) less.prems(1) by simp
    next
      case True
      obtain conf1 where conf1: "ngx_http_upstream_chash_delete_node now conf i = Some conf1" "ch_inv conf1" "same_ring conf conf1"
          "cc_peers conf1 = cc_peers conf" "ch_live conf1 \<subseteq> ?L - {i}"
        using delete_node_ok [OF less.prems(1) i(2,3)] by blast
      have "finite ?L" using L(1) finite_subset by blast
      then have "card (ch_live conf1) < card ?L" using conf1(5) i(1) by (intro psubset_card_mono) auto
      moreover have "i \<le> cc_number conf1" "i \<notin> ch_live conf1" using i(3) conf1(3,5) by (auto simp: same_ring_def)
      ultimately obtain r conf' where "ch_failover check_down now hash i conf1 = Some (r, conf')" "ch_inv conf'" "same_ring conf1 conf'"
          "cc_peers conf' = cc_peers conf1"
          "case r of None \<Rightarrow> ch_live conf' = {} | Some i \<Rightarrow> i \<in> ch_live conf' \<and> \<not> ch_unusable check_down conf' i"
        using less.hyps [OF _ conf1(2) i(2)] by blast
      then show ?thesis using step Some True conf1(1,4) same_ring_trans [OF conf1(3)] by simp
    qed
  qed
qed

text \<open>
  C9: Selecting a server by consistent hash always returns, and returns a usable one. From every state of
  the balancer, whatever servers are down, time out or come back, the selection ends and keeps the
  invariant. The server it gives is up, has not failed too often and passes its check; when the owner of
  the hash, which is the first point of the ring at or after it, is usable and not waiting for its
  timeout, it is the owner. It gives up only when no point is left, or when the owner is usable but still
  waiting.
\<close>

theorem chash_get_peer:
  assumes "ch_inv conf"
  shows "\<exists>server conf1 conf'. ngx_http_upstream_get_chash_peer check_down now hash conf = Some (server, conf')
    \<and> ch_recover check_down now (cc_down_servers conf) conf = Some conf1 \<and> ch_inv conf' \<and> same_ring conf conf'
    \<and> (case server of
         Some i \<Rightarrow> i \<in> ch_live conf' \<and> \<not> ch_unusable check_down conf' i
           \<and> (\<exists>owner. ring_successor (cc_servers conf) (cc_number conf) hash owner
               \<and> (i = owner \<or> ch_unusable check_down conf1 owner))
       | None \<Rightarrow> ch_live conf' = {} \<or> (\<exists>owner. ring_successor (cc_servers conf) (cc_number conf) hash owner
           \<and> \<not> ch_unusable check_down conf1 owner \<and> owner \<notin> ch_live conf1))"
proof -
  obtain conf1 where conf1: "ch_recover check_down now (cc_down_servers conf) conf = Some conf1" "ch_inv conf1" "same_ring conf conf1"
    using recover_queue_ok [OF assms] by blast
  let ?index = "ngx_http_upstream_chash_get_server_index (cc_servers conf1) (cc_number conf1) hash"
  have "0 < cc_number conf1" "ch_ring conf1" using conf1(2) by (auto simp: ch_inv_def ch_queue_def sg_live_def)
  then have "ring_successor (cc_servers conf1) (cc_number conf1) hash ?index" by (intro get_server_index_ok)
  then have own: "ring_successor (cc_servers conf) (cc_number conf) hash ?index" and i: "1 \<le> ?index" "?index \<le> cc_number conf1"
    using conf1(3) by (simp_all add: ring_successor_def same_ring_def)
  show ?thesis
  proof (cases "ch_unusable check_down conf1 ?index")
    case False
    then have g: "ngx_http_upstream_get_chash_peer check_down now hash conf =
        Some (if cs_down (cc_servers conf1 ! ?index) then None else Some ?index, conf1)"
      using conf1(1) by (simp add: ngx_http_upstream_get_chash_peer_def Let_def)
    have "?index \<in> ch_live conf1 \<longleftrightarrow> \<not> cs_down (cc_servers conf1 ! ?index)" using i by (simp add: ch_live_def)
    then show ?thesis using g conf1 own False by auto
  next
    case True
    obtain conf2 where conf2: "ngx_http_upstream_chash_delete_node now conf1 ?index = Some conf2" "ch_inv conf2" "same_ring conf1 conf2"
        "ch_live conf2 \<subseteq> ch_live conf1 - {?index}"
      using delete_node_ok [OF conf1(2) i] by blast
    have "?index \<le> cc_number conf2" "?index \<notin> ch_live conf2" using i(2) conf2(3,4) by (auto simp: same_ring_def)
    then obtain r conf' where f: "ch_failover check_down now hash ?index conf2 = Some (r, conf')" "ch_inv conf'" "same_ring conf2 conf'"
        "case r of None \<Rightarrow> ch_live conf' = {} | Some i \<Rightarrow> i \<in> ch_live conf' \<and> \<not> ch_unusable check_down conf' i"
      using failover_ok [OF conf2(2) i(1)] by blast
    have "ngx_http_upstream_get_chash_peer check_down now hash conf =
        Some (case r of None \<Rightarrow> (None, conf') | Some i \<Rightarrow> (if cs_down (cc_servers conf' ! i) then None else Some i, conf'))"
      using conf1(1) conf2(1) f(1) True by (simp add: ngx_http_upstream_get_chash_peer_def Let_def)
    moreover have "same_ring conf conf'" using conf1(3) conf2(3) f(3) same_ring_trans by blast
    moreover have "i \<in> ch_live conf' \<Longrightarrow> \<not> cs_down (cc_servers conf' ! i)" for i by (simp add: ch_live_def)
    ultimately show ?thesis using f(2,4) conf1(1) own True by (cases r) auto
  qed
qed

section \<open>Setting up and freeing\<close>

definition ch_all_points :: "ch_peer list \<Rightarrow> ch_server list" where
  "ch_all_points peers = concat (map (\<lambda>i. ch_points i (peers ! i)) [0..<length peers])"

lemma points_sel: "x \<in> set (ch_all_points peers) \<Longrightarrow> \<not> cs_down x \<and> cs_rnindex x < length peers"
  by (auto simp: ch_all_points_def ch_points_def)

lemma points_positive:
  assumes "peers \<noteq> []" "\<forall>peer \<in> set peers. 0 < cp_weight peer"
  shows "0 < length (ch_all_points peers)"
proof -
  have "0 < ch_point_count (peers ! 0)" using assms by (simp add: ch_point_count_def Let_def)
  moreover have "[0..<length peers] = 0 # [1..<length peers]" using assms(1) by (simp add: upt_conv_Cons)
  ultimately show ?thesis by (simp add: ch_all_points_def ch_points_def)
qed

lemma init_ok:
  assumes "peers \<noteq> []" "\<forall>peer \<in> set peers. 0 < cp_weight peer" "length (ch_all_points peers) < 2 ^ 31"
  shows "\<exists>conf. ngx_http_upstream_init_chash peers = Some conf \<and> ch_inv conf
    \<and> mset (tl (cc_servers conf)) = mset (ch_all_points peers) \<and> cc_peers conf = peers \<and> cc_down_servers conf = []"
proof -
  let ?pts = "sort_key cs_hash (ch_all_points peers)" and ?n = "length (ch_all_points peers)"
  let ?s = "\<lparr>cs_down = False, cs_hash = 0, cs_rnindex = 0\<rparr> # ?pts"
  obtain tree where tree: "ngx_segment_tree_build (ngx_segment_tree_init ?n) 1 1 ?n = Some tree" "sg_live tree ?n {1..?n}"
    using live_build [of ?n] points_positive [OF assms(1,2)] assms(3) by auto
  define conf where "conf = \<lparr>cc_number = ?n, cc_servers = ?s,
     cc_real_node = map (\<lambda>r. filter (\<lambda>i. cs_rnindex (?s ! i) = r) [1..<Suc ?n]) [0..<length peers],
     cc_tree = tree, cc_timeout = replicate (?n + 1) 0, cc_down_servers = [], cc_peers = peers\<rparr>"
  have init: "ngx_http_upstream_init_chash peers = Some conf"
    using tree(1) by (simp add: ngx_http_upstream_init_chash_def conf_def ch_all_points_def Let_def)
  have pt: "?s ! i \<in> set (ch_all_points peers)" if "1 \<le> i" "i \<le> ?n" for i
    using that nth_mem [of "i - 1" ?pts] by (simp add: nth_Cons')
  have "\<not> cs_down (?s ! i)" if "1 \<le> i" "i \<le> ?n" for i using points_sel [OF pt [OF that]] by simp
  then have "ch_live conf = {1..?n}" by (auto simp: ch_live_def conf_def)
  then have "ch_queue conf" using tree(2) by (simp add: ch_queue_def conf_def)
  moreover have "ch_ring conf"
  proof -
    have "cs_hash (?s ! i) \<le> cs_hash (?s ! j)" if "1 \<le> i" "i \<le> j" "j \<le> ?n" for i j
      using that sorted_nth_mono [OF sorted_sort_key [of cs_hash "ch_all_points peers"], of "i - 1" "j - 1"]
      by (simp add: nth_Cons')
    moreover have "set (filter (\<lambda>i. cs_rnindex (?s ! i) = r) [1..<Suc ?n]) = {i \<in> {1..?n}. cs_rnindex (?s ! i) = r}" for r by auto
    moreover have "cs_rnindex (?s ! i) < length peers" if "1 \<le> i" "i \<le> ?n" for i using points_sel [OF pt [OF that]] by simp
    ultimately show ?thesis using assms(3) by (simp add: ch_ring_def conf_def del: upt_Suc)
  qed
  ultimately show ?thesis using init by (auto simp: ch_inv_def conf_def)
qed

text \<open>
  C18: The balancer keeps its books. Setting up a group of servers with positive weights gives a state
  whose points are those of the servers, sorted by hash, all of them present in the segment tree and none
  in the queue of servers that are down; and freeing a server, failed or not, keeps the tree, the queue and
  the flags of the points in agreement.
\<close>

theorem chash_invariant:
  assumes "peers \<noteq> []" "\<forall>peer \<in> set peers. 0 < cp_weight peer" "length (ch_all_points peers) < 2 ^ 31"
  shows "(\<exists>conf. ngx_http_upstream_init_chash peers = Some conf \<and> ch_inv conf
      \<and> mset (tl (cc_servers conf)) = mset (ch_all_points peers) \<and> ch_live conf = {1..cc_number conf})
    \<and> (ch_inv conf \<longrightarrow> ch_inv (ngx_http_upstream_free_chash_peer conf server failed))"
proof -
  have "ch_live conf = {1..cc_number conf}" if "ch_inv conf" "cc_down_servers conf = []" for conf
    using that by (auto simp: ch_inv_def ch_queue_def ch_live_def)
  moreover have "ch_inv (ngx_http_upstream_free_chash_peer conf server failed)" if "ch_inv conf"
  proof (cases "\<exists>i. server = Some i \<and> failed")
    case True
    then obtain i where i: "server = Some i" "failed" by blast
    let ?c = "ngx_http_upstream_free_chash_peer conf server failed"
    have "same_ring conf ?c" using i peers_update_same(3) by (simp add: ngx_http_upstream_free_chash_peer_def)
    moreover have "ch_queue ?c" using that i by (simp add: ngx_http_upstream_free_chash_peer_def ch_inv_def ch_queue_def ch_live_def)
    ultimately show ?thesis using that same_ring_inv by (simp add: ch_inv_def)
  next
    case False
    then have "ngx_http_upstream_free_chash_peer conf server failed = conf"
      by (auto simp: ngx_http_upstream_free_chash_peer_def split: option.split)
    then show ?thesis using that by simp
  qed
  ultimately show ?thesis using init_ok [OF assms] by blast
qed

section \<open>Where it goes wrong\<close>

definition ch_revived :: "nat \<Rightarrow> sg_tree \<Rightarrow> ch_conf \<Rightarrow> ch_conf" where
  "ch_revived i tree conf = conf\<lparr>cc_peers := (cc_peers conf)[cs_rnindex (cc_servers conf ! i) :=
        (ch_peer_of conf i)\<lparr>cp_fails := 0, cp_down := False\<rparr>],
      cc_servers := (cc_servers conf)[i := (cc_servers conf ! i)\<lparr>cs_down := False\<rparr>],
      cc_down_servers := remove1 i (cc_down_servers conf),
      cc_tree := tree\<rparr>"

lemma recover_cases:
  assumes "ch_recover check_down now (i # ids) conf = Some conf'"
  obtains (revive) tree where "ch_recover check_down now ids (ch_revived i tree conf) = Some conf'"
      "now \<ge> cc_timeout conf ! i" "\<not> check_down (cp_check_index (ch_peer_of conf i))"
    | (stay) "ch_recover check_down now ids conf = Some conf'"
      "\<not> (now \<ge> cc_timeout conf ! i \<and> \<not> check_down (cp_check_index (ch_peer_of conf i)))"
  using assms that by (auto simp: ch_revived_def bind_eq_Some_conv split: if_splits)

text \<open>A peer and a point that are up stay up.\<close>

definition ch_up :: "nat \<Rightarrow> ch_conf \<Rightarrow> bool" where
  "ch_up i conf \<longleftrightarrow> \<not> cs_down (cc_servers conf ! i) \<and> \<not> cp_down (ch_peer_of conf i) \<and> cp_fails (ch_peer_of conf i) = 0"

lemma revived_peer:
  assumes "cs_rnindex (cc_servers conf ! j) < length (cc_peers conf)"
  shows "ch_peer_of (ch_revived j tree conf) i =
    (if cs_rnindex (cc_servers conf ! i) = cs_rnindex (cc_servers conf ! j)
     then (ch_peer_of conf i)\<lparr>cp_fails := 0, cp_down := False\<rparr> else ch_peer_of conf i)"
  using assms by (simp add: ch_revived_def ch_peer_of_def set_down_sel nth_list_update)

lemma revived_down: "cs_down (cc_servers (ch_revived j tree conf) ! i) \<Longrightarrow> cs_down (cc_servers conf ! i)"
  using set_down_mem [of "cc_servers conf" j False i] by (auto simp: ch_revived_def)

lemma revived_same: "same_ring conf (ch_revived j tree conf)"
  unfolding ch_revived_def by (rule peers_update_same)

lemma recover_keeps_up:
  "ch_recover check_down now ids conf = Some conf' \<Longrightarrow> (\<And>j. j \<in> set ids \<Longrightarrow> cs_rnindex (cc_servers conf ! j) < length (cc_peers conf))
    \<Longrightarrow> ch_up i conf \<Longrightarrow> ch_up i conf'"
proof (induction ids arbitrary: conf)
  case (Cons j ids)
  from Cons.prems(1) show ?case
  proof (cases rule: recover_cases)
    case (revive tree)
    have "ch_up i (ch_revived j tree conf)"
      using Cons.prems(2,3) revived_down by (auto simp: ch_up_def revived_peer)
    moreover have "cs_rnindex (cc_servers (ch_revived j tree conf) ! k) < length (cc_peers (ch_revived j tree conf))" if "k \<in> set ids" for k
      using revived_same [of conf j tree] Cons.prems(2) [of k] that by (simp add: same_ring_def)
    ultimately show ?thesis using Cons.IH [OF revive(1)] by blast
  next
    case stay
    then show ?thesis using Cons by auto
  qed
qed simp

lemma recover_revives:
  "ch_recover check_down now ids conf = Some conf' \<Longrightarrow> (\<And>j. j \<in> set ids \<Longrightarrow> cs_rnindex (cc_servers conf ! j) < length (cc_peers conf))
    \<Longrightarrow> i \<in> set ids \<Longrightarrow> i < length (cc_servers conf) \<Longrightarrow> cc_timeout conf ! i \<le> now
    \<Longrightarrow> \<not> check_down (cp_check_index (ch_peer_of conf i)) \<Longrightarrow> ch_up i conf'"
proof (induction ids arbitrary: conf)
  case (Cons j ids)
  from Cons.prems(1) show ?case
  proof (cases rule: recover_cases)
    case (revive tree)
    let ?c = "ch_revived j tree conf"
    have r: "cs_rnindex (cc_servers ?c ! k) < length (cc_peers ?c)" if "k \<in> set ids" for k
      using revived_same [of conf j tree] Cons.prems(2) [of k] that by (simp add: same_ring_def)
    show ?thesis
    proof (cases "j = i")
      case True
      have "ch_up i ?c" using True Cons.prems(2) [of j] Cons.prems(4) revived_peer [of conf j tree i]
        by (simp add: ch_up_def) (simp add: ch_revived_def)
      then show ?thesis using recover_keeps_up [OF revive(1) r] by blast
    next
      case False
      have "cp_check_index (ch_peer_of ?c i) = cp_check_index (ch_peer_of conf i)"
        using Cons.prems(2) [of j] by (simp add: revived_peer)
      moreover have "cc_timeout ?c = cc_timeout conf" "length (cc_servers ?c) = length (cc_servers conf)"
        by (simp_all add: ch_revived_def)
      ultimately show ?thesis using Cons.IH [OF revive(1) r] Cons.prems(3-6) False by auto
    qed
  next
    case stay
    then have "j \<noteq> i" using Cons.prems(5,6) by auto
    then show ?thesis using Cons.IH [OF stay(1)] Cons.prems(2-6) by auto
  qed
qed simp

text \<open>What recovering leaves alone: the check index of a peer, and a point whose time is not over; and a peer
  only gets better.\<close>

lemma recover_peer:
  "ch_recover check_down now ids conf = Some conf' \<Longrightarrow> (\<And>j. j \<in> set ids \<Longrightarrow> cs_rnindex (cc_servers conf ! j) < length (cc_peers conf))
    \<Longrightarrow> cp_check_index (ch_peer_of conf' i) = cp_check_index (ch_peer_of conf i)
      \<and> (\<not> ch_unusable check_down conf i \<longrightarrow> \<not> ch_unusable check_down conf' i)
      \<and> (now < cc_timeout conf ! i \<longrightarrow> cs_down (cc_servers conf ! i) \<longrightarrow> cs_down (cc_servers conf' ! i))"
proof (induction ids arbitrary: conf)
  case (Cons j ids)
  from Cons.prems(1) show ?case
  proof (cases rule: recover_cases)
    case (revive tree)
    let ?c = "ch_revived j tree conf"
    have r: "cs_rnindex (cc_servers ?c ! k) < length (cc_peers ?c)" if "k \<in> set ids" for k
      using revived_same [of conf j tree] Cons.prems(2) [of k] that by (simp add: same_ring_def)
    have p: "cp_check_index (ch_peer_of ?c i) = cp_check_index (ch_peer_of conf i)"
        "\<not> ch_unusable check_down conf i \<Longrightarrow> \<not> ch_unusable check_down ?c i"
      using Cons.prems(2) [of j] by (auto simp: revived_peer ch_unusable_def Let_def)
    have "cs_down (cc_servers ?c ! i)" if "now < cc_timeout conf ! i" "cs_down (cc_servers conf ! i)"
    proof -
      have "i \<noteq> j" using that(1) revive(2) by auto
      then show ?thesis using that(2) by (simp add: ch_revived_def)
    qed
    moreover have "cc_timeout ?c = cc_timeout conf" by (simp add: ch_revived_def)
    ultimately show ?thesis using Cons.IH [OF revive(1) r] p by auto
  next
    case stay
    then show ?thesis using Cons by auto
  qed
qed simp

lemma search_cong:
  "(\<And>i. cs_hash (a ! i) = cs_hash (b ! i)) \<Longrightarrow> ch_search a hash low hight = ch_search b hash low hight"
proof (induction a hash low hight rule: ch_search.induct)
  case (1 a hash low hight)
  then show ?case by (subst (1 2) ch_search.simps) (simp add: Let_def)
qed

lemma index_same_ring:
  assumes "same_ring conf conf'"
  shows "ngx_http_upstream_chash_get_server_index (cc_servers conf') (cc_number conf') hash
    = ngx_http_upstream_chash_get_server_index (cc_servers conf) (cc_number conf) hash"
proof -
  have "ch_search (cc_servers conf') hash 1 (cc_number conf) = ch_search (cc_servers conf) hash 1 (cc_number conf)"
    using assms by (intro search_cong) (simp add: same_ring_def)
  then show ?thesis using assms by (simp add: ngx_http_upstream_chash_get_server_index_def same_ring_def split: sum.splits)
qed

lemma down_rnindex:
  "ch_inv conf \<Longrightarrow> j \<in> set (cc_down_servers conf) \<Longrightarrow> cs_rnindex (cc_servers conf ! j) < length (cc_peers conf)"
  by (auto simp: ch_inv_def ch_ring_def ch_queue_def)

text \<open>
  C39: A server marked down in the configuration comes back. When the points of a server that is down by
  its configuration have been taken out of the ring and its timeout is over, the next request clears the
  mark, and is sent to that server when it owns the hash.
\<close>

theorem chash_revives_down:
  assumes "ch_inv conf" "i \<in> set (cc_down_servers conf)" "cp_down (ch_peer_of conf i)" "cc_timeout conf ! i \<le> now"
    and "\<not> check_down (cp_check_index (ch_peer_of conf i))"
    and "ngx_http_upstream_chash_get_server_index (cc_servers conf) (cc_number conf) hash = i"
  shows "\<exists>conf'. ngx_http_upstream_get_chash_peer check_down now hash conf = Some (Some i, conf') \<and> \<not> cp_down (ch_peer_of conf' i)"
proof -
  obtain conf1 where conf1: "ch_recover check_down now (cc_down_servers conf) conf = Some conf1" "same_ring conf conf1"
    using recover_queue_ok [OF assms(1)] by blast
  have "i < length (cc_servers conf)" using assms(1,2) by (auto simp: ch_inv_def ch_ring_def ch_queue_def)
  then have up: "ch_up i conf1"
    using recover_revives [OF conf1(1) down_rnindex [OF assms(1)] assms(2) _ assms(4,5)] by blast
  moreover have "\<not> check_down (cp_check_index (ch_peer_of conf1 i))"
    using recover_peer [OF conf1(1) down_rnindex [OF assms(1)]] assms(5) by simp
  ultimately have "\<not> ch_unusable check_down conf1 i" by (simp add: ch_up_def ch_unusable_def Let_def)
  moreover have "ngx_http_upstream_chash_get_server_index (cc_servers conf1) (cc_number conf1) hash = i"
    using index_same_ring [OF conf1(2)] assms(6) by simp
  ultimately have "ngx_http_upstream_get_chash_peer check_down now hash conf = Some (Some i, conf1)"
    using conf1(1) up by (simp add: ngx_http_upstream_get_chash_peer_def Let_def ch_up_def)
  then show ?thesis using up by (simp add: ch_up_def)
qed

text \<open>
  C40: A healthy server that is waiting for its timeout makes requests fail. When the owner of a hash is
  usable again but its points are still out of the ring until their timeout, as after a health check that
  has recovered, the selection gives up although other servers are up.
\<close>

theorem chash_busy_with_live_servers:
  assumes "ch_inv conf" "ngx_http_upstream_chash_get_server_index (cc_servers conf) (cc_number conf) hash = i"
    and "i \<in> set (cc_down_servers conf)" "now < cc_timeout conf ! i" "\<not> ch_unusable check_down conf i"
    and "j \<in> ch_live conf" "\<not> ch_unusable check_down conf j"
  shows "\<exists>conf'. ngx_http_upstream_get_chash_peer check_down now hash conf = Some (None, conf')
    \<and> j \<in> ch_live conf' \<and> \<not> ch_unusable check_down conf' j"
proof -
  obtain conf1 where conf1: "ch_recover check_down now (cc_down_servers conf) conf = Some conf1" "same_ring conf conf1"
      "ch_live conf \<subseteq> ch_live conf1"
    using recover_queue_ok [OF assms(1)] by blast
  note keep = recover_peer [OF conf1(1) down_rnindex [OF assms(1)]]
  have "cs_down (cc_servers conf ! i)" using assms(1,3) by (auto simp: ch_inv_def ch_queue_def ch_live_def)
  then have "cs_down (cc_servers conf1 ! i)" "\<not> ch_unusable check_down conf1 i" using keep [of i] assms(4,5) by auto
  moreover have "ngx_http_upstream_chash_get_server_index (cc_servers conf1) (cc_number conf1) hash = i"
    using index_same_ring [OF conf1(2)] assms(2) by simp
  ultimately have "ngx_http_upstream_get_chash_peer check_down now hash conf = Some (None, conf1)"
    using conf1(1) by (simp add: ngx_http_upstream_get_chash_peer_def Let_def)
  then show ?thesis using conf1(3) keep [of j] assms(6,7) by auto
qed

section \<open>A sample ring\<close>

text \<open>Two servers with a point each, the first of which is waiting for its timeout.\<close>

definition ch_sample_peer :: "bool \<Rightarrow> ch_peer" where
  "ch_sample_peer d = \<lparr>cp_id = [], cp_name = [], cp_weight = 1, cp_fails = 0, cp_max_fails = 1, cp_fail_timeout = 10,
     cp_down = d, cp_check_index = 0\<rparr>"

definition ch_sample :: "bool \<Rightarrow> ch_conf" where
  "ch_sample d = \<lparr>cc_number = 2,
     cc_servers = [\<lparr>cs_down = False, cs_hash = 0, cs_rnindex = 0\<rparr>, \<lparr>cs_down = True, cs_hash = 10, cs_rnindex = 0\<rparr>,
       \<lparr>cs_down = False, cs_hash = 20, cs_rnindex = 1\<rparr>],
     cc_real_node = [[1], [2]],
     cc_tree = the (ngx_segment_tree_delete (the (ngx_segment_tree_build (ngx_segment_tree_init 2) 1 1 2)) 1 1 2 1),
     cc_timeout = [0, 10, 0], cc_down_servers = [1], cc_peers = [ch_sample_peer d, ch_sample_peer False]\<rparr>"

lemma up_to_2: "{1..2 :: nat} = {1, 2}" "i \<in> {1..2 :: nat} \<longleftrightarrow> i = 1 \<or> i = 2"
  by auto

lemma sample_inv: "ch_inv (ch_sample d)" "ch_live (ch_sample d) = {2}"
proof -
  have "ch_live (ch_sample d) = {i \<in> {1, 2}. \<not> cs_down (cc_servers (ch_sample d) ! i)}"
    unfolding ch_live_def up_to_2(1) [symmetric] by (simp add: ch_sample_def)
  also have "\<dots> = {2}" by (auto simp: ch_sample_def)
  finally show l: "ch_live (ch_sample d) = {2}" .
  obtain t where t: "ngx_segment_tree_build (ngx_segment_tree_init 2) 1 1 2 = Some t" "sg_live t 2 {1..2}"
    using live_build [of 2] by auto
  obtain t' where "ngx_segment_tree_delete t 1 1 2 1 = Some t'" "sg_live t' 2 ({1..2} - {1})"
    using live_delete [OF t(2), of 1] by auto
  moreover have "{1..2} - {1} = {2 :: nat}" by auto
  ultimately have "sg_live (cc_tree (ch_sample d)) 2 {2}" using t(1) by (simp add: ch_sample_def)
  then have "ch_queue (ch_sample d)" unfolding ch_queue_def l by (auto simp: ch_sample_def)
  moreover have "ch_ring (ch_sample d)"
  proof -
    have "cs_hash (cc_servers (ch_sample d) ! i) \<le> cs_hash (cc_servers (ch_sample d) ! j)" if "1 \<le> i" "i \<le> j" "j \<le> 2" for i j
    proof -
      have "(i, j) \<in> {(1, 1), (1, 2), (2, 2)}" using that by auto
      then show ?thesis by (auto simp: ch_sample_def)
    qed
    moreover have c: "cc_number (ch_sample d) = 2" "length (cc_servers (ch_sample d)) = 3" "length (cc_timeout (ch_sample d)) = 3"
        "length (cc_real_node (ch_sample d)) = 2" "length (cc_peers (ch_sample d)) = 2" "cc_real_node (ch_sample d) = [[1], [2]]"
        "cs_rnindex (cc_servers (ch_sample d) ! 1) = 0" "cs_rnindex (cc_servers (ch_sample d) ! 2) = 1"
      by (simp_all add: ch_sample_def)
    moreover have "set (cc_real_node (ch_sample d) ! r) = {i \<in> {1..2}. cs_rnindex (cc_servers (ch_sample d) ! i) = r}" if "r < 2" for r
    proof -
      have "r = 0 \<or> r = 1" using that by auto
      then show ?thesis unfolding up_to_2(1) using c(6-8) by auto
    qed
    moreover have "cs_rnindex (cc_servers (ch_sample d) ! i) < 2" if "i \<in> {1..2}" for i
      using that c(7,8) unfolding up_to_2(2) by auto
    ultimately show ?thesis unfolding ch_ring_def c(1-5) by auto
  qed
  ultimately show "ch_inv (ch_sample d)" by (simp add: ch_inv_def)
qed

lemma sample_index: "ngx_http_upstream_chash_get_server_index (cc_servers (ch_sample d)) (cc_number (ch_sample d)) 5 = 1"
  by (simp add: ngx_http_upstream_chash_get_server_index_def ch_sample_def ch_search.simps)

theorem chash_get_peer_witness:
  "\<exists>server conf'. ngx_http_upstream_get_chash_peer (\<lambda>_. False) 20 5 (ch_sample False) = Some (server, conf') \<and> ch_inv conf'"
  using chash_get_peer [OF sample_inv(1) [of False], of "\<lambda>_. False" 20 5] by blast

theorem chash_invariant_witness:
  "\<exists>conf. ngx_http_upstream_init_chash [ch_sample_peer False] = Some conf \<and> ch_inv conf"
proof -
  have "length (ch_all_points [ch_sample_peer False]) < 2 ^ 31" "0 < cp_weight (ch_sample_peer False)"
    by (simp_all add: ch_sample_peer_def ch_all_points_def ch_points_def ch_point_count_def)
  then show ?thesis using chash_invariant [of "[ch_sample_peer False]" "ch_sample False" None False] by auto
qed

theorem chash_revives_down_witness:
  "\<exists>conf'. ngx_http_upstream_get_chash_peer (\<lambda>_. False) 20 5 (ch_sample True) = Some (Some 1, conf') \<and> \<not> cp_down (ch_peer_of conf' 1)"
  by (rule chash_revives_down [OF sample_inv(1) _ _ _ _ sample_index])
    (simp_all add: ch_sample_def ch_peer_of_def ch_sample_peer_def)

theorem chash_busy_with_live_servers_witness:
  "\<exists>conf'. ngx_http_upstream_get_chash_peer (\<lambda>_. False) 5 5 (ch_sample False) = Some (None, conf')
    \<and> 2 \<in> ch_live conf' \<and> \<not> ch_unusable (\<lambda>_. False) conf' 2"
proof -
  have "1 \<in> set (cc_down_servers (ch_sample False))" "5 < cc_timeout (ch_sample False) ! 1"
      "\<not> ch_unusable (\<lambda>_. False) (ch_sample False) 1" "\<not> ch_unusable (\<lambda>_. False) (ch_sample False) 2"
    by (simp_all add: ch_sample_def ch_peer_of_def ch_sample_peer_def ch_unusable_def)
  then show ?thesis by (intro chash_busy_with_live_servers [OF sample_inv(1) sample_index]) (simp_all add: sample_inv(2))
qed

end
