(* ===== verification/Spec2Isabelle.thy ===== *)
theory Spec2Isabelle
  imports Http_Request_Uri Http_Header_Spec Http_Body Upstream_Rr_Fair Ngx_Numbers Ngx_Escape Ngx_Base64 Ngx_Utf8 Ngx_Times_Parse
    Http_Limit_Req_Rate Http_Limit_Req_Pins Ngx_Shmtx Ngx_Rwlock Http_Unsafe_Uri Upstream_Chash_Props
begin

text \<open>
  Verification library for Tengine, the web server derived from nginx. It models, function by function,
  code that is pure or works on memory: the parsers that read what clients and configuration files
  write, the algorithms that choose upstream servers, the request rate limiter, and the locks that worker
  processes share. Paths below are relative to the root of the repository.

  \<^bold>\<open>The program and how its parts interact.\<close> A worker process reads bytes from a connection into a
  buffer. \<open>ngx_http_parse_request_line\<close> finds the method, the URI and the version in it, a call per read;
  \<open>ngx_http_process_request_uri\<close> and \<open>ngx_http_parse_complex_uri\<close> decode and normalise the URI into a
  buffer of its own; \<open>ngx_http_parse_header_line\<close> reads the header lines; the body goes through the
  filters of \<open>ngx_http_request_body.c\<close>, which call \<open>ngx_http_parse_chunked\<close>. Then the phases run, among
  them the rate limiter, and a request for an upstream group asks its balancer for a peer, which it gives
  back at the end. The state of groups and zones may be in shared memory, under the mutex of
  \<open>ngx_shmtx.c\<close> and the reader-writer lock of \<open>ngx_rwlock.c\<close>. The helpers of \<open>ngx_string.c\<close>,
  \<open>ngx_parse.c\<close> and \<open>ngx_parse_time.c\<close> serve all of them.

  \<^bold>\<open>Conventions.\<close> The platform is 64-bit Unix. A byte is an \<open>8 word\<close>, \<open>ngx_uint_t\<close> and \<open>size_t\<close> are \<open>64
  word\<close>s or natural numbers where they are lengths, signed types are integers with their bounds written
  out; where signed arithmetic could overflow, that is an outcome of its own (\<open>ngx_atoll\<close>). A C string with
  a length is a byte list, a pointer into a buffer an offset or the list of the bytes from it on, a null
  pointer \<open>None\<close>. Reads and writes outside a buffer, where the code could make them, are outcomes
  of the model (\<open>URI_overrun\<close>, \<open>Time_overread\<close>, \<open>None\<close>), which the properties exclude. Code outside the
  repository and the environment (clock, random numbers, allocation failures, the verdict of health
  checks, values of variables) are arguments.

  \<^bold>\<open>Theories.\<close>

  \<^item> \<open>Ngx_Prelude\<close>: machine types, return codes, slices, and \<open>run_bytes\<close>, the loop of the byte parsers, with
    two locales: \<open>byte_machine\<close> (running on from where the bytes ended is running on all the bytes) and
    \<open>byte_machine_inv\<close> (an invariant of the steps holds of the run). Each parser interprets them.
  \<^item> \<open>Http_Request\<close>, \<open>Http_Request_Line\<close>: \<open>ngx_http_parse_request_line\<close> of \<open>src/http/ngx_http_parse.c\<close>,
    one definition per state of its switch. Shown: a line may arrive in any pieces (C5), and what the
    fields of an accepted request say about its bytes (C6).
  \<^item> \<open>Http_Uri\<close>, \<open>Http_Request_Uri\<close>: \<open>ngx_http_parse_complex_uri\<close> with its writes into \<open>r->uri.data\<close>, and
    \<open>ngx_http_process_request_uri\<close>. Together with the request line they give C1, in this theory: no write
    outside the buffer and no dot segments in the path.
  \<^item> \<open>Http_Unsafe_Uri\<close>: \<open>ngx_http_parse_unsafe_uri\<close>, and exactly which URIs it lets through (C16).
  \<^item> \<open>Http_Header\<close>, \<open>Http_Header_Spec\<close>: \<open>ngx_http_parse_header_line\<close> against a grammar, for lines of
    clients (C15), and in any number of reads (C19).
  \<^item> \<open>Http_Chunked\<close>, \<open>Http_Chunked_Spec\<close>, \<open>Http_Body\<close>: \<open>ngx_http_parse_chunked\<close>, a grammar of chunked bodies,
    and the filters of \<open>src/http/ngx_http_request_body.c\<close>, on a mutable buffer where small chunks are
    moved together. The filter refines the grammar however the body is split into reads (C2), discarding
    stops where reading does (C8), \<open>ctx->length\<close> is exact (C20) and sizes stay in \<open>off_t\<close> (C21).
  \<^item> \<open>Smooth_Wrr\<close>, \<open>Upstream_Round_Robin\<close>, \<open>Upstream_Rr_Props\<close>, \<open>Upstream_Rr_Fair\<close>: the balancer of
    \<open>src/http/ngx_http_upstream_round_robin.c\<close>. A peers set is a list of peers and a group a primary
    and an optional backup set; \<open>rr_data\<close> is the state of a request, with the set it draws from. The locale
    \<open>smooth_wrr\<close> is the contract of smooth weights, interpreted on the rounds that the code plays, selections
    and discarded rounds alike. Shown: fairness of every window of requests (C3), the accounting of
    connections under any interleaving of requests, as an inductive relation \<open>rr_steps\<close> (C4), which peers may
    be selected (C7), the closed form of the current weights (C22) and the rotation of unweighted groups (C23).
  \<^item> \<open>Ngx_Segment_Tree\<close>, \<open>Upstream_Chash\<close>, \<open>Upstream_Chash_Props\<close>: \<open>src/core/ngx_segment_tree.c\<close>,
    \<open>ngx_murmurhash.c\<close> and Tengine's consistent hash module. The recursions of the tree and the failover
    loop are \<open>partial_function\<close>s, so that not returning is \<open>None\<close>, and are shown to return. The tree answers
    range minimum queries (C17), the locale \<open>sg_update\<close> serving insertion and deletion; the ring is set up with
    its invariant (C18), a selection returns a usable server (C9), and two ways in which it goes wrong (C39, C40).
  \<^item> \<open>Http_Limit_Req\<close>, \<open>Http_Limit_Req_Rate\<close>, \<open>Http_Limit_Req_Pins\<close>:
    \<open>src/http/modules/ngx_http_limit_req_module.c\<close>. The rate is kept in every window of less than a minute in
    which no node is evicted by force (C13); no node stays pinned when the rates can be read (C14); the two
    error paths that go wrong (C37, C38).
  \<^item> \<open>Ngx_Shmtx\<close>, \<open>Ngx_Rwlock\<close>: the locks as step relations of any number of processes, an access to shared
    memory at a time. No wakeup is lost (C10), mutual exclusion (C11, C12). A process dies only in its
    critical section; POSIX semaphores are as documented.
  \<^item> \<open>Ngx_Numbers\<close>, \<open>Ngx_Sprintf\<close>: the number, size and time parsers of \<open>src/core/ngx_string.c\<close> and
    \<open>ngx_parse.c\<close> are exact (C30, C31, C33), formatted printing respects its buffer (C27) and numbers are
    read back (C28), by the locale \<open>digit_loop\<close> for both bases.
  \<^item> \<open>Ngx_Times\<close>, \<open>Ngx_Times_Spec\<close>, \<open>Ngx_Times_Parse\<close>: \<open>ngx_gmtime\<close>, the two printers of dates and
    \<open>ngx_parse_http_time\<close> against a calendar defined by the lengths of months and years (C25, C26).
  \<^item> \<open>Ngx_Escape\<close>, \<open>Ngx_Base64\<close>, \<open>Ngx_Utf8\<close>: round trips and lengths of escaping (C24, C32, C35), base64, by
    the locale \<open>base64_alphabet\<close> for both alphabets (C29), and UTF-8 (C34, C36).

  \<^bold>\<open>Bounds.\<close> No definition has fuel: loops are recursions on lists or have a measure, and what may not return is
  an option. The bounds in the properties are those of the code: \<open>off_t\<close> and \<open>ngx_int_t\<close> of 64 bits, the
  20 digits of \<open>NGX_INT64_LEN\<close>, the years from 1970 to 9999 that four digits can print, fewer than \<open>2\<^sup>6\<^sup>2\<close>
  processes for the reader-writer lock, and 60000 milliseconds, after which a node of the rate limiter may
  expire.

  \<^bold>\<open>Choices.\<close> Equal hashes of the consistent hash ring are in the order of a stable sort, which \<open>qsort\<close>
  leaves open. A rate of 0, by which the rate limiter would divide, gives the quotient 0. \<open>Time_error\<close> and
  the time \<open>- 1\<close> are told apart. The tree and the queue of a rate limiter zone are one list. A peers set
  is not changed by the resolver or the API of shared zones between the calls of a request, except that a
  changed \<open>config\<close> is noticed.

  \<^bold>\<open>Not modelled\<close>, because they are I/O, system calls, timers or calls of external libraries: the event loop and
  sockets, TLS, HTTP/2 and QUIC, mail and stream proxies, files and the response cache, output filters,
  configuration parsing, logging, the resolver, process management, and the Lua, TFS, dubbo and XUDP
  modules. Not modelled although they could be: the status line and cookie helpers of
  \<open>ngx_http_parse.c\<close>, the balancers other than round robin and consistent hash, the hash, radix tree,
  red-black tree, slab and pool structures of the core, the SSL sessions of peers, and the other Tengine
  modules.
\<close>

section \<open>Properties that span components\<close>

text \<open>
  C1: A request never escapes its document root by its path, and its path is never written outside
  its buffer. Whatever bytes a client sends, once the request line is accepted and
  \<open>ngx_http_process_request_uri\<close> has run, no byte has been written past the allocation of
  \<open>r->uri\<close>; and if it succeeds, \<open>r->uri\<close> starts with a slash, has no NUL byte, and none of its
  segments is \<open>.\<close> or \<open>..\<close>, however the client spelled them.
\<close>

theorem request_uri_normalised:
  assumes "ngx_http_parse_request_line pc fresh_request b = (NGX_OK, r, b')"
    and "ngx_http_process_request_uri alloc_ok merge_slashes (b_data b) r = res"
  shows "res \<noteq> URI_overrun \<and>
    (\<forall>r'. res = URI_ok r' \<longrightarrow> take 1 (r_uri r') = [b_slash] \<and> NUL \<notin> set (r_uri r')
       \<and> [b_dot] \<notin> set (segments (r_uri r')) \<and> [b_dot, b_dot] \<notin> set (segments (r_uri r')))"
proof -
  obtain u e where "r_uri_start r = Some u" "r_uri_end r = Some e" "e \<le> length (b_data b)"
      "uri_facts (b_data b) u e r"
    using request_line_accepted [OF assms(1)] by (fastforce simp: uri_read_def)
  then show ?thesis
    using process_request_uri_safe [of "b_data b" u e r alloc_ok merge_slashes] assms(2)
    by (auto simp: normal_path_def dot_segments_def split: uri_result.splits)
qed

lemma sample_line_uri:
  "\<exists>r'. ngx_http_process_request_uri True True sample_line sample_request = URI_ok r'
     \<and> r_uri r' = [47, 98, 47, 99]"
  by (simp add: ngx_http_process_request_uri_def ngx_http_parse_complex_uri_def sample_line_def
      sample_request_def fresh_request_def Let_def request_uri_alloc_def request_uri_len_def
      slice_def cu_init_def cu_step_def cu_plain_defs cu_put_def cu_parent_def cu_finish_def
      cu_store_def cu_quoted_step_def cu_quoted_second_step_def is_digit_def is_hex_alpha_def
      usual_ch_samples usual_ch_special)

text \<open>The line \<open>GET /a/../b%2fc?d HTTP/1.1\<close> is accepted, and its path becomes \<open>/b/c\<close>.\<close>

theorem request_uri_normalised_witness:
  "\<exists>r'. ngx_http_process_request_uri True True sample_line sample_request = URI_ok r'
     \<and> r_uri r' = [47, 98, 47, 99] \<and> [b_dot, b_dot] \<notin> set (segments (r_uri r'))"
proof -
  obtain r' where r': "ngx_http_process_request_uri True True sample_line sample_request = URI_ok r'"
      "r_uri r' = [47, 98, 47, 99]"
    using sample_line_uri by blast
  then have "[b_dot, b_dot] \<notin> set (segments (r_uri r'))"
    using request_uri_normalised [OF sample_line_parsed, of True True "URI_ok r'"] by simp
  with r' show ?thesis by blast
qed

end
